(* ===== verification/Prelude.thy ===== *)
theory Prelude
  imports Main "HOL-Library.Word"
begin

text \<open>
  Shared vocabulary of the development: bytes, Go's 64-bit signed \<open>int\<close> with its
  wrap-around written out, the overwriting of a stretch of a list (what \<open>copy\<close> into a
  sub-slice does to its array), and the lemmas and lemma collections the component
  theories use.
\<close>

named_theorems go_int "rewriting of wrapped arithmetic to plain arithmetic inside the int range"
named_theorems wf_intros "well-formedness is kept by an operation"
named_theorems step_inv "an invariant is kept by a step of a transition system"

type_synonym byte = "8 word"

subsection \<open>Go's int\<close>

text \<open>
  Every Go \<open>int\<close> is a 64-bit two's complement number on the platforms the library is
  built for. It is modelled by an \<open>int\<close>, and every addition or subtraction of the code
  whose result could leave the range goes through \<open>wrap64\<close>.
\<close>

definition wrap64 :: "int \<Rightarrow> int" where
  "wrap64 x = (x + 2 ^ 63) mod 2 ^ 64 - 2 ^ 63"

abbreviation max_int :: int where
  "max_int \<equiv> 9223372036854775807"

definition is_int :: "int \<Rightarrow> bool" where
  "is_int x \<longleftrightarrow> - max_int - 1 \<le> x \<and> x \<le> max_int"

lemma wrap64_range: "is_int (wrap64 x)"
proof -
  have "0 \<le> (x + 2 ^ 63) mod 2 ^ 64 \<and> (x + 2 ^ 63) mod 2 ^ 64 < (2 ^ 64 :: int)"
    by simp
  then show ?thesis by (auto simp: wrap64_def is_int_def)
qed

lemma wrap64_id: "is_int x \<Longrightarrow> wrap64 x = x"
  by (simp add: wrap64_def is_int_def)

lemma wrap64_nonneg [go_int]: "0 \<le> x \<Longrightarrow> x \<le> max_int \<Longrightarrow> wrap64 x = x"
  by (simp add: wrap64_id is_int_def)

lemma wrap64_add: "wrap64 (wrap64 x + y) = wrap64 (x + y)"
proof -
  have "((x + 2 ^ 63) mod 2 ^ 64 - 2 ^ 63 + y + 2 ^ 63) mod 2 ^ 64 = ((x + 2 ^ 63) mod 2 ^ 64 + y) mod (2 ^ 64 :: int)"
    by (rule arg_cong [where f = "\<lambda>z. z mod 2 ^ 64"]) simp
  also have "\<dots> = (x + y + 2 ^ 63) mod 2 ^ 64" by (simp only: mod_add_left_eq) (simp only: ac_simps)
  finally show ?thesis by (simp only: wrap64_def)
qed

lemma wrap64_diff: "wrap64 (wrap64 x - y) = wrap64 (x - y)"
  using wrap64_add [of x "- y"] by simp

lemma wrap64_over: "max_int < x \<Longrightarrow> x \<le> 2 * max_int + 1 \<Longrightarrow> wrap64 x = x - 2 ^ 64"
proof -
  assume a: "max_int < x" "x \<le> 2 * max_int + 1"
  then have "(x + 2 ^ 63) mod 2 ^ 64 = x + 2 ^ 63 - 2 ^ 64"
    by (subst mod_pos_geq) (auto simp: mod_pos_pos_trivial)
  then show ?thesis by (simp add: wrap64_def)
qed

lemma wrap64_minus: "wrap64 (x - 2 ^ 64) = wrap64 x"
proof -
  have "x - 2 ^ 64 + 2 ^ 63 = (x + 2 ^ 63) - 2 ^ 64" by simp
  then show ?thesis unfolding wrap64_def by (simp only: minus_mod_self2)
qed

subsection \<open>Stretches of a list\<close>

text \<open>\<open>slice_of xs i j\<close> are the cells \<open>i, \<dots>, j - 1\<close>; \<open>overwrite xs i ys\<close> stores \<open>ys\<close> from
  cell \<open>i\<close> on, dropping what does not fit, and never changes the length.\<close>

definition slice_of :: "'a list \<Rightarrow> nat \<Rightarrow> nat \<Rightarrow> 'a list" where
  "slice_of xs i j = take (j - i) (drop i xs)"

definition overwrite :: "'a list \<Rightarrow> nat \<Rightarrow> 'a list \<Rightarrow> 'a list" where
  "overwrite xs i ys = take i xs @ take (length xs - i) ys @ drop (i + length ys) xs"

lemma length_overwrite [simp]: "length (overwrite xs i ys) = length xs"
  by (auto simp: overwrite_def min_def)

lemma overwrite_Nil [simp]: "overwrite xs i [] = xs"
  by (simp add: overwrite_def)

lemma length_slice_of: "j \<le> length xs \<Longrightarrow> length (slice_of xs i j) = j - i"
  by (simp add: slice_of_def)

lemma slice_of_same [simp]: "slice_of xs i i = []"
  by (simp add: slice_of_def)

lemma slice_of_drop_take: "slice_of xs i j = drop i (take j xs)"
  by (simp add: slice_of_def drop_take)

lemma take_overwrite_before: "j \<le> i \<Longrightarrow> take j (overwrite xs i ys) = take j xs"
  by (cases "i \<le> length xs") (simp_all add: overwrite_def min_def)

lemma slice_of_append: "i \<le> j \<Longrightarrow> j \<le> k \<Longrightarrow> slice_of xs i j @ slice_of xs j k = slice_of xs i k"
proof -
  assume "i \<le> j" "j \<le> k"
  then have "k - i = (j - i) + (k - j)" and "j = (j - i) + i" by simp_all
  then show ?thesis
    unfolding slice_of_def by (metis take_add drop_drop)
qed

lemma slice_of_overwrite_before: "j \<le> i \<Longrightarrow> slice_of (overwrite xs i ys) k j = slice_of xs k j"
  by (simp add: slice_of_drop_take take_overwrite_before)

lemma slice_of_overwrite_within:
  "i + length ys \<le> length xs \<Longrightarrow> slice_of (overwrite xs i ys) i (i + length ys) = ys"
  by (simp add: slice_of_def overwrite_def)

lemma slice_of_overwrite_prefix:
  assumes "n \<le> length ys" and "i + length ys \<le> length xs"
  shows "slice_of (overwrite xs i ys) i (i + n) = take n ys"
  using assms by (simp add: slice_of_def overwrite_def)

lemma slice_of_overwrite_extend:
  assumes "i \<le> j" and "n \<le> length ys" and "j + length ys \<le> length xs"
  shows "slice_of (overwrite xs j ys) i (j + n) = slice_of xs i j @ take n ys"
proof -
  have "slice_of (overwrite xs j ys) i (j + n)
      = slice_of (overwrite xs j ys) i j @ slice_of (overwrite xs j ys) j (j + n)"
    using assms(1) by (simp add: slice_of_append)
  then show ?thesis
    using assms by (simp add: slice_of_overwrite_before slice_of_overwrite_prefix)
qed

lemma take_slice_of: "i + n \<le> j \<Longrightarrow> take n (slice_of xs i j) = slice_of xs i (i + n)"
  by (simp add: slice_of_def)

lemma drop_slice_of: "drop n (slice_of xs i j) = slice_of xs (i + n) j"
  by (simp add: slice_of_def drop_take add.commute)

lemma slice_of_nth: "i < j \<Longrightarrow> j \<le> length xs \<Longrightarrow> slice_of xs i j = xs ! i # slice_of xs (Suc i) j"
proof -
  assume "i < j" "j \<le> length xs"
  then have "drop i xs = xs ! i # drop (Suc i) xs" and "j - i = Suc (j - Suc i)"
    by (simp_all add: Cons_nth_drop_Suc)
  then show ?thesis by (simp add: slice_of_def)
qed

subsection \<open>Results\<close>

text \<open>A result of a call that is passed on with its value rearranged.\<close>

lemma map_sum_Inr_iff: "map_sum f g x = Inr y \<longleftrightarrow> (\<exists>z. x = Inr z \<and> y = g z)"
  by (cases x) auto

end
