(* ===== verification/Slicelib.thy ===== *)
theory Slicelib
  imports Prelude "HOL-Library.Sublist"
begin

text \<open>
  \<^verbatim>\<open>enhancements/slicelib\<close>: the generic slice helpers. A slice is a list; the nil slice
  and the empty slice, which every caller treats alike, are both \<open>[]\<close>. The loops are kept
  as loops over an accumulator, and each is shown equal to the list function it computes.
\<close>

subsection \<open>Map and Filter\<close>

fun Map_loop :: "('a \<Rightarrow> 'b) \<Rightarrow> 'a list \<Rightarrow> 'b list \<Rightarrow> 'b list" where
  "Map_loop block [] retArr = retArr"
| "Map_loop block (it # rest) retArr = Map_loop block rest (retArr @ [block it])"

definition Map_slice :: "'a list \<Rightarrow> ('a \<Rightarrow> 'b) \<Rightarrow> 'b list" where
  "Map_slice arr block = Map_loop block arr []"

text \<open>\<open>boxed\<close> puts a value into an \<open>any\<close>.\<close>

definition MapToAny :: "('a \<Rightarrow> 'any) \<Rightarrow> 'a list \<Rightarrow> 'any list" where
  "MapToAny boxed arr = Map_slice arr (\<lambda>it. boxed it)"

fun Filter_loop :: "('a \<Rightarrow> bool) \<Rightarrow> 'a list \<Rightarrow> 'a list \<Rightarrow> 'a list" where
  "Filter_loop block [] retArr = retArr"
| "Filter_loop block (it # rest) retArr =
     Filter_loop block rest (if block it then retArr @ [it] else retArr)"

definition Filter_slice :: "'a list \<Rightarrow> ('a \<Rightarrow> bool) \<Rightarrow> 'a list" where
  "Filter_slice arr block = Filter_loop block arr []"

text \<open>An element of an interface type is an \<open>option\<close>, the nil interface being \<open>None\<close>.\<close>

definition FilterNotNil :: "'a option list \<Rightarrow> 'a option list" where
  "FilterNotNil arr = Filter_slice arr (\<lambda>it. it \<noteq> None)"

definition FilterNotDefault :: "'a \<Rightarrow> 'a list \<Rightarrow> 'a list" where
  "FilterNotDefault defaultValue arr = Filter_slice arr (\<lambda>it. it \<noteq> defaultValue)"

fun FilterIndexed_loop :: "(nat \<Rightarrow> 'a \<Rightarrow> bool) \<Rightarrow> nat \<Rightarrow> 'a list \<Rightarrow> 'a list \<Rightarrow> 'a list" where
  "FilterIndexed_loop block index [] retArr = retArr"
| "FilterIndexed_loop block index (it # rest) retArr =
     FilterIndexed_loop block (Suc index) rest (if block index it then retArr @ [it] else retArr)"

definition FilterIndexed :: "'a list \<Rightarrow> (nat \<Rightarrow> 'a \<Rightarrow> bool) \<Rightarrow> 'a list" where
  "FilterIndexed arr block = FilterIndexed_loop block 0 arr []"

lemma Map_loop_eq: "Map_loop block arr acc = acc @ map block arr"
  by (induction arr arbitrary: acc) auto

lemma Map_slice_eq [simp]: "Map_slice arr block = map block arr"
  by (simp add: Map_slice_def Map_loop_eq)

lemma Filter_loop_eq: "Filter_loop block arr acc = acc @ filter block arr"
  by (induction arr arbitrary: acc) auto

lemma Filter_slice_eq [simp]: "Filter_slice arr block = filter block arr"
  by (simp add: Filter_slice_def Filter_loop_eq)

lemma FilterIndexed_loop_eq:
  "FilterIndexed_loop block i arr acc
     = acc @ map snd (filter (\<lambda>(j, x). block j x) (zip [i..<i + length arr] arr))"
proof (induction arr arbitrary: i acc)
  case Nil
  then show ?case by simp
next
  case (Cons x arr)
  have "[i..<i + length (x # arr)] = i # [Suc i..<Suc i + length arr]"
    using upt_conv_Cons [of i "i + length (x # arr)"] by simp
  then show ?case by (simp only: zip_Cons_Cons) (simp add: Cons.IH)
qed

lemma FilterIndexed_eq:
  "FilterIndexed arr block = map snd (filter (\<lambda>(j, x). block j x) (zip [0..<length arr] arr))"
  by (simp add: FilterIndexed_def FilterIndexed_loop_eq)

subsection \<open>Removing duplicates\<close>

fun UniqBy_loop :: "('a \<Rightarrow> 'c) \<Rightarrow> 'a list \<Rightarrow> 'c set \<Rightarrow> 'a list \<Rightarrow> 'a list" where
  "UniqBy_loop block [] seen result = result"
| "UniqBy_loop block (item # rest) seen result =
     (let c = block item
      in if c \<in> seen then UniqBy_loop block rest seen result
         else UniqBy_loop block rest (insert c seen) (result @ [item]))"

definition UniqBy :: "'a list \<Rightarrow> ('a \<Rightarrow> 'c) \<Rightarrow> 'a list" where
  "UniqBy arr block = UniqBy_loop block arr {} []"

fun Uniq_loop :: "'a list \<Rightarrow> 'a set \<Rightarrow> 'a list \<Rightarrow> 'a list" where
  "Uniq_loop [] seen result = result"
| "Uniq_loop (item # rest) seen result =
     (if item \<in> seen then Uniq_loop rest seen result
      else Uniq_loop rest (insert item seen) (result @ [item]))"

definition Uniq_slice :: "'a list \<Rightarrow> 'a list" where
  "Uniq_slice arr = Uniq_loop arr {} []"

text \<open>
  \<open>UniqByLast\<close> walks the slice from its end (the loop variable \<open>i\<close> counts down, here the
  number \<open>Suc i\<close> of elements still to visit) and then reverses the result in place by
  swapping the elements at \<open>i\<close> and \<open>j\<close> while \<open>i < j\<close>.
\<close>

fun UniqByLast_loop :: "('a \<Rightarrow> 'c) \<Rightarrow> 'a list \<Rightarrow> nat \<Rightarrow> 'c set \<Rightarrow> 'a list \<Rightarrow> 'a list" where
  "UniqByLast_loop block arr 0 seen result = result"
| "UniqByLast_loop block arr (Suc i) seen result =
     (let c = block (arr ! i)
      in if c \<in> seen then UniqByLast_loop block arr i seen result
         else UniqByLast_loop block arr i (insert c seen) (result @ [arr ! i]))"

function reverse_loop :: "'a list \<Rightarrow> int \<Rightarrow> int \<Rightarrow> 'a list" where
  "reverse_loop result i j =
     (if i < j
      then reverse_loop (result[nat i := result ! nat j, nat j := result ! nat i]) (i + 1) (j - 1)
      else result)"
  by pat_completeness auto
termination
  by (relation "measure (\<lambda>(result, i, j). nat (j - i))") auto

declare reverse_loop.simps [simp del]

definition UniqByLast :: "'a list \<Rightarrow> ('a \<Rightarrow> 'c) \<Rightarrow> 'a list" where
  "UniqByLast arr block =
     (let result = UniqByLast_loop block arr (length arr) {} []
      in reverse_loop result 0 (int (length result) - 1))"

text \<open>
  What is kept, by position: the element at \<open>i\<close> stays when its key is not already seen
  and no earlier position has the same key.
\<close>

lemma no_earlier_key_Cons:
  "(\<forall>j<Suc i. f ((x # xs) ! j) \<noteq> c) \<longleftrightarrow> f x \<noteq> c \<and> (\<forall>j<i. f (xs ! j) \<noteq> c)"
  by (auto simp: less_Suc_eq_0_disj)

lemma UniqBy_loop_eq:
  "UniqBy_loop f arr seen acc
     = acc @ map ((!) arr) (filter (\<lambda>i. f (arr ! i) \<notin> seen \<and> (\<forall>j<i. f (arr ! j) \<noteq> f (arr ! i)))
         [0..<length arr])"
proof (induction arr arbitrary: seen acc)
  case Nil
  then show ?case by simp
next
  case (Cons x arr)
  have upt: "[0..<length (x # arr)] = 0 # map Suc [0..<length arr]"
    using upt_conv_Cons [of 0 "length (x # arr)"] by (simp add: map_Suc_upt del: upt_Suc)
  show ?case
  proof (cases "f x \<in> seen")
    case True
    then have "filter (\<lambda>i. f (arr ! i) \<notin> seen \<and> f x \<noteq> f (arr ! i) \<and> Q i) is
        = filter (\<lambda>i. f (arr ! i) \<notin> seen \<and> Q i) is" for Q "is"
      by (intro filter_cong) auto
    with True show ?thesis
      unfolding upt by (simp add: Cons.IH Let_def filter_map o_def no_earlier_key_Cons del: all_simps)
  next
    case False
    have "filter (\<lambda>i. f (arr ! i) \<notin> seen \<and> f x \<noteq> f (arr ! i) \<and> Q i) is
        = filter (\<lambda>i. f (arr ! i) \<noteq> f x \<and> f (arr ! i) \<notin> seen \<and> Q i) is" for Q "is"
      by (intro filter_cong) auto
    with False show ?thesis
      unfolding upt by (simp add: Cons.IH Let_def filter_map o_def no_earlier_key_Cons)
  qed
qed

lemma UniqBy_eq:
  "UniqBy arr f = map ((!) arr) (filter (\<lambda>i. \<forall>j<i. f (arr ! j) \<noteq> f (arr ! i)) [0..<length arr])"
  by (simp add: UniqBy_def UniqBy_loop_eq)

lemma UniqBy_loop_keys:
  assumes "distinct (map f acc)" and "f ` set acc = seen"
  shows "distinct (map f (UniqBy_loop f arr seen acc))
    \<and> f ` set (UniqBy_loop f arr seen acc) = seen \<union> f ` set arr"
  using assms
proof (induction arr arbitrary: seen acc)
  case Nil
  then show ?case by simp
next
  case (Cons x arr)
  show ?case
  proof (cases "f x \<in> seen")
    case True
    with Cons.IH [OF Cons.prems] show ?thesis by (auto simp: Let_def)
  next
    case False
    with Cons.prems have "distinct (map f (acc @ [x]))" and "f ` set (acc @ [x]) = insert (f x) seen"
      by auto
    from Cons.IH [OF this] False show ?thesis by (auto simp: Let_def)
  qed
qed

lemma UniqBy_distinct: "distinct (map f (UniqBy arr f))"
  using UniqBy_loop_keys [of f "[]" "{}" arr] by (simp add: UniqBy_def)

lemma UniqBy_keys: "f ` set (UniqBy arr f) = f ` set arr"
  using UniqBy_loop_keys [of f "[]" "{}" arr] by (simp add: UniqBy_def)

lemma set_UniqBy: "set (UniqBy arr f) \<subseteq> set arr"
  by (auto simp: UniqBy_eq)

lemma UniqBy_distinct_id:
  assumes "distinct (map f arr)"
  shows "UniqBy arr f = arr"
proof -
  have "filter (\<lambda>i. \<forall>j<i. f (arr ! j) \<noteq> f (arr ! i)) [0..<length arr] = [0..<length arr]"
    using assms by (auto simp: filter_id_conv distinct_conv_nth)
  then show ?thesis by (simp add: UniqBy_eq map_nth)
qed

lemma Uniq_loop_eq: "Uniq_loop arr seen acc = UniqBy_loop id arr seen acc"
  by (induction arr arbitrary: seen acc) (simp_all add: Let_def)

lemma Uniq_slice_eq: "Uniq_slice arr = UniqBy arr id"
  by (simp add: Uniq_slice_def UniqBy_def Uniq_loop_eq)

subsection \<open>The walk from the end and the reversal in place\<close>

lemma UniqByLast_loop_eq:
  "n \<le> length arr \<Longrightarrow>
     UniqByLast_loop f arr n seen acc = UniqBy_loop f (rev (take n arr)) seen acc"
  by (induction n arbitrary: seen acc) (auto simp: take_Suc_conv_app_nth Let_def)

lemma swap_ends:
  "(a @ (x # ys @ [y]) @ b)
     [length a := (a @ (x # ys @ [y]) @ b) ! (length a + Suc (length ys)),
      length a + Suc (length ys) := (a @ (x # ys @ [y]) @ b) ! length a]
   = (a @ [y]) @ ys @ ([x] @ b)"
  by (simp add: list_update_append nth_append)

lemma two_ends: "2 \<le> length xs \<Longrightarrow> \<exists>x ys y. xs = x # ys @ [y]"
  by (metis One_nat_def Suc_1 append_butlast_last_id le_zero_eq length_0_conv length_Cons
      list.exhaust not_less_eq_eq zero_neq_one list.size(3))

lemma reverse_loop_eq:
  "reverse_loop (a @ xs @ b) (int (length a)) (int (length a + length xs) - 1) = a @ rev xs @ b"
proof (induction "length xs" arbitrary: a b xs rule: less_induct)
  case less
  show ?case
  proof (cases "2 \<le> length xs")
    case True
    then obtain x ys y where xs: "xs = x # ys @ [y]" using two_ends by blast
    have idx: "int (length a + length xs) - 1 = int (length a + Suc (length ys))"
      by (simp add: xs)
    have "reverse_loop (a @ xs @ b) (int (length a)) (int (length a + length xs) - 1)
        = reverse_loop ((a @ [y]) @ ys @ ([x] @ b)) (int (length (a @ [y])))
            (int (length (a @ [y]) + length ys) - 1)"
      unfolding idx
      by (subst reverse_loop.simps) (simp only: xs nat_int swap_ends, simp add: add.commute)
    also have "\<dots> = (a @ [y]) @ rev ys @ ([x] @ b)"
      by (rule less) (simp add: xs)
    finally show ?thesis by (simp add: xs)
  next
    case False
    then have "rev xs = xs" by (cases xs rule: list.exhaust [case_names Nil Cons]) (auto simp: not_le less_Suc_eq_le)
    with False show ?thesis by (subst reverse_loop.simps) auto
  qed
qed

lemma reverse_loop_rev: "reverse_loop xs 0 (int (length xs) - 1) = rev xs"
  using reverse_loop_eq [of "[]" xs "[]"] by simp

lemma UniqByLast_rev: "UniqByLast arr f = rev (UniqBy (rev arr) f)"
  by (simp add: UniqByLast_def UniqBy_def UniqByLast_loop_eq reverse_loop_rev Let_def)

lemma UniqByLast_distinct: "distinct (map f (UniqByLast arr f))"
  using UniqBy_distinct [of f "rev arr"] by (simp add: UniqByLast_rev rev_map [symmetric])

lemma UniqByLast_keys: "f ` set (UniqByLast arr f) = f ` set arr"
  using UniqBy_keys [of f "rev arr"] by (simp add: UniqByLast_rev)

lemma set_UniqByLast: "set (UniqByLast arr f) \<subseteq> set arr"
  using set_UniqBy [of "rev arr" f] by (simp add: UniqByLast_rev)

subsection \<open>Properties\<close>

lemma subseq_map_nth: "subseq (map ((!) xs) (filter P [0..<length xs])) xs"
proof -
  have "subseq (map ((!) xs) (filter P [0..<length xs])) (map ((!) xs) [0..<length xs])"
    by (intro subseq_map subseq_filter_left)
  then show ?thesis by (simp add: map_nth)
qed

lemma subseq_rev: "subseq xs ys \<Longrightarrow> subseq (rev xs) (rev ys)"
proof (induction rule: list_emb.induct)
  case (list_emb_Cons xs ys y)
  then show ?case using list_emb_append_mono [of "(=)" "rev xs" "rev ys" "[]" "[y]"] by simp
next
  case (list_emb_Cons2 x y xs ys)
  then show ?case using list_emb_append_mono [of "(=)" "rev xs" "rev ys" "[x]" "[y]"] by simp
qed simp

lemma subseq_UniqBy: "subseq (UniqBy arr f) arr"
  unfolding UniqBy_eq by (rule subseq_map_nth)

text \<open>
  \<open>UniqBy\<close> and \<open>UniqByLast\<close> keep the slice's order, keep exactly one element of each key and
  lose no key; \<open>UniqBy\<close> keeps the first element of a key, and \<open>UniqByLast\<close>, in spite of its walk from
  the end and its reversal in place, is \<open>UniqBy\<close> seen in a mirror: it keeps the last.
\<close>

theorem UniqBy_correct:
  "subseq (UniqBy arr f) arr \<and> distinct (map f (UniqBy arr f)) \<and> f ` set (UniqBy arr f) = f ` set arr
    \<and> UniqBy arr f = map ((!) arr) (filter (\<lambda>i. \<forall>j<i. f (arr ! j) \<noteq> f (arr ! i)) [0..<length arr])
    \<and> subseq (UniqByLast arr f) arr \<and> distinct (map f (UniqByLast arr f))
    \<and> f ` set (UniqByLast arr f) = f ` set arr \<and> UniqByLast arr f = rev (UniqBy (rev arr) f)"
proof -
  have "subseq (UniqByLast arr f) arr"
    using subseq_UniqBy [of "rev arr" f] subseq_rev [of "UniqBy (rev arr) f" "rev arr"]
    by (simp add: UniqByLast_rev)
  then show ?thesis
    by (intro conjI subseq_UniqBy UniqBy_distinct UniqBy_keys UniqBy_eq UniqByLast_distinct UniqByLast_keys
        UniqByLast_rev)
qed

theorem UniqBy_correct_witness:
  "UniqBy [3, 1, 13, 21::nat] (\<lambda>x. x mod 10) = [3, 1] \<and> UniqByLast [3, 1, 13, 21::nat] (\<lambda>x. x mod 10) = [13, 21]
    \<and> distinct (map (\<lambda>x. x mod 10) (UniqByLast [3, 1, 13, 21::nat] (\<lambda>x. x mod 10)))"
  using UniqBy_correct [of "[3, 1, 13, 21::nat]" "\<lambda>x. x mod 10"]
  by (simp add: UniqBy_def)

end
