(* ===== verification/Ex.thy ===== *)
theory Ex
  imports Slicelib
begin

text \<open>
  \<^verbatim>\<open>ex\<close>: error values and the helpers on them, with the two ways a Go function can fail:
  an \<open>error\<close> result (a \<open>go_error option\<close>, the nil error being \<open>None\<close>) and a panic (the left
  side of \<open>'a go\<close>).
\<close>

subsection \<open>Error values\<close>

text \<open>
  A sentinel is the value of an error variable (\<^verbatim>\<open>io.EOF\<close>, \<^verbatim>\<open>buf.ErrRef\<close>): it is compared by
  identity, so it carries the name of its variable beside its text. A \<open>WrapError\<close> is what
  \<^verbatim>\<open>fmt.Errorf\<close> makes of a format with \<open>%w\<close>: its text, formatted when it is made, and the error it
  wraps. \<open>MultiError\<close> is the \<open>multiError\<close> of \<^verbatim>\<open>ex/multi.go\<close>, \<open>JoinedError\<close> the result of
  \<^verbatim>\<open>errors.Join\<close>.
\<close>

datatype go_error =
    Sentinel string string
  | WrapError string "go_error option"
  | MultiError "go_error list"
  | JoinedError "go_error list"

datatype panic =
    PanicMsg string
  | PanicError go_error
  | SliceBounds
  | IndexOutOfRange
  | NilDereference
  | TypeAssertion
  | SendOnClosed
  | CloseOfClosed
  | NegativeWaitGroup

type_synonym 'a go = "panic + 'a"

fun strings_Join :: "string list \<Rightarrow> string \<Rightarrow> string" where
  "strings_Join [] sep = []"
| "strings_Join [x] sep = x"
| "strings_Join (x # y # ys) sep = x @ sep @ strings_Join (y # ys) sep"

text \<open>The \<open>Error\<close> methods.\<close>

fun err_msg :: "go_error \<Rightarrow> string" where
  "err_msg (Sentinel i m) = m"
| "err_msg (WrapError m e) = m"
| "err_msg (MultiError es) = strings_Join (map err_msg es) '';\<newline>''"
| "err_msg (JoinedError es) = strings_Join (map err_msg es) ''\<newline>''"

text \<open>
  \<^verbatim>\<open>errors.Is\<close> for a sentinel target, the only kind of target the library uses: the chain of
  \<open>Unwrap\<close> methods is followed, depth first through the two list errors.
\<close>

fun err_Is :: "go_error \<Rightarrow> string \<Rightarrow> bool" where
  "err_Is (Sentinel i m) t = (i = t)"
| "err_Is (WrapError m None) t = False"
| "err_Is (WrapError m (Some e)) t = err_Is e t"
| "err_Is (MultiError es) t = list_ex (\<lambda>e. err_Is e t) es"
| "err_Is (JoinedError es) t = list_ex (\<lambda>e. err_Is e t) es"

definition errors_Is :: "go_error option \<Rightarrow> string \<Rightarrow> bool" where
  "errors_Is err t = (case err of None \<Rightarrow> False | Some e \<Rightarrow> err_Is e t)"

text \<open>The standard library's sentinels the code names.\<close>

abbreviation io_EOF :: go_error where
  "io_EOF \<equiv> Sentinel ''io.EOF'' ''EOF''"
abbreviation io_ErrShortBuffer :: go_error where
  "io_ErrShortBuffer \<equiv> Sentinel ''io.ErrShortBuffer'' ''short buffer''"
abbreviation io_ErrShortWrite :: go_error where
  "io_ErrShortWrite \<equiv> Sentinel ''io.ErrShortWrite'' ''short write''"
abbreviation io_ErrNoProgress :: go_error where
  "io_ErrNoProgress \<equiv> Sentinel ''io.ErrNoProgress'' ''multiple Read calls return no data or error''"
abbreviation io_ErrUnexpectedEOF :: go_error where
  "io_ErrUnexpectedEOF \<equiv> Sentinel ''io.ErrUnexpectedEOF'' ''unexpected EOF''"

subsection \<open>multi.go\<close>

text \<open>\<open>Errors\<close>: \<open>error.Error\<close> is called on the elements that survive \<open>FilterNotNil\<close>, none of
  which is nil.\<close>

definition Errors :: "go_error option list \<Rightarrow> go_error option" where
  "Errors errors =
     (let errors = FilterNotNil errors;
          errors = FilterNotNil errors;
          errors = UniqBy (List.map_filter id errors) err_msg
      in case errors of
           [] \<Rightarrow> None
         | [e] \<Rightarrow> Some e
         | _ \<Rightarrow> Some (MultiError errors))"

fun IsMulti :: "go_error option \<Rightarrow> string list \<Rightarrow> bool" where
  "IsMulti err [] = False"
| "IsMulti err (target # targetList) =
     (if errors_Is err target then True else IsMulti err targetList)"

subsection \<open>new.go, helper.go, handler.go\<close>

text \<open>\<open>New\<close>: the text is \<^verbatim>\<open>fmt.Sprint\<close> of the arguments (the parameter \<open>sprint\<close>); the result is a
  fresh sentinel, identified by \<open>sid\<close>.\<close>

definition New_error :: "string \<Rightarrow> ('a list \<Rightarrow> string) \<Rightarrow> 'a list \<Rightarrow> go_error option" where
  "New_error sid sprint vv = (if vv = [] then None else Some (Sentinel sid (sprint vv)))"

definition Cause :: "go_error option \<Rightarrow> string \<Rightarrow> go_error" where
  "Cause err due =
     WrapError (due @ '' : '' @ (case err of None \<Rightarrow> ''%!w(<nil>)'' | Some e \<Rightarrow> err_msg e)) err"

definition Zone :: "string \<Rightarrow> go_error option \<Rightarrow> go_error" where
  "Zone zone err = Cause err zone"

definition Must :: "go_error option \<Rightarrow> unit go" where
  "Must err = (case err of None \<Rightarrow> Inr () | Some e \<Rightarrow> Inl (PanicError e))"

definition Must0 :: "'a \<Rightarrow> go_error option \<Rightarrow> 'a go" where
  "Must0 v err = (case err of None \<Rightarrow> Inr v | Some e \<Rightarrow> Inl (PanicError e))"

definition Only :: "'a \<Rightarrow> go_error option \<Rightarrow> go_error option" where
  "Only v err = err"

record JoinError =
  Err :: "go_error option"

definition JoinError_NewError :: "JoinError \<Rightarrow> go_error option \<Rightarrow> JoinError" where
  "JoinError_NewError j err = j\<lparr>Err := Errors [Err j, err]\<rparr>"

definition JoinError_Error :: "JoinError \<Rightarrow> string go" where
  "JoinError_Error j = (case Err j of None \<Rightarrow> Inl NilDereference | Some e \<Rightarrow> Inr (err_msg e))"

subsection \<open>Facts\<close>

abbreviation present :: "go_error option list \<Rightarrow> go_error list" where
  "present \<equiv> List.map_filter id"

lemma set_present [simp]: "e \<in> set (present es) \<longleftrightarrow> Some e \<in> set es"
  by (induction es) (auto simp: List.map_filter_simps split: option.splits)

lemma present_FilterNotNil [simp]: "present (FilterNotNil es) = present es"
  unfolding FilterNotNil_def Filter_slice_eq
  by (induction es) (auto simp: List.map_filter_simps split: option.splits)

lemma Errors_eq:
  "Errors es = (case UniqBy (present es) err_msg of
      [] \<Rightarrow> None | [e] \<Rightarrow> Some e | errs \<Rightarrow> Some (MultiError errs))"
  by (simp add: Errors_def Let_def split: list.splits)

lemma IsMulti_iff: "IsMulti err ts \<longleftrightarrow> (\<exists>t\<in>set ts. errors_Is err t)"
  by (induction ts) auto

lemma errors_Is_Cause [simp]: "errors_Is (Some (Cause err due)) t = errors_Is err t"
  by (cases err) (simp_all add: errors_Is_def Cause_def)

lemma err_Is_Cause [simp]: "err_Is (Cause err due) t = errors_Is err t"
  by (cases err) (simp_all add: errors_Is_def Cause_def)

lemma errors_Is_Errors:
  "errors_Is (Errors es) t \<longleftrightarrow> (\<exists>e\<in>set (UniqBy (present es) err_msg). err_Is e t)"
  by (auto simp: Errors_eq errors_Is_def list_ex_iff split: list.splits)

lemma Errors_None_iff: "Errors es = None \<longleftrightarrow> (\<forall>e\<in>set es. e = None)"
proof -
  have "Errors es = None \<longleftrightarrow> UniqBy (present es) err_msg = []"
    by (auto simp: Errors_eq split: list.splits)
  also have "\<dots> \<longleftrightarrow> err_msg ` set (UniqBy (present es) err_msg) = {}" by simp
  also have "\<dots> \<longleftrightarrow> set (present es) = {}" by (simp only: UniqBy_keys) simp
  also have "\<dots> \<longleftrightarrow> (\<forall>e. Some e \<notin> set es)" by (metis set_present ex_in_conv)
  also have "\<dots> \<longleftrightarrow> (\<forall>e\<in>set es. e = None)" by (metis not_None_eq)
  finally show ?thesis .
qed

subsection \<open>Properties\<close>

text \<open>
  Wrapping and joining errors loses none of them. \<open>Cause\<close> is transparent to \<^verbatim>\<open>errors.Is\<close> and
  prefixes the text; \<open>Errors\<close> is nil exactly when all its arguments are, and when no two of them
  have the same text \<^verbatim>\<open>errors.Is\<close> finds in the result exactly what it finds in one of them. (Of two
  different errors with the same text it keeps only the first.)
\<close>

theorem Errors_correct:
  "(\<forall>x. errors_Is (Some (Cause err due)) x \<longleftrightarrow> errors_Is err x)
    \<and> (\<forall>e. err = Some e \<longrightarrow> err_msg (Cause err due) = due @ '' : '' @ err_msg e)
    \<and> (Errors es = None \<longleftrightarrow> (\<forall>e\<in>set es. e = None))
    \<and> (distinct (map err_msg (present es)) \<longrightarrow>
        (\<forall>x. errors_Is (Errors es) x \<longleftrightarrow> (\<exists>e\<in>set es. errors_Is e x)))"
proof -
  have "errors_Is (Errors es) x \<longleftrightarrow> (\<exists>e\<in>set es. errors_Is e x)" if "distinct (map err_msg (present es))" for x
  proof -
    have "errors_Is (Errors es) x \<longleftrightarrow> (\<exists>e\<in>set (present es). err_Is e x)"
      using UniqBy_distinct_id [OF that] by (simp only: errors_Is_Errors)
    also have "\<dots> \<longleftrightarrow> (\<exists>e\<in>set es. errors_Is e x)"
      by (force simp: errors_Is_def split: option.split)
    finally show ?thesis .
  qed
  moreover have "\<forall>e. err = Some e \<longrightarrow> err_msg (Cause err due) = due @ '' : '' @ err_msg e" by (simp add: Cause_def)
  ultimately show ?thesis using Errors_None_iff [of es] errors_Is_Cause [of err due] by blast
qed

theorem Errors_correct_witness:
  "errors_Is (Errors [None, Some (Cause (Some io_EOF) ''read''), Some io_ErrShortWrite]) ''io.EOF''"
proof -
  let ?es = "[None, Some (Cause (Some io_EOF) ''read''), Some io_ErrShortWrite]"
  have "distinct (map err_msg (present ?es))" by (simp add: List.map_filter_simps Cause_def)
  with Errors_correct [of None "[]" ?es] show ?thesis by (simp add: errors_Is_def)
qed

end
