(* ===== verification/Alloc.thy ===== *)
theory Alloc
  imports Ex
begin

text \<open>
  \<^verbatim>\<open>buf/alloc.go\<close>: the size-class allocator of byte slices. Eleven pools hold arrays of
  64, 128, \<dots>, 65536 bytes. An array has an identity, so that the lifecycle results can say
  who owns it; its cells travel with the slice that owns it.
\<close>

subsection \<open>Slices and pools\<close>

text \<open>\<open>Slice a cs n\<close> is a slice of length \<open>n\<close> over the array \<open>a\<close> whose cells from the start
  of the slice to its capacity are \<open>cs\<close>.\<close>

datatype slice = NilSlice | Slice nat "byte list" nat

fun slice_len :: "slice \<Rightarrow> int" where
  "slice_len NilSlice = 0"
| "slice_len (Slice a cs n) = int n"

fun slice_cells :: "slice \<Rightarrow> byte list" where
  "slice_cells NilSlice = []"
| "slice_cells (Slice a cs n) = cs"

definition slice_cap :: "slice \<Rightarrow> int" where
  "slice_cap s = int (length (slice_cells s))"

record allocator =
  buffers :: "(nat \<times> byte list) list list"
  next_array :: nat

text \<open>The array length each pool's \<open>New\<close> function allocates.\<close>

definition class_sizes :: "nat list" where
  "class_sizes = [2 ^ 6, 2 ^ 7, 2 ^ 8, 2 ^ 9, 2 ^ 10, 2 ^ 11, 2 ^ 12, 2 ^ 13, 2 ^ 14, 2 ^ 15, 2 ^ 16]"

definition newDefaultAllocator :: allocator where
  "newDefaultAllocator = \<lparr>buffers = replicate 11 [], next_array = 0\<rparr>"

text \<open>
  A \<^verbatim>\<open>sync.Pool\<close> may hand out any item it holds, or ignore them and call \<open>New\<close>; \<open>choice\<close> is
  the runtime's decision, an index into the pool's items or, when out of range, a new array.
\<close>

definition pool_Get :: "nat \<Rightarrow> nat \<Rightarrow> allocator \<Rightarrow> (nat \<times> byte list) \<times> allocator" where
  "pool_Get choice i al =
     (let items = buffers al ! i
      in if choice < length items
         then (items ! choice,
               al\<lparr>buffers := (buffers al)[i := take choice items @ drop (Suc choice) items]\<rparr>)
         else ((next_array al, replicate (class_sizes ! i) 0),
               al\<lparr>next_array := Suc (next_array al)\<rparr>))"

definition pool_Put :: "nat \<times> byte list \<Rightarrow> nat \<Rightarrow> allocator \<Rightarrow> allocator" where
  "pool_Put x i al = al\<lparr>buffers := (buffers al)[i := x # buffers al ! i]\<rparr>"

subsection \<open>msb\<close>

text \<open>\<^verbatim>\<open>bits.Len32\<close>: the number of bits of a 32-bit value.\<close>

fun bit_len :: "nat \<Rightarrow> nat" where
  "bit_len n = (if n = 0 then 0 else Suc (bit_len (n div 2)))"

declare bit_len.simps [simp del]

definition Len32 :: "32 word \<Rightarrow> int" where
  "Len32 x = int (bit_len (unat x))"

definition msb :: "int \<Rightarrow> 16 word" where
  "msb sz = word_of_int (Len32 (word_of_int sz) - 1)"

text \<open>\<^verbatim>\<open>1 << index\<close> at type \<open>int\<close>.\<close>

definition shl1 :: "16 word \<Rightarrow> int" where
  "shl1 index = (if unat index < 64 then wrap64 (2 ^ unat index) else 0)"

subsection \<open>Get and Put\<close>

definition pool_index :: "int \<Rightarrow> 16 word" where
  "pool_index sz =
     (if sz > 64
      then let index = msb sz;
               index = (if sz \<noteq> shl1 index then index + 1 else index)
           in index - 6
      else 0)"

text \<open>The arms of the two \<open>switch\<close> statements: the array length of a case, \<open>None\<close> for
  \<open>default\<close>.\<close>

definition switch_class :: "16 word \<Rightarrow> nat option" where
  "switch_class index = (if unat index < length class_sizes then Some (class_sizes ! unat index) else None)"

definition alloc_Get :: "nat \<Rightarrow> int \<Rightarrow> allocator \<Rightarrow> (slice \<times> allocator) go" where
  "alloc_Get choice sz al =
     (if sz \<le> 0 \<or> sz > 65536 then Inr (NilSlice, al)
      else let index = pool_index sz
        in if unat index \<ge> length (buffers al) then Inl IndexOutOfRange
           else case pool_Get choice (unat index) al of
             ((a, cs), al') \<Rightarrow>
               (case switch_class index of
                  None \<Rightarrow> Inl (PanicMsg ''invalid pool index'')
                | Some n \<Rightarrow>
                    if length cs \<noteq> n then Inl TypeAssertion
                    else if sz > int n then Inl SliceBounds
                    else Inr (Slice a cs (nat sz), al')))"

abbreviation ErrPut :: go_error where
  "ErrPut \<equiv> Sentinel ''alloc.Put'' ''allocator Put() incorrect buffer size''"

definition alloc_Put :: "slice \<Rightarrow> allocator \<Rightarrow> (go_error option \<times> allocator) go" where
  "alloc_Put buf al =
     (let bits = msb (slice_cap buf)
      in if slice_cap buf = 0 \<or> slice_cap buf > 65536 \<or> slice_cap buf \<noteq> shl1 bits
         then Inr (Some ErrPut, al)
         else let bits = bits - 6
           in case switch_class bits of
                None \<Rightarrow> Inl (PanicMsg ''invalid pool index'')
              | Some n \<Rightarrow>
                  if slice_cap buf < int n then Inl SliceBounds
                  else if unat bits \<ge> length (buffers al) then Inl IndexOutOfRange
                  else (case buf of
                      NilSlice \<Rightarrow> Inr (None, al)
                    | Slice a cs _ \<Rightarrow> Inr (None, pool_Put (a, take n cs) (unat bits) al)))"

definition put :: "slice \<Rightarrow> allocator \<Rightarrow> allocator go" where
  "put data al =
     (if slice_len data = 0 then Inr al
      else case alloc_Put data al of
        Inl p \<Rightarrow> Inl p
      | Inr (Some e, al') \<Rightarrow> Inl (PanicError e)
      | Inr (None, al') \<Rightarrow> Inr al')"

definition get :: "nat \<Rightarrow> int \<Rightarrow> allocator \<Rightarrow> (slice \<times> allocator) go" where
  "get choice sz al = (if sz = 0 then Inr (NilSlice, al) else alloc_Get choice sz al)"

subsection \<open>The position of the most significant bit\<close>

lemma bit_len_pow: "2 ^ k \<le> n \<Longrightarrow> n < 2 ^ Suc k \<Longrightarrow> bit_len n = Suc k"
proof (induction k arbitrary: n)
  case 0
  then have "n = 1" by simp
  then show ?case by (simp add: bit_len.simps)
next
  case (Suc k)
  then have "2 ^ k \<le> n div 2" and "n div 2 < 2 ^ Suc k" by auto
  from Suc.IH [OF this] show ?case
    using Suc.prems by (subst bit_len.simps) simp
qed

lemma msb_eq:
  assumes "2 ^ k \<le> sz" and "sz < 2 ^ Suc k" and "k < 32"
  shows "msb sz = of_nat k"
proof -
  have "0 \<le> sz" using assms(1) by (rule order_trans [rotated]) simp
  then obtain m where m: "sz = int m" by (metis nonneg_int_cases)
  have km: "2 ^ k \<le> m" "m < 2 ^ Suc k"
    using assms(1,2) by (simp_all add: m del: power_Suc)
  have "(2::nat) ^ Suc k \<le> 2 ^ 32" using assms(3) by (intro power_increasing) auto
  then have "unat (word_of_int sz :: 32 word) = m"
    using km(2) by (simp add: m unat_of_nat take_bit_nat_eq_self_iff)
  then show ?thesis by (simp add: msb_def Len32_def bit_len_pow [OF km])
qed

lemma class_interval:
  assumes "64 < (sz::int)" and "sz \<le> 65536"
  obtains k where "6 \<le> k" and "k \<le> 16" and "2 ^ k \<le> sz" and "sz < 2 ^ Suc k"
proof -
  obtain m where m: "sz = int m" using assms(1) by (metis nonneg_int_cases order_less_le_trans
        order_less_imp_le zero_less_numeral)
  from ex_power_ivl1 [of 2 m] obtain k where k: "2 ^ k \<le> m" "m < 2 ^ (k + 1)"
    using assms by (auto simp: m)
  have m_range: "2 ^ 6 < m" "m < 2 ^ 17" using assms by (simp_all add: m)
  have "(2::nat) ^ 6 < 2 ^ (k + 1)" using m_range(1) k(2) by linarith
  then have "6 < k + 1" by (rule power_less_imp_less_exp [rotated]) simp
  moreover have "(2::nat) ^ k < 2 ^ 17" using m_range(2) k(1) by linarith
  then have "k < 17" by (rule power_less_imp_less_exp [rotated]) simp
  moreover have "2 ^ k \<le> sz" "sz < 2 ^ Suc k"
    using k by (simp_all add: m del: power_Suc)
  ultimately show thesis using that [of k] by simp
qed

subsection \<open>The size class of a request\<close>

lemma shl1_of_nat: "k \<le> 62 \<Longrightarrow> shl1 (of_nat k) = 2 ^ k"
proof -
  assume k: "k \<le> 62"
  then have "unat (of_nat k :: 16 word) = k"
    by (simp add: unat_of_nat take_bit_nat_eq_self_iff)
  moreover have "(2::int) ^ k \<le> 2 ^ 62" using k by (intro power_increasing) auto
  ultimately show ?thesis using k by (simp add: shl1_def go_int)
qed

lemma length_class_sizes [simp]: "length class_sizes = 11"
  by (simp add: class_sizes_def)

lemma class_sizes_nth [simp]: "i < 11 \<Longrightarrow> class_sizes ! i = 2 ^ (i + 6)"
proof -
  assume "i < 11"
  then have "i = 0 \<or> i = 1 \<or> i = 2 \<or> i = 3 \<or> i = 4 \<or> i = 5 \<or> i = 6 \<or> i = 7 \<or> i = 8 \<or> i = 9 \<or> i = 10"
    by arith
  then show ?thesis by (elim disjE) (simp_all add: class_sizes_def)
qed

lemma unat_small_index [simp]: "i < 65536 \<Longrightarrow> unat (of_nat i :: 16 word) = i"
  by (simp add: unat_of_nat take_bit_nat_eq_self_iff)

lemma switch_class_of_nat: "i < 11 \<Longrightarrow> switch_class (of_nat i) = Some (2 ^ (i + 6))"
  by (simp add: switch_class_def)

lemma pool_index_cases:
  assumes "0 < sz" and "sz \<le> 65536"
  obtains i where "i < 11" and "pool_index sz = of_nat i" and "sz \<le> 2 ^ (i + 6)"
    and "i = 0 \<or> 2 ^ (i + 5) < sz"
proof (cases "sz \<le> 64")
  case True
  then show thesis using that [of 0] by (simp add: pool_index_def)
next
  case False
  then obtain k where k: "6 \<le> k" "k \<le> 16" "2 ^ k \<le> sz" "sz < 2 ^ Suc k"
    using class_interval [of sz] assms(2) by auto
  have m: "msb sz = of_nat k" using k by (simp add: msb_eq)
  have s: "shl1 (of_nat k) = 2 ^ k" using k(2) by (simp add: shl1_of_nat)
  show thesis
  proof (cases "sz = 2 ^ k")
    case True
    with False k(1) have "6 < k" by (cases "k = 6") auto
    with True False k(2) show thesis
      using that [of "k - 6"] m s by (simp add: pool_index_def of_nat_diff)
  next
    case neq: False
    have "k < 16"
    proof (rule ccontr)
      assume "\<not> k < 16"
      with k(2) have "k = 16" by simp
      with k(3) neq assms(2) show False by simp
    qed
    moreover have "pool_index sz = of_nat (k - 5)"
      using False neq m s k(1) by (simp add: pool_index_def of_nat_diff)
    moreover have "sz \<le> 2 ^ (k - 5 + 6)" "2 ^ (k - 5 + 5) < sz"
      using k neq by (simp_all add: Suc_diff_le [symmetric])
    ultimately show thesis using that [of "k - 5"] by simp
  qed
qed

subsection \<open>The pools are well typed\<close>

text \<open>
  Every item of pool \<open>i\<close> is an array of the length the type assertion of \<open>Get\<close> expects, no
  array is pooled twice, and array identities are below the next fresh one.
\<close>

definition pool_ids :: "allocator \<Rightarrow> nat set" where
  "pool_ids al = fst ` set (concat (buffers al))"

definition heap_ok :: "allocator \<Rightarrow> bool" where
  "heap_ok al \<longleftrightarrow> length (buffers al) = 11
     \<and> (\<forall>i<11. \<forall>x\<in>set (buffers al ! i). length (snd x) = 2 ^ (i + 6))"

definition alloc_wf :: "allocator \<Rightarrow> bool" where
  "alloc_wf al \<longleftrightarrow> length (buffers al) = 11
     \<and> (\<forall>i<11. \<forall>x\<in>set (buffers al ! i). length (snd x) = 2 ^ (i + 6))
     \<and> (\<forall>a\<in>pool_ids al. a < next_array al)
     \<and> distinct (map fst (concat (buffers al)))"

lemma alloc_wf_heap: "alloc_wf al \<Longrightarrow> heap_ok al"
  by (simp add: alloc_wf_def heap_ok_def)

lemma alloc_wf_new: "alloc_wf newDefaultAllocator"
proof -
  have "concat (replicate 11 []) = []" by (simp add: numeral_eq_Suc)
  moreover have "\<forall>i<11. replicate 11 [] ! i = []" by simp
  ultimately show ?thesis
    by (simp add: alloc_wf_def newDefaultAllocator_def pool_ids_def)
qed

lemma concat_update:
  assumes "i < length xss"
  shows "concat (xss[i := ys]) = concat (take i xss) @ ys @ concat (drop (Suc i) xss)"
    and "concat xss = concat (take i xss) @ xss ! i @ concat (drop (Suc i) xss)"
proof -
  show "concat (xss[i := ys]) = concat (take i xss) @ ys @ concat (drop (Suc i) xss)"
    using assms by (simp add: upd_conv_take_nth_drop)
  have "xss = take i xss @ xss ! i # drop (Suc i) xss" using assms by (rule id_take_nth_drop)
  then show "concat xss = concat (take i xss) @ xss ! i @ concat (drop (Suc i) xss)"
    by (metis concat.simps(2) concat_append)
qed

lemma pool_ids_update:
  assumes "i < length xss"
  shows "fst ` set (concat (xss[i := ys]))
    = fst ` set (concat (take i xss)) \<union> fst ` set ys \<union> fst ` set (concat (drop (Suc i) xss))"
  by (simp only: concat_update [OF assms] set_append image_Un Un_assoc)

text \<open>What taking an array out of a pool does: the array has the pool's length, it is no longer
  pooled, and it was pooled before or is fresh.\<close>

lemma pool_Get_facts:
  assumes wf: "alloc_wf al" and i: "i < 11" and get: "pool_Get c i al = ((a, cs), al')"
  shows "length cs = 2 ^ (i + 6)" and "alloc_wf al'" and "pool_ids al' = pool_ids al - {a}"
    and "a < next_array al'" and "next_array al \<le> next_array al'"
    and "a \<in> pool_ids al \<or> a = next_array al"
proof -
  let ?xs = "buffers al ! i"
  have len: "i < length (buffers al)" using wf i by (simp add: alloc_wf_def)
  note split = concat_update(2) [OF len]
  have "length cs = 2 ^ (i + 6) \<and> alloc_wf al' \<and> pool_ids al' = pool_ids al - {a}
    \<and> a < next_array al' \<and> next_array al \<le> next_array al' \<and> (a \<in> pool_ids al \<or> a = next_array al)"
  proof (cases "c < length ?xs")
    case True
    let ?ys = "take c ?xs @ drop (Suc c) ?xs"
    from get True have al': "al' = al\<lparr>buffers := (buffers al)[i := ?ys]\<rparr>" and x: "?xs ! c = (a, cs)"
      by (simp_all add: pool_Get_def Let_def)
    have xs: "?xs = take c ?xs @ (a, cs) # drop (Suc c) ?xs"
      using id_take_nth_drop [OF True] x by simp
    define A B T D where "A = concat (take i (buffers al))" and "B = concat (drop (Suc i) (buffers al))"
      and "T = take c ?xs" and "D = drop (Suc c) ?xs"
    have all: "concat (buffers al) = A @ (T @ (a, cs) # D) @ B"
      unfolding A_def B_def T_def D_def xs [symmetric] by (rule split)
    have all': "concat (buffers al') = A @ (T @ D) @ B"
      by (simp add: al' concat_update(1) [OF len] A_def B_def T_def D_def)
    have dist: "distinct (map fst (A @ (T @ (a, cs) # D) @ B))"
      using wf by (simp add: alloc_wf_def all)
    then have ids: "pool_ids al' = pool_ids al - {a}" and dist': "distinct (map fst (concat (buffers al')))"
      by (auto simp: pool_ids_def all all')
    have mem: "(a, cs) \<in> set ?xs" by (subst xs) simp
    have "\<forall>x\<in>set ?ys. length (snd x) = 2 ^ (i + 6)"
      using wf i by (auto simp: alloc_wf_def dest!: in_set_takeD in_set_dropD)
    then have "\<forall>j<11. \<forall>x\<in>set (buffers al' ! j). length (snd x) = 2 ^ (j + 6)"
      using wf i by (auto simp: alloc_wf_def al' nth_list_update split: if_splits)
    with wf ids dist' have "alloc_wf al'"
      by (simp add: alloc_wf_def al')
    moreover have "a \<in> pool_ids al"
      by (simp add: pool_ids_def all)
    moreover have "length cs = 2 ^ (i + 6)"
      using wf i mem unfolding alloc_wf_def by (metis snd_conv)
    ultimately show ?thesis
      using ids wf by (simp add: alloc_wf_def al')
  next
    case False
    with get i have eqs: "a = next_array al" "cs = replicate (2 ^ (i + 6)) 0"
        "al' = al\<lparr>next_array := Suc (next_array al)\<rparr>"
      by (auto simp: pool_Get_def Let_def)
    then have same: "pool_ids al' = pool_ids al" by (simp add: pool_ids_def)
    have bound: "\<forall>b\<in>pool_ids al. b < next_array al" using wf by (simp add: alloc_wf_def)
    have "alloc_wf al'"
      using wf bound unfolding alloc_wf_def same by (simp add: eqs less_SucI)
    with same bound show ?thesis by (auto simp: eqs)
  qed
  then show "length cs = 2 ^ (i + 6)" and "alloc_wf al'" and "pool_ids al' = pool_ids al - {a}"
    and "a < next_array al'" and "next_array al \<le> next_array al'"
    and "a \<in> pool_ids al \<or> a = next_array al" by simp_all
qed

lemma pool_Put_facts:
  assumes wf: "alloc_wf al" and i: "i < 11" and len: "length cs = 2 ^ (i + 6)"
    and fresh: "a \<notin> pool_ids al" and bound: "a < next_array al"
  shows "alloc_wf (pool_Put (a, cs) i al)"
    and "pool_ids (pool_Put (a, cs) i al) = insert a (pool_ids al)"
    and "next_array (pool_Put (a, cs) i al) = next_array al"
proof -
  have il: "i < length (buffers al)" using wf i by (simp add: alloc_wf_def)
  note split = concat_update(2) [OF il]
  show ids: "pool_ids (pool_Put (a, cs) i al) = insert a (pool_ids al)"
    unfolding pool_ids_def split by (auto simp: pool_Put_def concat_update(1) [OF il])
  have "distinct (map fst (concat (take i (buffers al)) @ buffers al ! i @ concat (drop (Suc i) (buffers al))))"
    using wf unfolding alloc_wf_def split [symmetric] by simp
  moreover have "a \<notin> fst ` set (concat (take i (buffers al)) @ buffers al ! i @ concat (drop (Suc i) (buffers al)))"
    using fresh unfolding pool_ids_def split [symmetric] by simp
  ultimately have "distinct (map fst (concat (buffers (pool_Put (a, cs) i al))))"
    by (auto simp: pool_Put_def concat_update(1) [OF il])
  with ids wf i len bound show "alloc_wf (pool_Put (a, cs) i al)"
    by (auto simp: alloc_wf_def pool_Put_def nth_list_update)
  show "next_array (pool_Put (a, cs) i al) = next_array al" by (simp add: pool_Put_def)
qed

subsection \<open>What Get and Put do\<close>

text \<open>The specification of the size class: the smallest array the pools make that holds the
  request.\<close>

definition class_for :: "nat \<Rightarrow> nat" where
  "class_for n = (LEAST c. c \<in> set class_sizes \<and> n \<le> c)"

lemma set_class_sizes: "set class_sizes = (\<lambda>i. 2 ^ (i + 6)) ` {..<11}"
proof -
  have "set class_sizes = (!) class_sizes ` {..<11}"
    by (auto simp: set_conv_nth simp del: class_sizes_nth)
  then show ?thesis by simp
qed

lemma class_for_eq:
  assumes i: "i < 11" and hi: "n \<le> 2 ^ (i + 6)" and lo: "i = 0 \<or> 2 ^ (i + 5) < n"
  shows "class_for n = 2 ^ (i + 6)"
  unfolding class_for_def
proof (rule Least_equality)
  show "2 ^ (i + 6) \<in> set class_sizes \<and> n \<le> 2 ^ (i + 6)"
    using i hi by (auto simp: set_class_sizes)
next
  fix c assume "c \<in> set class_sizes \<and> n \<le> c"
  then obtain j where j: "j < 11" "c = 2 ^ (j + 6)" "n \<le> 2 ^ (j + 6)"
    by (auto simp: set_class_sizes)
  have "i \<le> j"
  proof (rule ccontr)
    assume "\<not> i \<le> j"
    then have "(2::nat) ^ (j + 6) \<le> 2 ^ (i + 5)" by (intro power_increasing) auto
    with \<open>\<not> i \<le> j\<close> lo j(3) show False by auto
  qed
  then show "2 ^ (i + 6) \<le> c" unfolding j(2) by (intro power_increasing) auto
qed

lemma alloc_Get_facts:
  assumes wf: "alloc_wf al" and sz: "0 < sz" "sz \<le> 65536"
  obtains a cs al' where "alloc_Get c sz al = Inr (Slice a cs (nat sz), al')"
    and "length cs = class_for (nat sz)" and "nat sz \<le> length cs" and "length cs \<in> set class_sizes"
    and "alloc_wf al'" and "pool_ids al' = pool_ids al - {a}" and "a < next_array al'"
    and "next_array al \<le> next_array al'" and "a \<in> pool_ids al \<or> a = next_array al"
proof -
  from sz obtain i where i: "i < 11" "pool_index sz = of_nat i" "sz \<le> 2 ^ (i + 6)"
    "i = 0 \<or> 2 ^ (i + 5) < sz" by (rule pool_index_cases)
  obtain a cs al' where get: "pool_Get c i al = ((a, cs), al')" by (metis surj_pair)
  note f = pool_Get_facts [OF wf i(1) get]
  have "length (buffers al) = 11" using wf by (simp add: alloc_wf_def)
  with sz i f(1) get have "alloc_Get c sz al = Inr (Slice a cs (nat sz), al')"
    by (simp add: alloc_Get_def switch_class_of_nat)
  moreover have n: "nat sz \<le> 2 ^ (i + 6)" using i(3) by (simp add: nat_le_iff)
  moreover have "class_for (nat sz) = 2 ^ (i + 6)"
  proof (rule class_for_eq [OF i(1) n])
    show "i = 0 \<or> 2 ^ (i + 5) < nat sz" using i(4) by (simp add: zless_nat_eq_int_zless)
  qed
  moreover have "2 ^ (i + 6) \<in> set class_sizes" using i(1) by (auto simp: set_class_sizes)
  ultimately show thesis using f that by simp
qed

text \<open>The same from the weaker fact that the pools hold arrays of their own size.\<close>

lemma pool_Get_heap:
  assumes heap: "heap_ok al" and i: "i < 11" and get: "pool_Get c i al = ((a, cs), al')"
  shows "length cs = 2 ^ (i + 6)" and "heap_ok al'"
proof -
  let ?xs = "buffers al ! i"
  have sizes: "\<forall>x\<in>set ?xs. length (snd x) = 2 ^ (i + 6)" using heap i by (simp add: heap_ok_def)
  have "length cs = 2 ^ (i + 6) \<and> heap_ok al'"
  proof (cases "c < length ?xs")
    case True
    then have "(a, cs) \<in> set ?xs" and al': "al' = al\<lparr>buffers := (buffers al)[i := take c ?xs @ drop (Suc c) ?xs]\<rparr>"
      using get nth_mem [OF True] by (auto simp: pool_Get_def Let_def)
    moreover have "\<forall>x\<in>set (take c ?xs @ drop (Suc c) ?xs). length (snd x) = 2 ^ (i + 6)"
      using sizes by (auto dest!: in_set_takeD in_set_dropD)
    ultimately show ?thesis using heap i sizes by (force simp: heap_ok_def al' nth_list_update)
  next
    case False
    with get i have "cs = replicate (2 ^ (i + 6)) 0" "buffers al' = buffers al"
      by (auto simp: pool_Get_def Let_def)
    with heap show ?thesis by (simp add: heap_ok_def)
  qed
  then show "length cs = 2 ^ (i + 6)" and "heap_ok al'" by simp_all
qed

lemma pool_Put_heap:
  assumes "heap_ok al" and "i < 11" and "length cs = 2 ^ (i + 6)"
  shows "heap_ok (pool_Put (a, cs) i al)"
  using assms by (auto simp: heap_ok_def pool_Put_def nth_list_update)

lemma alloc_Get_heap:
  assumes heap: "heap_ok al" and sz: "0 < sz" "sz \<le> 65536"
  shows "\<exists>a cs al'. alloc_Get c sz al = Inr (Slice a cs (nat sz), al') \<and> nat sz \<le> length cs
    \<and> length cs \<in> set class_sizes \<and> heap_ok al'"
proof -
  from sz obtain i where i: "i < 11" "pool_index sz = of_nat i" "sz \<le> 2 ^ (i + 6)"
    by (rule pool_index_cases)
  obtain a cs al' where get: "pool_Get c i al = ((a, cs), al')" by (metis surj_pair)
  note f = pool_Get_heap [OF heap i(1) get]
  have "length (buffers al) = 11" using heap by (simp add: heap_ok_def)
  with sz i f(1) get have "alloc_Get c sz al = Inr (Slice a cs (nat sz), al')"
    by (simp add: alloc_Get_def switch_class_of_nat)
  moreover have "nat sz \<le> 2 ^ (i + 6)" using i(3) by (simp add: nat_le_iff)
  ultimately show ?thesis using f i(1) by (auto simp: set_class_sizes)
qed

lemma alloc_Get_refused: "sz \<le> 0 \<or> 65536 < sz \<Longrightarrow> alloc_Get c sz al = Inr (NilSlice, al)"
  by (auto simp: alloc_Get_def)

lemma cap_interval:
  assumes "1 \<le> (c::nat)" and "c \<le> 65536"
  obtains k where "k \<le> 16" and "2 ^ k \<le> c" and "c < 2 ^ Suc k"
proof -
  from ex_power_ivl1 [of 2 c] obtain k where k: "2 ^ k \<le> c" "c < 2 ^ (k + 1)"
    using assms by auto
  have "c < 2 ^ 17" using assms(2) by simp
  then have "(2::nat) ^ k < 2 ^ 17" using k(1) by linarith
  then have "k < 17" by (rule power_less_imp_less_exp [rotated]) simp
  with k show thesis using that [of k] by simp
qed

lemma msb_cap:
  assumes "2 ^ k \<le> c" and "c < 2 ^ Suc k" and "k \<le> 16"
  shows "msb (int c) = of_nat k" and "int c \<noteq> shl1 (msb (int c)) \<longleftrightarrow> c \<noteq> 2 ^ k"
proof -
  show m: "msb (int c) = of_nat k" using assms by (intro msb_eq) (simp_all del: power_Suc)
  have "int c = 2 ^ k \<longleftrightarrow> c = 2 ^ k" by (metis of_nat_eq_iff of_nat_numeral of_nat_power)
  then show "int c \<noteq> shl1 (msb (int c)) \<longleftrightarrow> c \<noteq> 2 ^ k" using assms(3) by (simp add: m shl1_of_nat)
qed

lemma alloc_Put_class:
  assumes heap: "heap_ok al" and i: "i < 11" and len: "length cs = 2 ^ (i + 6)"
  shows "alloc_Put (Slice a cs n) al = Inr (None, pool_Put (a, cs) i al)"
proof -
  have cap: "slice_cap (Slice a cs n) = 2 ^ (i + 6)" by (simp add: slice_cap_def len)
  have pow: "(2::int) ^ (i + 6) \<le> 2 ^ 16" using i by (intro power_increasing) auto
  have m: "msb (2 ^ (i + 6)) = of_nat (i + 6)" using i by (intro msb_eq) (simp_all del: power_Suc)
  have s: "shl1 (of_nat (i + 6)) = 2 ^ (i + 6)" using i by (intro shl1_of_nat) simp
  have d: "(of_nat (i + 6) :: 16 word) - 6 = of_nat i" by simp
  have b: "length (buffers al) = 11" using heap by (simp add: heap_ok_def)
  show ?thesis
    using i pow len b unfolding alloc_Put_def cap m s Let_def d
    by (simp add: switch_class_of_nat)
qed

text \<open>
  Below the smallest class the subtraction \<open>bits -= 6\<close> wraps around in \<open>uint16\<close>, no arm of the
  \<open>switch\<close> matches, and \<open>Put\<close> panics instead of returning its error.
\<close>

lemma alloc_Put_small:
  assumes k: "k < 6" and len: "length cs = 2 ^ k"
  shows "alloc_Put (Slice a cs n) al = Inl (PanicMsg ''invalid pool index'')"
proof -
  have cap: "slice_cap (Slice a cs n) = 2 ^ k" by (simp add: slice_cap_def len)
  have m: "msb (2 ^ k) = of_nat k" using k by (intro msb_eq) (simp_all del: power_Suc)
  have s: "shl1 (of_nat k) = 2 ^ k" using k by (intro shl1_of_nat) simp
  have pow: "(2::int) ^ k \<le> 2 ^ 6" using k by (intro power_increasing) auto
  have "switch_class (of_nat k - 6) = None"
  proof -
    have "k = 0 \<or> k = 1 \<or> k = 2 \<or> k = 3 \<or> k = 4 \<or> k = 5" using k by arith
    then show ?thesis
      by (elim disjE) (simp_all add: switch_class_def unsigned_minus_1_eq_mask mask_eq_exp_minus_1)
  qed
  with pow show ?thesis unfolding alloc_Put_def cap m s Let_def by simp
qed

lemma alloc_Put_refused:
  assumes "\<And>k. k \<le> 16 \<Longrightarrow> length cs \<noteq> 2 ^ k"
  shows "alloc_Put (Slice a cs n) al = Inr (Some ErrPut, al)"
proof (cases "1 \<le> length cs \<and> length cs \<le> 65536")
  case True
  then obtain k where k: "k \<le> 16" "2 ^ k \<le> length cs" "length cs < 2 ^ Suc k"
    using cap_interval [of "length cs"] by blast
  then show ?thesis
    using msb_cap(2) [of k "length cs"] assms [OF k(1)]
    by (simp add: alloc_Put_def slice_cap_def)
next
  case False
  then have "int (length cs) = 0 \<or> 65536 < int (length cs)" by linarith
  then show ?thesis by (auto simp: alloc_Put_def slice_cap_def Let_def)
qed

subsection \<open>Properties\<close>

text \<open>
  C1: \<open>Get\<close> on a request of 1 to 65536 bytes never panics, whatever item the pool hands out: it
  returns a slice of exactly the requested length over an array of the smallest class that
  holds it, an array no pool keeps any more, and it leaves the pools well typed.
\<close>

theorem alloc_Get_correct:
  assumes "alloc_wf al" and "0 < sz" and "sz \<le> 65536"
  shows "\<exists>a cs al'. alloc_Get choice sz al = Inr (Slice a cs (nat sz), al')
    \<and> length cs = class_for (nat sz) \<and> nat sz \<le> length cs
    \<and> alloc_wf al' \<and> a \<notin> pool_ids al'"
  using assms by (rule alloc_Get_facts [where c = choice]) auto

theorem alloc_Get_correct_witness:
  "\<exists>a cs al'. alloc_Get 0 100 newDefaultAllocator = Inr (Slice a cs 100, al') \<and> length cs = 128"
proof -
  have c: "class_for 100 = 128" using class_for_eq [of 1 100] by simp
  show ?thesis
    using alloc_Get_correct [OF alloc_wf_new, of 100 0] by (auto simp: c)
qed

text \<open>
  The comment on the constructor ("the waste of space is no more than 50%") is true of requests
  above 64 bytes: less than half of the array is unused.
\<close>

theorem alloc_Get_waste:
  assumes "alloc_wf al" and "64 < sz" and "sz \<le> 65536"
    and "alloc_Get choice sz al = Inr (Slice a cs n, al')"
  shows "2 * (length cs - n) < length cs"
proof -
  from assms(2,3) have "0 < sz" "sz \<le> 65536" by simp_all
  then obtain i where i: "i < 11" "pool_index sz = of_nat i" "sz \<le> 2 ^ (i + 6)"
    "i = 0 \<or> 2 ^ (i + 5) < sz" by (rule pool_index_cases)
  with assms(2) have lo: "2 ^ (i + 5) < sz" by (cases "i = 0") auto
  have "nat sz \<le> 2 ^ (i + 6)" and lo': "2 ^ (i + 5) < nat sz"
    using i(3) lo by (simp_all add: nat_le_iff zless_nat_eq_int_zless)
  then have "class_for (nat sz) = 2 ^ (i + 6)" by (intro class_for_eq i(1)) auto
  moreover obtain b ds bl where "alloc_Get choice sz al = Inr (Slice b ds (nat sz), bl)"
    and "length ds = class_for (nat sz)"
    using assms(1) \<open>0 < sz\<close> \<open>sz \<le> 65536\<close> by (rule alloc_Get_facts)
  ultimately have "length cs = 2 ^ (i + 6)" and "n = nat sz" using assms(4) by simp_all
  moreover from this lo' have "length cs < 2 * n" by (simp add: power_add)
  moreover from this have "0 < length cs \<or> n \<noteq> 0" by auto
  ultimately show ?thesis by (cases "length cs") auto
qed

theorem alloc_Get_waste_witness:
  "\<exists>a cs al'. alloc_Get 0 65 newDefaultAllocator = Inr (Slice a cs 65, al')
     \<and> 2 * (length cs - 65) < length cs"
proof -
  obtain a cs al' where g: "alloc_Get 0 65 newDefaultAllocator = Inr (Slice a cs 65, al')"
    by (rule alloc_Get_facts [OF alloc_wf_new, of 65 0]) auto
  from alloc_Get_waste [OF alloc_wf_new _ _ g] g show ?thesis by auto
qed

text \<open>
  The three outcomes of \<open>Put\<close>. An array of one of the eleven classes goes to the pool of its
  class; an array shorter than 64 bytes whose length is a power of two makes the switch fall
  through to a panic (\<open>bits -= 6\<close> wraps around); every other capacity is refused with an error.
\<close>

theorem alloc_Put_outcomes:
  assumes "alloc_wf al"
  shows "alloc_Put (Slice a cs n) al =
    (if length cs \<in> set class_sizes then Inr (None, pool_Put (a, cs) (unat (msb (int (length cs))) - 6) al)
     else if length cs \<in> {1, 2, 4, 8, 16, 32} then Inl (PanicMsg ''invalid pool index'')
     else Inr (Some ErrPut, al))"
proof -
  consider (cls) i where "i < 11" "length cs = 2 ^ (i + 6)" | (small) k where "k < 6" "length cs = 2 ^ k"
    | (other) "\<And>k. k \<le> 16 \<Longrightarrow> length cs \<noteq> 2 ^ k"
  proof (cases "\<exists>k\<le>16. length cs = 2 ^ k")
    case True
    then obtain k where k: "k \<le> 16" "length cs = 2 ^ k" by blast
    show thesis
      using cls [of "k - 6"] small [of k] k by (cases "k < 6") auto
  next
    case False
    then show thesis using other by blast
  qed
  then show ?thesis
  proof cases
    case cls
    have "msb (int (2 ^ (i + 6))) = of_nat (i + 6)" using msb_cap [of "i + 6" "2 ^ (i + 6)"] cls(1) by simp
    then have "unat (msb (int (length cs))) - 6 = i"
      using cls(1) unat_small_index [of "i + 6"] by (simp add: cls(2) del: of_nat_add)
    moreover have "length cs \<in> set class_sizes" using cls by (auto simp: set_class_sizes)
    ultimately show ?thesis using alloc_Put_class [OF alloc_wf_heap [OF assms] cls] by simp
  next
    case small
    have "k = 0 \<or> k = 1 \<or> k = 2 \<or> k = 3 \<or> k = 4 \<or> k = 5" using small(1) by arith
    then have "length cs \<in> {1, 2, 4, 8, 16, 32}" and "length cs \<notin> set class_sizes"
      using small(2) by (auto simp: class_sizes_def)
    then show ?thesis using alloc_Put_small [OF small] by simp
  next
    case other
    have "length cs \<noteq> 2 ^ (i + 6)" if "i < 11" for i using other [of "i + 6"] that by simp
    then have "length cs \<notin> set class_sizes" by (auto simp: set_class_sizes)
    moreover have "length cs \<notin> {1, 2, 4, 8, 16, 32}"
      using other [of 0] other [of 1] other [of 2] other [of 3] other [of 4] other [of 5] by simp
    ultimately show ?thesis using alloc_Put_refused [OF other] by simp
  qed
qed

theorem alloc_Put_outcomes_witness:
  "alloc_Put (Slice 0 (replicate 32 0) 32) newDefaultAllocator = Inl (PanicMsg ''invalid pool index'')
   \<and> alloc_Put (Slice 0 (replicate 48 0) 48) newDefaultAllocator = Inr (Some ErrPut, newDefaultAllocator)"
  using alloc_Put_outcomes [OF alloc_wf_new, of 0 "replicate 32 0" 32]
    alloc_Put_outcomes [OF alloc_wf_new, of 0 "replicate 48 0" 48]
  by (simp add: class_sizes_def)

end
