(* ===== verification/Buffer.thy ===== *)
theory Buffer
  imports Alloc
begin

text \<open>
  \<^verbatim>\<open>buf/buffer.go\<close> and the constants of \<^verbatim>\<open>sys/sysvars/buf.go\<close>: the \<open>Buffer\<close> with its read and
  write positions. Positions and counts are Go \<open>int\<close>s; slicing and indexing check their bounds as
  the language does (slicing against the capacity, indexing against the length). Readers and
  writers the buffer is handed are parameters of the operations.
\<close>

subsection \<open>Slice expressions\<close>

definition slice_expr :: "slice \<Rightarrow> int \<Rightarrow> int \<Rightarrow> byte list go" where
  "slice_expr s lo hi =
     (if 0 \<le> lo \<and> lo \<le> hi \<and> hi \<le> slice_cap s
      then Inr (slice_of (slice_cells s) (nat lo) (nat hi))
      else Inl SliceBounds)"

definition slice_index :: "slice \<Rightarrow> int \<Rightarrow> byte go" where
  "slice_index s i =
     (if 0 \<le> i \<and> i < slice_len s then Inr (slice_cells s ! nat i) else Inl IndexOutOfRange)"

text \<open>Storing bytes from an index on (the index is in range where it is used).\<close>

fun slice_store :: "slice \<Rightarrow> int \<Rightarrow> byte list \<Rightarrow> slice" where
  "slice_store NilSlice lo bs = NilSlice"
| "slice_store (Slice a cs n) lo bs = Slice a (overwrite cs (nat lo) bs) n"

lemma slice_store_len [simp]: "slice_len (slice_store s lo bs) = slice_len s"
  by (cases s) auto

lemma slice_store_cap [simp]: "slice_cap (slice_store s lo bs) = slice_cap s"
  by (cases s) (auto simp: slice_cap_def)

lemma slice_store_cells [simp]: "slice_cells (slice_store s lo bs) = overwrite (slice_cells s) (nat lo) bs"
  by (cases s) (auto simp: overwrite_def)

subsection \<open>Readers and writers\<close>

text \<open>
  \<open>read rs k\<close> is a call of \<open>Read\<close> with a slice of length \<open>k\<close>: the bytes it stores at the front of
  the slice (it may store more than it reports), the count and the error it returns, and its next
  state. \<open>write ws p\<close> is a call of \<open>Write\<close>. Both may panic.
\<close>

type_synonym 'r read_fn = "'r \<Rightarrow> nat \<Rightarrow> (byte list \<times> int \<times> go_error option \<times> 'r) go"
type_synonym 'w write_fn = "'w \<Rightarrow> byte list \<Rightarrow> (int \<times> go_error option \<times> 'w) go"

subsection \<open>The buffer\<close>

definition BufferDefaultSize :: int where "BufferDefaultSize = 4096"
definition BufferDefaultHugeSize :: int where "BufferDefaultHugeSize = 8 * 4096"
definition BufferMaxManagedSize :: int where "BufferMaxManagedSize = 64 * 1024 - 1"

abbreviation ErrNegativeCount :: go_error where
  "ErrNegativeCount \<equiv> Sentinel ''buf.ErrNegativeCount'' ''buffer: negative count''"
abbreviation ErrOverflow :: go_error where
  "ErrOverflow \<equiv> Sentinel ''buf.ErrOverflow'' ''buffer: overflow''"
abbreviation ErrRef :: go_error where
  "ErrRef \<equiv> Sentinel ''buf.ErrRef'' ''buffer: refs not clean''"

record Buffer =
  data :: slice
  bsize :: int
  managed :: bool
  rpos :: int
  wpos :: int
  ref :: int

definition zero_Buffer :: Buffer where
  "zero_Buffer = \<lparr>data = NilSlice, bsize = 0, managed = False, rpos = 0, wpos = 0, ref = 0\<rparr>"

definition NewSize :: "nat \<Rightarrow> int \<Rightarrow> allocator \<Rightarrow> (Buffer \<times> allocator) go" where
  "NewSize choice sz al =
     (if sz < 0 then Inl (PanicMsg ''negative buffer size'')
      else if sz = 0 then Inr (zero_Buffer, al)
      else if sz > BufferMaxManagedSize
        then Inr (zero_Buffer\<lparr>data := Slice (next_array al) (replicate (nat sz) 0) (nat sz), bsize := sz\<rparr>,
                  al\<lparr>next_array := Suc (next_array al)\<rparr>)
      else case get choice sz al of
             Inl p \<Rightarrow> Inl p
           | Inr (d, al') \<Rightarrow> Inr (zero_Buffer\<lparr>data := d, bsize := sz, managed := True\<rparr>, al'))"

definition New :: "nat \<Rightarrow> allocator \<Rightarrow> (Buffer \<times> allocator) go" where
  "New choice al = NewSize choice BufferDefaultSize al"

definition NewMinimal :: "nat \<Rightarrow> allocator \<Rightarrow> (Buffer \<times> allocator) go" where
  "NewMinimal choice al = NewSize choice 64 al"

definition NewHuge :: "nat \<Rightarrow> allocator \<Rightarrow> (Buffer \<times> allocator) go" where
  "NewHuge choice al = NewSize choice BufferDefaultHugeSize al"

definition As :: "slice \<Rightarrow> Buffer" where
  "As bs = zero_Buffer\<lparr>data := bs, bsize := slice_len bs, rpos := 0, wpos := slice_len bs\<rparr>"

subsection \<open>Positions, references, lifetime\<close>

definition Resize :: "Buffer \<Rightarrow> int \<Rightarrow> go_error option \<times> Buffer" where
  "Resize b n = (if n > slice_len (data b) then (Some ErrOverflow, b) else (None, b\<lparr>bsize := n\<rparr>))"

definition Reset :: "Buffer \<Rightarrow> Buffer" where
  "Reset b = b\<lparr>rpos := 0, wpos := 0\<rparr>"

definition IncRef :: "Buffer \<Rightarrow> Buffer" where
  "IncRef b = b\<lparr>ref := wrap64 (ref b + 1)\<rparr>"

definition DecRef :: "Buffer \<Rightarrow> Buffer" where
  "DecRef b = b\<lparr>ref := wrap64 (ref b - 1)\<rparr>"

text \<open>\<open>Free\<close> on a non-nil receiver; on a nil one it returns at once.\<close>

definition Free_Buffer :: "Buffer \<Rightarrow> allocator \<Rightarrow> (Buffer \<times> allocator) go" where
  "Free_Buffer b al =
     (if data b = NilSlice \<or> ref b > 0 then Inr (b, al)
      else if managed b
        then case put (data b) al of
               Inl p \<Rightarrow> Inl p
             | Inr al' \<Rightarrow> Inr (b\<lparr>data := NilSlice\<rparr>, al')
      else Inr (b\<lparr>data := NilSlice\<rparr>, al))"

definition Free :: "Buffer option \<Rightarrow> allocator \<Rightarrow> (Buffer option \<times> allocator) go" where
  "Free ob al =
     (case ob of
        None \<Rightarrow> Inr (None, al)
      | Some b \<Rightarrow> (case Free_Buffer b al of Inl p \<Rightarrow> Inl p | Inr (b', al') \<Rightarrow> Inr (Some b', al')))"

definition Close_Buffer :: "Buffer \<Rightarrow> allocator \<Rightarrow> (go_error option \<times> Buffer \<times> allocator) go" where
  "Close_Buffer b al =
     (if ref b > 0 then Inr (Some ErrRef, b, al)
      else case Free_Buffer b al of Inl p \<Rightarrow> Inl p | Inr (b', al') \<Rightarrow> Inr (None, b', al'))"

definition Truncated :: "Buffer \<Rightarrow> int \<Rightarrow> Buffer go" where
  "Truncated b n =
     (if n < 0 then Inl (PanicMsg ''negative count'') else Inr (b\<lparr>wpos := wrap64 (rpos b + n)\<rparr>))"

definition Bytes :: "Buffer \<Rightarrow> byte list go" where
  "Bytes b = slice_expr (data b) (rpos b) (wpos b)"

definition FreeBytes :: "Buffer \<Rightarrow> byte list go" where
  "FreeBytes b = slice_expr (data b) (wpos b) (bsize b)"

definition CopyBytes :: "Buffer \<Rightarrow> byte list go" where
  "CopyBytes b = Bytes b"

definition Len :: "Buffer \<Rightarrow> int" where
  "Len b = wrap64 (wpos b - rpos b)"

definition Full :: "Buffer \<Rightarrow> bool" where
  "Full b \<longleftrightarrow> wpos b = bsize b"

definition Empty :: "Buffer \<Rightarrow> bool" where
  "Empty b \<longleftrightarrow> rpos b = wpos b"

definition Size :: "Buffer \<Rightarrow> int" where
  "Size b = bsize b"

definition Cap :: "Buffer \<Rightarrow> int" where
  "Cap b = slice_len (data b)"

subsection \<open>Taking bytes out\<close>

definition Read :: "Buffer read_fn" where
  "Read b k =
     (if Empty b then Inr ([], 0, Some io_EOF, b)
      else case Bytes b of
             Inl p \<Rightarrow> Inl p
           | Inr src \<Rightarrow>
               (let n = min k (length src)
                in Inr (take n src, int n, None, b\<lparr>rpos := wrap64 (rpos b + int n)\<rparr>)))"

definition ReadByte :: "Buffer \<Rightarrow> (byte \<times> go_error option \<times> Buffer) go" where
  "ReadByte b =
     (if Empty b then Inr (0, Some io_EOF, b)
      else let b' = b\<lparr>rpos := wrap64 (rpos b + 1)\<rparr>
        in case slice_index (data b') (wrap64 (rpos b' - 1)) of
             Inl p \<Rightarrow> Inl p
           | Inr c \<Rightarrow> Inr (c, None, b'))"

definition Discard :: "Buffer \<Rightarrow> int \<Rightarrow> int \<times> go_error option \<times> Buffer" where
  "Discard b n =
     (if n < 0 then (0, Some ErrNegativeCount, b)
      else if Empty b then (0, Some io_EOF, b)
      else let e = wrap64 (rpos b + n);
               e = (if e > wpos b then wpos b else e);
               discarded = wrap64 (e - rpos b)
        in (discarded, None, b\<lparr>rpos := e\<rparr>))"

definition Peek :: "Buffer \<Rightarrow> int \<Rightarrow> (byte list \<times> go_error option) go" where
  "Peek b n =
     (if n < 0 then Inr ([], Some ErrNegativeCount)
      else if Empty b then Inr ([], Some io_EOF)
      else if wrap64 (rpos b + n) > wpos b then Inr ([], Some ErrOverflow)
      else case slice_expr (data b) (rpos b) (wrap64 (rpos b + n)) of
             Inl p \<Rightarrow> Inl p
           | Inr bs \<Rightarrow> Inr (bs, None))"

subsection \<open>Putting bytes in\<close>

definition WriteString_Buffer :: "Buffer write_fn" where
  "WriteString_Buffer b s =
     (if length s = 0 then Inr (0, None, b)
      else let e = wrap64 (wpos b + int (length s))
        in if e > bsize b then Inr (0, Some io_ErrShortBuffer, b)
           else case slice_expr (data b) (wpos b) e of
                  Inl p \<Rightarrow> Inl p
                | Inr dst \<Rightarrow>
                    (let n = min (length dst) (length s)
                     in Inr (int n, None,
                             b\<lparr>data := slice_store (data b) (wpos b) (take n s),
                               wpos := wrap64 (wpos b + int n)\<rparr>)))"

definition WriteByte_Buffer :: "Buffer \<Rightarrow> byte \<Rightarrow> (go_error option \<times> Buffer) go" where
  "WriteByte_Buffer b by =
     (if Full b then Inr (Some io_ErrShortBuffer, b)
      else case slice_index (data b) (wpos b) of
             Inl p \<Rightarrow> Inl p
           | Inr _ \<Rightarrow>
               Inr (None, b\<lparr>data := slice_store (data b) (wpos b) [by],
                            wpos := wrap64 (wpos b + 1)\<rparr>))"

definition Write_Buffer :: "Buffer write_fn" where
  "Write_Buffer b bs =
     (if Full b then Inr (0, Some io_ErrShortBuffer, b)
      else if length bs = 0 then Inr (0, None, b)
      else case FreeBytes b of
             Inl p \<Rightarrow> Inl p
           | Inr dst \<Rightarrow>
               (let n = min (length dst) (length bs)
                in Inr (int n, None,
                        b\<lparr>data := slice_store (data b) (wpos b) (take n bs),
                          wpos := wrap64 (wpos b + int n)\<rparr>)))"

subsection \<open>Well-formed buffers and their contents\<close>

definition buf_wf :: "Buffer \<Rightarrow> bool" where
  "buf_wf b \<longleftrightarrow> 0 \<le> rpos b \<and> rpos b \<le> wpos b \<and> wpos b \<le> bsize b
     \<and> bsize b \<le> slice_len (data b) \<and> slice_len (data b) \<le> slice_cap (data b) \<and> bsize b \<le> max_int"

definition contents :: "Buffer \<Rightarrow> byte list" where
  "contents b = slice_of (slice_cells (data b)) (nat (rpos b)) (nat (wpos b))"

definition room :: "Buffer \<Rightarrow> nat" where
  "room b = nat (bsize b - wpos b)"

lemma buf_wfD:
  assumes "buf_wf b"
  shows "0 \<le> rpos b" and "rpos b \<le> wpos b" and "wpos b \<le> bsize b" and "bsize b \<le> slice_len (data b)"
    and "slice_len (data b) \<le> slice_cap (data b)" and "bsize b \<le> max_int"
    and "bsize b \<le> slice_cap (data b)" and "wpos b \<le> max_int" and "0 \<le> wpos b"
    and "nat (wpos b) \<le> length (slice_cells (data b))" and "nat (bsize b) \<le> length (slice_cells (data b))"
  using assms by (auto simp: buf_wf_def slice_cap_def)

lemma length_contents: "buf_wf b \<Longrightarrow> int (length (contents b)) = wpos b - rpos b"
  using buf_wfD [of b] by (simp add: contents_def length_slice_of)

lemma contents_Nil_iff: "buf_wf b \<Longrightarrow> contents b = [] \<longleftrightarrow> Empty b"
  using length_contents [of b] by (auto simp: Empty_def)

lemma Bytes_eq: "buf_wf b \<Longrightarrow> Bytes b = Inr (contents b)"
  using buf_wfD [of b] by (simp add: Bytes_def slice_expr_def contents_def)

lemma FreeBytes_eq:
  "buf_wf b \<Longrightarrow> \<exists>dst. FreeBytes b = Inr dst \<and> length dst = room b"
  using buf_wfD [of b] by (simp add: FreeBytes_def slice_expr_def length_slice_of room_def)

lemma Full_iff_room: "buf_wf b \<Longrightarrow> Full b \<longleftrightarrow> room b = 0"
  using buf_wfD [of b] by (auto simp: Full_def room_def)

lemma room_int: "buf_wf b \<Longrightarrow> int (room b) = bsize b - wpos b"
  using buf_wfD [of b] by (simp add: room_def)

text \<open>
  Every operation that adds bytes stores some \<open>bs\<close> at the write position and advances it by
  \<open>n\<close>; every operation that takes bytes out advances the read position.
\<close>

abbreviation stored :: "Buffer \<Rightarrow> byte list \<Rightarrow> int \<Rightarrow> Buffer" where
  "stored b bs n \<equiv> b\<lparr>data := slice_store (data b) (wpos b) bs, wpos := wrap64 (wpos b + n)\<rparr>"

abbreviation consumed :: "Buffer \<Rightarrow> int \<Rightarrow> Buffer" where
  "consumed b n \<equiv> b\<lparr>rpos := wrap64 (rpos b + n)\<rparr>"

lemma stored_facts:
  assumes wf: "buf_wf b" and n: "0 \<le> n" "n \<le> int (room b)" "n \<le> int (length bs)" "length bs \<le> room b"
  shows "buf_wf (stored b bs n)" and "contents (stored b bs n) = contents b @ take (nat n) bs"
    and "wpos (stored b bs n) = wpos b + n" and "room (stored b bs n) = room b - nat n"
proof -
  note d = buf_wfD [OF wf]
  have r: "int (room b) = bsize b - wpos b" using wf by (rule room_int)
  have w: "wrap64 (wpos b + n) = wpos b + n" using d n r by (intro wrap64_nonneg) auto
  show "wpos (stored b bs n) = wpos b + n" by (simp add: w)
  show "buf_wf (stored b bs n)" using d n r by (simp add: buf_wf_def w)
  show "room (stored b bs n) = room b - nat n" using n r by (simp add: room_def w nat_diff_distrib)
  have "nat (wpos b + n) = nat (wpos b) + nat n" using d n by (simp add: nat_add_distrib)
  moreover have "nat (wpos b) + length bs \<le> length (slice_cells (data b))"
    using d n(4) r by linarith
  ultimately show "contents (stored b bs n) = contents b @ take (nat n) bs"
    using d n by (simp add: contents_def w slice_of_overwrite_extend nat_le_iff)
qed

lemma consumed_facts:
  assumes wf: "buf_wf b" and n: "0 \<le> n" "n \<le> int (length (contents b))"
  shows "buf_wf (consumed b n)" and "contents (consumed b n) = drop (nat n) (contents b)"
    and "rpos (consumed b n) = rpos b + n"
proof -
  note d = buf_wfD [OF wf]
  have l: "int (length (contents b)) = wpos b - rpos b" using wf by (rule length_contents)
  have r: "wrap64 (rpos b + n) = rpos b + n" using d n l by (intro wrap64_nonneg) auto
  show "rpos (consumed b n) = rpos b + n" by (simp add: r)
  show "buf_wf (consumed b n)" using d n l by (simp add: buf_wf_def r)
  show "contents (consumed b n) = drop (nat n) (contents b)"
    using d n by (simp add: contents_def r drop_slice_of nat_add_distrib)
qed

lemma Reset_facts:
  assumes "buf_wf b"
  shows "buf_wf (Reset b)" and "contents (Reset b) = []" and "room (Reset b) = nat (bsize b)"
  using buf_wfD [OF assms] by (simp_all add: buf_wf_def Reset_def contents_def room_def)

subsection \<open>Each operation on a well-formed buffer\<close>

lemma Read_eq:
  assumes wf: "buf_wf b"
  shows "Read b k = (if contents b = [] then Inr ([], 0, Some io_EOF, b)
    else let n = min k (length (contents b))
         in Inr (take n (contents b), int n, None, consumed b (int n)))"
  by (simp add: Read_def Bytes_eq [OF wf] contents_Nil_iff [OF wf])

lemma ReadByte_eq:
  assumes wf: "buf_wf b"
  shows "ReadByte b = (case contents b of
      [] \<Rightarrow> Inr (0, Some io_EOF, b)
    | c # _ \<Rightarrow> Inr (c, None, consumed b 1))"
proof (cases "Empty b")
  case True
  then show ?thesis using contents_Nil_iff [OF wf] by (simp add: ReadByte_def)
next
  case False
  note d = buf_wfD [OF wf]
  have lt: "rpos b < wpos b" using False d by (simp add: Empty_def)
  then have "contents b = slice_cells (data b) ! nat (rpos b)
      # slice_of (slice_cells (data b)) (Suc (nat (rpos b))) (nat (wpos b))"
    unfolding contents_def using d by (intro slice_of_nth) auto
  with False lt d show ?thesis
    by (simp add: ReadByte_def slice_index_def go_int)
qed

lemma Discard_eq:
  assumes wf: "buf_wf b" and n: "rpos b + n \<le> max_int"
  shows "Discard b n = (if n < 0 then (0, Some ErrNegativeCount, b)
    else if contents b = [] then (0, Some io_EOF, b)
    else let m = min n (int (length (contents b))) in (m, None, consumed b m))"
proof -
  note d = buf_wfD [OF wf]
  note l = length_contents [OF wf]
  show ?thesis
  proof (cases "n < 0 \<or> contents b = []")
    case True
    then show ?thesis using contents_Nil_iff [OF wf] by (auto simp: Discard_def)
  next
    case False
    then have e: "\<not> Empty b" "0 \<le> n" using contents_Nil_iff [OF wf] by auto
    have w: "wrap64 (rpos b + n) = rpos b + n" using d e n by (intro wrap64_nonneg) auto
    show ?thesis
    proof (cases "rpos b + n > wpos b")
      case True
      have "wrap64 (wpos b - rpos b) = wpos b - rpos b" "wrap64 (rpos b + (wpos b - rpos b)) = wpos b"
        using d by (auto intro!: wrap64_nonneg)
      moreover have "min n (int (length (contents b))) = wpos b - rpos b" using True l by simp
      ultimately show ?thesis using False e True w l by (simp add: Discard_def Let_def)
    next
      case nt: False
      have "wrap64 n = n" using d e n by (intro wrap64_nonneg) auto
      moreover have "min n (int (length (contents b))) = n" using nt l by simp
      ultimately show ?thesis using False e nt w by (simp add: Discard_def Let_def)
    qed
  qed
qed

lemma Peek_eq:
  assumes wf: "buf_wf b" and n: "rpos b + n \<le> max_int"
  shows "Peek b n = (if n < 0 then Inr ([], Some ErrNegativeCount)
    else if contents b = [] then Inr ([], Some io_EOF)
    else if n > int (length (contents b)) then Inr ([], Some ErrOverflow)
    else Inr (take (nat n) (contents b), None))"
proof -
  note d = buf_wfD [OF wf]
  note l = length_contents [OF wf]
  show ?thesis
  proof (cases "n < 0 \<or> contents b = []")
    case True
    then show ?thesis using contents_Nil_iff [OF wf] by (auto simp: Peek_def)
  next
    case False
    then have e: "\<not> Empty b" "0 \<le> n" using contents_Nil_iff [OF wf] by auto
    have w: "wrap64 (rpos b + n) = rpos b + n" using d e n by (intro wrap64_nonneg) auto
    have iff: "wpos b < rpos b + n \<longleftrightarrow> int (length (contents b)) < n" using l by auto
    have "slice_expr (data b) (rpos b) (rpos b + n) = Inr (take (nat n) (contents b))"
      if "\<not> wpos b < rpos b + n"
      using that d e by (simp add: slice_expr_def contents_def take_slice_of nat_add_distrib)
    with False e w iff show ?thesis by (simp add: Peek_def)
  qed
qed

lemma Write_eq:
  assumes wf: "buf_wf b"
  shows "Write_Buffer b bs = (if room b = 0 then Inr (0, Some io_ErrShortBuffer, b)
    else let n = min (room b) (length bs) in Inr (int n, None, stored b (take n bs) (int n)))"
proof -
  obtain dst where dst: "FreeBytes b = Inr dst" "length dst = room b" using FreeBytes_eq [OF wf] by blast
  have "stored b [] 0 = b"
  proof -
    have "slice_store (data b) (wpos b) [] = data b" by (cases "data b") auto
    moreover have "wrap64 (wpos b) = wpos b" using buf_wfD [OF wf] by (simp add: go_int)
    ultimately show ?thesis by simp
  qed
  then show ?thesis
    by (simp add: Write_Buffer_def Full_iff_room [OF wf] dst Let_def)
qed

lemma WriteString_eq:
  assumes wf: "buf_wf b" and n: "wpos b + int (length s) \<le> max_int"
  shows "WriteString_Buffer b s = (if s = [] then Inr (0, None, b)
    else if length s > room b then Inr (0, Some io_ErrShortBuffer, b)
    else Inr (int (length s), None, stored b s (int (length s))))"
proof (cases "s = [] \<or> length s > room b")
  case True
  have w: "wrap64 (wpos b + int (length s)) = wpos b + int (length s)"
    using buf_wfD [OF wf] n by (intro wrap64_nonneg) auto
  show ?thesis using True room_int [OF wf] by (auto simp: WriteString_Buffer_def w Let_def)
next
  case False
  note d = buf_wfD [OF wf]
  have w: "wrap64 (wpos b + int (length s)) = wpos b + int (length s)"
    using d n by (intro wrap64_nonneg) auto
  have fits: "wpos b + int (length s) \<le> bsize b" using False room_int [OF wf] by linarith
  have "slice_expr (data b) (wpos b) (wpos b + int (length s))
      = Inr (slice_of (slice_cells (data b)) (nat (wpos b)) (nat (wpos b + int (length s))))"
    using d fits by (simp add: slice_expr_def)
  moreover have "length (slice_of (slice_cells (data b)) (nat (wpos b)) (nat (wpos b + int (length s))))
      = length s"
  proof -
    have "nat (wpos b + int (length s)) \<le> length (slice_cells (data b))" using d fits by linarith
    then show ?thesis using d by (simp add: length_slice_of nat_add_distrib)
  qed
  ultimately show ?thesis using False w fits by (simp add: WriteString_Buffer_def Let_def)
qed

lemma WriteByte_eq:
  assumes wf: "buf_wf b"
  shows "WriteByte_Buffer b c = (if room b = 0 then Inr (Some io_ErrShortBuffer, b)
    else Inr (None, stored b [c] 1))"
proof (cases "room b = 0")
  case True
  then show ?thesis by (simp add: WriteByte_Buffer_def Full_iff_room [OF wf])
next
  case False
  then have "wpos b < slice_len (data b)" using buf_wfD [OF wf] room_int [OF wf] by linarith
  with False buf_wfD [OF wf] show ?thesis
    by (simp add: WriteByte_Buffer_def Full_iff_room [OF wf] slice_index_def)
qed

subsection \<open>The abstract buffer: a byte queue with a limit\<close>

text \<open>
  What a \<open>Buffer\<close> promises: a first-in first-out queue of bytes, \<open>taken\<close> of which have left at
  the front since the last \<open>Reset\<close>, and a limit on how many may enter between two resets. The
  arrays, positions and slice bounds are gone.
\<close>

record bqueue =
  items :: "byte list"
  taken :: nat
  limit :: nat

definition abs_buf :: "Buffer \<Rightarrow> bqueue" where
  "abs_buf b = \<lparr>items = contents b, taken = nat (rpos b), limit = nat (bsize b)\<rparr>"

definition q_room :: "bqueue \<Rightarrow> nat" where
  "q_room q = limit q - taken q - length (items q)"

datatype bop =
    OpWrite "byte list" | OpWriteString "byte list" | OpWriteByte byte
  | OpRead nat | OpReadByte | OpDiscard int | OpPeek int | OpCopyBytes | OpReset | OpTruncated int

text \<open>The observation of an operation: the bytes, the count and the error it returns.\<close>

type_synonym bobs = "byte list \<times> int \<times> go_error option"

fun q_step :: "bqueue \<Rightarrow> bop \<Rightarrow> bobs \<times> bqueue" where
  "q_step q (OpWrite bs) =
     (if q_room q = 0 then (([], 0, Some io_ErrShortBuffer), q)
      else let n = min (q_room q) (length bs) in (([], int n, None), q\<lparr>items := items q @ take n bs\<rparr>))"
| "q_step q (OpWriteString s) =
     (if s \<noteq> [] \<and> length s > q_room q then (([], 0, Some io_ErrShortBuffer), q)
      else (([], int (length s), None), q\<lparr>items := items q @ s\<rparr>))"
| "q_step q (OpWriteByte c) =
     (if q_room q = 0 then (([], 0, Some io_ErrShortBuffer), q)
      else (([], 0, None), q\<lparr>items := items q @ [c]\<rparr>))"
| "q_step q (OpRead k) =
     (if items q = [] then (([], 0, Some io_EOF), q)
      else let n = min k (length (items q))
           in ((take n (items q), int n, None), q\<lparr>items := drop n (items q), taken := taken q + n\<rparr>))"
| "q_step q OpReadByte =
     (case items q of
        [] \<Rightarrow> (([0], 0, Some io_EOF), q)
      | c # cs \<Rightarrow> (([c], 0, None), q\<lparr>items := cs, taken := taken q + 1\<rparr>))"
| "q_step q (OpDiscard n) =
     (if n < 0 then (([], 0, Some ErrNegativeCount), q)
      else if items q = [] then (([], 0, Some io_EOF), q)
      else let m = min (nat n) (length (items q))
           in (([], int m, None), q\<lparr>items := drop m (items q), taken := taken q + m\<rparr>))"
| "q_step q (OpPeek n) =
     (if n < 0 then (([], 0, Some ErrNegativeCount), q)
      else if items q = [] then (([], 0, Some io_EOF), q)
      else if nat n > length (items q) then (([], 0, Some ErrOverflow), q)
      else ((take (nat n) (items q), 0, None), q))"
| "q_step q OpCopyBytes = ((items q, 0, None), q)"
| "q_step q OpReset = (([], 0, None), q\<lparr>items := [], taken := 0\<rparr>)"
| "q_step q (OpTruncated n) = (([], 0, None), q\<lparr>items := take (nat n) (items q)\<rparr>)"

fun b_step :: "Buffer \<Rightarrow> bop \<Rightarrow> (bobs \<times> Buffer) go" where
  "b_step b (OpWrite bs) =
     (case Write_Buffer b bs of Inl p \<Rightarrow> Inl p | Inr (n, e, b') \<Rightarrow> Inr (([], n, e), b'))"
| "b_step b (OpWriteString s) =
     (case WriteString_Buffer b s of Inl p \<Rightarrow> Inl p | Inr (n, e, b') \<Rightarrow> Inr (([], n, e), b'))"
| "b_step b (OpWriteByte c) =
     (case WriteByte_Buffer b c of Inl p \<Rightarrow> Inl p | Inr (e, b') \<Rightarrow> Inr (([], 0, e), b'))"
| "b_step b (OpRead k) =
     (case Read b k of Inl p \<Rightarrow> Inl p | Inr (bs, n, e, b') \<Rightarrow> Inr ((bs, n, e), b'))"
| "b_step b OpReadByte =
     (case ReadByte b of Inl p \<Rightarrow> Inl p | Inr (c, e, b') \<Rightarrow> Inr (([c], 0, e), b'))"
| "b_step b (OpDiscard n) = (case Discard b n of (m, e, b') \<Rightarrow> Inr (([], m, e), b'))"
| "b_step b (OpPeek n) =
     (case Peek b n of Inl p \<Rightarrow> Inl p | Inr (bs, e) \<Rightarrow> Inr ((bs, 0, e), b))"
| "b_step b OpCopyBytes = (case CopyBytes b of Inl p \<Rightarrow> Inl p | Inr bs \<Rightarrow> Inr ((bs, 0, None), b))"
| "b_step b OpReset = Inr (([], 0, None), Reset b)"
| "b_step b (OpTruncated n) = (case Truncated b n of Inl p \<Rightarrow> Inl p | Inr b' \<Rightarrow> Inr (([], 0, None), b'))"

text \<open>
  The sums the code forms stay below \<open>max_int\<close>: a string's length added to the bytes that have
  entered, a count added to the bytes that have left. Without the second bound \<open>Discard\<close> and
  \<open>Peek\<close> go wrong, see \<open>Discard_wraps\<close>. \<open>Truncated\<close> is asked to keep no more bytes than there are, and not
  a negative number of them: what it does otherwise is \<open>Truncated_outside\<close>.
\<close>

fun op_ok :: "bqueue \<Rightarrow> bop \<Rightarrow> bool" where
  "op_ok q (OpWriteString s) = (int (taken q + length (items q) + length s) \<le> max_int)"
| "op_ok q (OpDiscard n) = (int (taken q) + n \<le> max_int)"
| "op_ok q (OpPeek n) = (int (taken q) + n \<le> max_int)"
| "op_ok q (OpTruncated n) = (0 \<le> n \<and> n \<le> int (length (items q)))"
| "op_ok q _ = True"

fun q_run :: "bqueue \<Rightarrow> bop list \<Rightarrow> bobs list \<times> bqueue" where
  "q_run q [] = ([], q)"
| "q_run q (x # xs) = (case q_step q x of (o1, q1) \<Rightarrow> (case q_run q1 xs of (os, q2) \<Rightarrow> (o1 # os, q2)))"

fun run_ok :: "bqueue \<Rightarrow> bop list \<Rightarrow> bool" where
  "run_ok q [] = True"
| "run_ok q (x # xs) = (op_ok q x \<and> run_ok (snd (q_step q x)) xs)"

fun b_run :: "Buffer \<Rightarrow> bop list \<Rightarrow> (bobs list \<times> Buffer) go" where
  "b_run b [] = Inr ([], b)"
| "b_run b (x # xs) =
     (case b_step b x of
        Inl p \<Rightarrow> Inl p
      | Inr (o1, b1) \<Rightarrow> (case b_run b1 xs of Inl p \<Rightarrow> Inl p | Inr (os, b2) \<Rightarrow> Inr (o1 # os, b2)))"

lemma abs_facts:
  assumes "buf_wf b"
  shows "q_room (abs_buf b) = room b" and "int (taken (abs_buf b)) = rpos b"
    and "items (abs_buf b) = contents b" and "int (limit (abs_buf b)) = bsize b"
proof -
  note d = buf_wfD [OF assms]
  note l = length_contents [OF assms]
  show "q_room (abs_buf b) = room b"
    using d l by (simp add: q_room_def abs_buf_def room_def nat_diff_distrib)
  show "int (taken (abs_buf b)) = rpos b" "items (abs_buf b) = contents b" "int (limit (abs_buf b)) = bsize b"
    using d by (simp_all add: abs_buf_def)
qed

lemma abs_stored:
  assumes "buf_wf b" and "length bs \<le> room b"
  shows "abs_buf (stored b bs (int (length bs))) = (abs_buf b)\<lparr>items := contents b @ bs\<rparr>"
    and "buf_wf (stored b bs (int (length bs)))"
  using stored_facts [OF assms(1), of "int (length bs)" bs] assms(2) by (simp_all add: abs_buf_def)

lemma abs_consumed:
  assumes "buf_wf b" and "n \<le> length (contents b)"
  shows "abs_buf (consumed b (int n)) = (abs_buf b)\<lparr>items := drop n (contents b), taken := nat (rpos b) + n\<rparr>"
    and "buf_wf (consumed b (int n))"
  using consumed_facts [OF assms(1), of "int n"] assms(2) buf_wfD [OF assms(1)]
  by (simp_all add: abs_buf_def nat_add_distrib)

lemma Truncated_within:
  assumes wf: "buf_wf b" and n: "0 \<le> n" "n \<le> wpos b - rpos b"
  shows "Truncated b n = Inr (b\<lparr>wpos := rpos b + n\<rparr>)" and "buf_wf (b\<lparr>wpos := rpos b + n\<rparr>)"
    and "contents (b\<lparr>wpos := rpos b + n\<rparr>) = take (nat n) (contents b)"
proof -
  note d = buf_wfD [OF wf]
  have "wrap64 (rpos b + n) = rpos b + n" using d n by (intro wrap64_nonneg) auto
  then show "Truncated b n = Inr (b\<lparr>wpos := rpos b + n\<rparr>)" using n by (simp add: Truncated_def)
  show "buf_wf (b\<lparr>wpos := rpos b + n\<rparr>)" using wf d n by (auto simp: buf_wf_def)
  show "contents (b\<lparr>wpos := rpos b + n\<rparr>) = take (nat n) (contents b)"
    using d n by (simp add: contents_def take_slice_of nat_add_distrib)
qed

text \<open>
  Outside of that \<open>Truncated\<close> panics, or it moves the end of the buffer over bytes that nobody wrote since
  the last \<open>Reset\<close>, past the size even, and then reads panic.
\<close>

lemma Truncated_outside:
  assumes wf: "buf_wf b"
  shows "n < 0 \<Longrightarrow> Truncated b n = Inl (PanicMsg ''negative count'')"
    and "n \<le> bsize b - rpos b \<Longrightarrow> wpos b - rpos b < n \<Longrightarrow> \<exists>b'. Truncated b n = Inr b' \<and> buf_wf b'
      \<and> contents b' = contents b @ slice_of (slice_cells (data b)) (nat (wpos b)) (nat (rpos b + n))"
    and "bsize b - rpos b < n \<Longrightarrow> rpos b + n \<le> max_int \<Longrightarrow> \<exists>b'. Truncated b n = Inr b' \<and> \<not> buf_wf b'"
proof -
  note d = buf_wfD [OF wf]
  show "n < 0 \<Longrightarrow> Truncated b n = Inl (PanicMsg ''negative count'')" by (simp add: Truncated_def)
  show "\<exists>b'. Truncated b n = Inr b' \<and> buf_wf b'
      \<and> contents b' = contents b @ slice_of (slice_cells (data b)) (nat (wpos b)) (nat (rpos b + n))"
    if n: "n \<le> bsize b - rpos b" "wpos b - rpos b < n"
  proof -
    have "wrap64 (rpos b + n) = rpos b + n" using d n by (intro wrap64_nonneg) auto
    moreover have "buf_wf (b\<lparr>wpos := rpos b + n\<rparr>)" using wf d n by (auto simp: buf_wf_def)
    moreover have "nat (rpos b) \<le> nat (wpos b)" "nat (wpos b) \<le> nat (rpos b + n)" using d n by simp_all
    ultimately show ?thesis using d n by (simp add: Truncated_def contents_def slice_of_append)
  qed
  show "\<exists>b'. Truncated b n = Inr b' \<and> \<not> buf_wf b'" if n: "bsize b - rpos b < n" "rpos b + n \<le> max_int"
  proof -
    have "wrap64 (rpos b + n) = rpos b + n" using d n by (intro wrap64_nonneg) auto
    then show ?thesis using d n by (simp add: Truncated_def buf_wf_def)
  qed
qed

lemma b_step_refines:
  assumes wf: "buf_wf b" and ok: "op_ok (abs_buf b) x"
  shows "\<exists>b'. b_step b x = Inr (fst (q_step (abs_buf b) x), b')
    \<and> abs_buf b' = snd (q_step (abs_buf b) x) \<and> buf_wf b'"
proof (cases x)
  case (OpWrite bs)
  let ?n = "min (room b) (length bs)"
  have len: "length (take ?n bs) = ?n" by simp
  have "?n \<le> room b" by simp
  note st = abs_stored [OF wf, of "take ?n bs", unfolded len, OF this]
  show ?thesis
    using OpWrite wf st by (simp add: Write_eq [OF wf] abs_facts [OF wf] Let_def)
next
  case (OpWriteString s)
  have "wpos b + int (length s) \<le> max_int"
    using ok OpWriteString abs_facts [OF wf] length_contents [OF wf] by simp
  note eq = WriteString_eq [OF wf this]
  have "(abs_buf b)\<lparr>items := contents b\<rparr> = abs_buf b" by (simp add: abs_buf_def)
  then show ?thesis
    using OpWriteString wf abs_stored [OF wf, of s]
    by (auto simp: eq abs_facts [OF wf])
next
  case (OpWriteByte c)
  show ?thesis
    using OpWriteByte wf abs_stored [OF wf, of "[c]"]
    by (auto simp: WriteByte_eq [OF wf] abs_facts [OF wf])
next
  case (OpRead k)
  let ?n = "min k (length (contents b))"
  have "nat (rpos b) = taken (abs_buf b)" by (simp add: abs_buf_def)
  then show ?thesis
    using OpRead wf abs_consumed [OF wf, of ?n]
    by (auto simp: Read_eq [OF wf] abs_facts [OF wf] Let_def)
next
  case OpReadByte
  have "nat (rpos b) = taken (abs_buf b)" by (simp add: abs_buf_def)
  then show ?thesis
    using OpReadByte wf abs_consumed [OF wf, of 1]
    by (cases "contents b") (auto simp: ReadByte_eq [OF wf] abs_facts [OF wf])
next
  case (OpDiscard n)
  have "rpos b + n \<le> max_int" using ok OpDiscard abs_facts [OF wf] by simp
  note eq = Discard_eq [OF wf this]
  have "nat (rpos b) = taken (abs_buf b)" by (simp add: abs_buf_def)
  moreover have "min n (int (length (contents b))) = int (min (nat n) (length (contents b)))" if "\<not> n < 0"
    using that by simp
  ultimately show ?thesis
    using OpDiscard wf abs_consumed [OF wf, of "min (nat n) (length (contents b))"]
    by (auto simp: eq abs_facts [OF wf] Let_def)
next
  case (OpPeek n)
  have "rpos b + n \<le> max_int" using ok OpPeek abs_facts [OF wf] by simp
  note eq = Peek_eq [OF wf this]
  show ?thesis using OpPeek wf by (auto simp: eq abs_facts [OF wf])
next
  case OpCopyBytes
  then show ?thesis using wf by (simp add: CopyBytes_def Bytes_eq abs_facts [OF wf])
next
  case OpReset
  then show ?thesis using wf Reset_facts [OF wf]
    by (simp add: abs_buf_def) (simp add: Reset_def)
next
  case (OpTruncated n)
  have n: "0 \<le> n" "n \<le> wpos b - rpos b" using ok OpTruncated abs_facts [OF wf] length_contents [OF wf] by simp_all
  note t = Truncated_within [OF wf n]
  then show ?thesis using OpTruncated by (simp add: abs_buf_def)
qed

lemma b_run_refines:
  "buf_wf b \<Longrightarrow> run_ok (abs_buf b) xs \<Longrightarrow>
     \<exists>b'. b_run b xs = Inr (fst (q_run (abs_buf b) xs), b')
       \<and> abs_buf b' = snd (q_run (abs_buf b) xs) \<and> buf_wf b'"
proof (induction xs arbitrary: b)
  case Nil
  then show ?case by simp
next
  case (Cons x xs)
  from Cons.prems have "buf_wf b" "op_ok (abs_buf b) x" by simp_all
  then obtain b1 where b1: "b_step b x = Inr (fst (q_step (abs_buf b) x), b1)"
    "abs_buf b1 = snd (q_step (abs_buf b) x)" "buf_wf b1"
    using b_step_refines by blast
  with Cons.prems(2) have "run_ok (abs_buf b1) xs" by simp
  from Cons.IH [OF b1(3) this] b1 show ?case
    by (auto split: prod.splits)
qed

subsection \<open>Properties\<close>

text \<open>
  C3: a well-formed buffer behaves as the abstract queue: any sequence of operations, with any
  arguments whose sums stay in the \<open>int\<close> range and with no \<open>Truncated\<close> to a negative length or to one beyond
  the bytes there are, returns (never panics), gives exactly the bytes, counts and errors the queue
  gives, and leaves a well-formed buffer that represents the queue.
\<close>

theorem Buffer_refines_queue:
  assumes "buf_wf b" and "run_ok (abs_buf b) xs"
  shows "\<exists>b'. b_run b xs = Inr (fst (q_run (abs_buf b) xs), b')
    \<and> abs_buf b' = snd (q_run (abs_buf b) xs) \<and> buf_wf b'"
  using assms by (rule b_run_refines)

theorem Buffer_refines_queue_witness:
  "\<exists>b'. b_run (As (Slice 0 [1, 2, 3] 3)) [OpTruncated 2, OpReadByte, OpReset, OpWrite [7, 8], OpDiscard 1, OpRead 5]
     = Inr ([([], 0, None), ([1], 0, None), ([], 0, None), ([], 2, None), ([], 1, None), ([8], 1, None)], b')
   \<and> items (abs_buf b') = []"
proof -
  let ?b = "As (Slice 0 [1, 2, 3] 3)"
  let ?xs = "[OpTruncated 2, OpReadByte, OpReset, OpWrite [7, 8], OpDiscard 1, OpRead 5]"
  have abs: "abs_buf ?b = \<lparr>items = [1, 2, 3], taken = 0, limit = 3\<rparr>"
    by (simp add: abs_buf_def As_def zero_Buffer_def contents_def slice_of_def)
  have wf: "buf_wf ?b" by (simp add: buf_wf_def As_def zero_Buffer_def slice_cap_def)
  have ok: "run_ok (abs_buf ?b) ?xs" by (simp add: abs q_room_def)
  from Buffer_refines_queue [OF wf ok] show ?thesis by (auto simp: abs q_room_def simp del: b_run.simps)
qed

text \<open>
  \<open>Discard\<close> with a large count, after at least one byte has been read, does not clamp the count to
  what is left: the sum \<open>b.r + n\<close> wraps around, the call reports the whole count as discarded, the
  read position becomes negative, and the next \<open>Read\<close> panics. \<open>Peek\<close> with the same count panics
  instead of reporting \<open>ErrOverflow\<close>.
\<close>

theorem Discard_wraps:
  assumes "buf_wf b" and "0 < rpos b" and "contents b \<noteq> []" and "max_int - rpos b < n" and "n \<le> max_int"
  shows "\<exists>b'. Discard b n = (n, None, b') \<and> rpos b' < 0 \<and> Read b' k = Inl SliceBounds
    \<and> Peek b n = Inl SliceBounds"
proof -
  note d = buf_wfD [OF assms(1)]
  have e: "\<not> Empty b" using assms(1,3) contents_Nil_iff by blast
  have w: "wrap64 (rpos b + n) = rpos b + n - 2 ^ 64"
    using assms(2,4,5) d by (intro wrap64_over) auto
  have neg: "rpos b + n - 2 ^ 64 < 0" using assms(5) d by simp
  have rest: "wrap64 (rpos b + n - 2 ^ 64 - rpos b) = wrap64 n"
    using wrap64_minus [of n] by simp
  have n: "wrap64 n = n" using assms d by (intro wrap64_nonneg) auto
  have dis: "Discard b n = (n, None, b\<lparr>rpos := rpos b + n - 2 ^ 64\<rparr>)"
    using e w neg rest n d assms(2,4) by (simp add: Discard_def Let_def)
  moreover have "Read (b\<lparr>rpos := rpos b + n - 2 ^ 64\<rparr>) k = Inl SliceBounds"
    using neg d by (simp add: Read_def Empty_def Bytes_def slice_expr_def)
  moreover have "Peek b n = Inl SliceBounds"
    using e w neg d assms(2,4) by (simp add: Peek_def slice_expr_def)
  ultimately show ?thesis using neg by simp
qed

theorem Discard_wraps_witness:
  "\<exists>b'. Discard (As (Slice 0 [1, 2, 3] 3)\<lparr>rpos := 1\<rparr>) max_int = (max_int, None, b') \<and> rpos b' < 0
     \<and> Read b' 1 = Inl SliceBounds"
  using Discard_wraps [of "As (Slice 0 [1, 2, 3] 3)\<lparr>rpos := 1\<rparr>" max_int 1]
  by (auto simp: buf_wf_def As_def zero_Buffer_def slice_cap_def contents_def slice_of_def)

end
