(* ===== verification/BufferIO.thy ===== *)
theory BufferIO
  imports Buffer
begin

text \<open>
  The operations of \<^verbatim>\<open>buf/buffer.go\<close> that call a reader or a writer: \<open>ReadFrom\<close>, \<open>ReadFromOnce\<close>,
  \<open>ReadFull\<close>, \<open>WriteTo\<close> and \<open>WriteToOnce\<close>. The two loops and \<^verbatim>\<open>io.ReadFull\<close> may call their
  counterpart for ever, so they are partial: \<open>None\<close> is "does not return". The contracts of
  \<^verbatim>\<open>io.Reader\<close> and \<^verbatim>\<open>io.Writer\<close> are locales; under them the loops are shown to return.
\<close>

subsection \<open>The operations\<close>

definition ReadFromOnce :: "'r read_fn \<Rightarrow> Buffer \<Rightarrow> 'r \<Rightarrow> (int \<times> go_error option \<times> Buffer \<times> 'r) go" where
  "ReadFromOnce rd b rs =
     (if Full b then Inr (0, Some io_ErrShortWrite, b, rs)
      else case FreeBytes b of
        Inl p \<Rightarrow> Inl p
      | Inr dst \<Rightarrow>
          (case rd rs (length dst) of
             Inl p \<Rightarrow> Inl p
           | Inr (bs, n, err, rs') \<Rightarrow>
               Inr (n, err, stored b (take (length dst) bs) n, rs')))"

partial_function (option) ReadFrom_loop ::
    "'r read_fn \<Rightarrow> Buffer \<Rightarrow> 'r \<Rightarrow> int \<Rightarrow> int \<Rightarrow> (int \<times> go_error option \<times> Buffer \<times> 'r) go option" where
  "ReadFrom_loop rd b rs n retry =
     (case FreeBytes b of
        Inl p \<Rightarrow> Some (Inl p)
      | Inr dst \<Rightarrow>
          (case rd rs (length dst) of
             Inl p \<Rightarrow> Some (Inl p)
           | Inr (bs, nn, err, rs') \<Rightarrow>
               (let b' = stored b (take (length dst) bs) nn; n' = wrap64 (n + nn)
                in if err \<noteq> None
                     then Some (Inr (n', if errors_Is err ''io.EOF'' then None else err, b', rs'))
                   else if Full b' then Some (Inr (n', None, b', rs'))
                   else if nn = 0
                     then if retry + 1 > 100 then Some (Inr (n', Some io_ErrNoProgress, b', rs'))
                          else ReadFrom_loop rd b' rs' n' (retry + 1)
                   else ReadFrom_loop rd b' rs' n' 0)))"

definition ReadFrom :: "'r read_fn \<Rightarrow> Buffer \<Rightarrow> 'r \<Rightarrow> (int \<times> go_error option \<times> Buffer \<times> 'r) go option" where
  "ReadFrom rd b rs =
     (if Full b then Some (Inr (0, Some io_ErrShortBuffer, b, rs)) else ReadFrom_loop rd b rs 0 0)"

definition WriteToOnce :: "'w write_fn \<Rightarrow> Buffer \<Rightarrow> 'w \<Rightarrow> (int \<times> go_error option \<times> Buffer \<times> 'w) go" where
  "WriteToOnce wr b ws =
     (if Empty b then Inr (0, Some io_EOF, b, ws)
      else case Bytes b of
        Inl p \<Rightarrow> Inl p
      | Inr src \<Rightarrow>
          (case wr ws src of
             Inl p \<Rightarrow> Inl p
           | Inr (nn, err, ws') \<Rightarrow> Inr (nn, err, consumed b nn, ws')))"

partial_function (option) WriteTo_loop ::
    "'w write_fn \<Rightarrow> Buffer \<Rightarrow> 'w \<Rightarrow> int \<Rightarrow> int \<Rightarrow> (int \<times> go_error option \<times> Buffer \<times> 'w) go option" where
  "WriteTo_loop wr b ws n retry =
     (case Bytes b of
        Inl p \<Rightarrow> Some (Inl p)
      | Inr src \<Rightarrow>
          (case wr ws src of
             Inl p \<Rightarrow> Some (Inl p)
           | Inr (nn, err, ws') \<Rightarrow>
               (let b' = consumed b nn; n' = wrap64 (n + nn)
                in if err \<noteq> None then Some (Inr (n', err, b', ws'))
                   else if Empty b' then Some (Inr (n', None, b', ws'))
                   else if nn = 0
                     then if retry + 1 > 100 then Some (Inr (n', Some io_ErrNoProgress, b', ws'))
                          else WriteTo_loop wr b' ws' n' (retry + 1)
                   else WriteTo_loop wr b' ws' n' 0)))"

definition WriteTo :: "'w write_fn \<Rightarrow> Buffer \<Rightarrow> 'w \<Rightarrow> (int \<times> go_error option \<times> Buffer \<times> 'w) go option" where
  "WriteTo wr b ws =
     (if Empty b then Some (Inr (0, Some io_EOF, b, ws)) else WriteTo_loop wr b ws 0 0)"

text \<open>
  \<^verbatim>\<open>io.ReadFull\<close> (\<^verbatim>\<open>io.ReadAtLeast\<close> with the whole slice) into a slice of length \<open>k\<close>: the bytes
  stored so far are \<open>acc\<close>.
\<close>

partial_function (option) io_ReadFull ::
    "'r read_fn \<Rightarrow> 'r \<Rightarrow> nat \<Rightarrow> byte list \<Rightarrow> int \<Rightarrow> (byte list \<times> int \<times> go_error option \<times> 'r) go option" where
  "io_ReadFull rd rs k acc n =
     (if n < int k
      then if n < 0 then Some (Inl SliceBounds)
      else (case rd rs (nat (int k - n)) of
              Inl p \<Rightarrow> Some (Inl p)
            | Inr (bs, nn, err, rs') \<Rightarrow>
                (let acc' = take (nat n) acc @ take (nat (int k - n)) bs; n' = wrap64 (n + nn)
                 in if err = None then io_ReadFull rd rs' k acc' n'
                    else Some (Inr (acc', n',
                      if n' \<ge> int k then None
                      else if n' > 0 \<and> err = Some io_EOF then Some io_ErrUnexpectedEOF
                      else err, rs'))))
      else Some (Inr (acc, n, None, rs)))"

definition ReadFull ::
    "'r read_fn \<Rightarrow> Buffer \<Rightarrow> 'r \<Rightarrow> int \<Rightarrow> (int \<times> go_error option \<times> Buffer \<times> 'r) go option" where
  "ReadFull rd b rs len =
     (let e = wrap64 (wpos b + len)
      in if e > bsize b then Some (Inr (0, Some io_ErrShortBuffer, b, rs))
         else case slice_expr (data b) (wpos b) e of
           Inl p \<Rightarrow> Some (Inl p)
         | Inr dst \<Rightarrow>
             (case io_ReadFull rd rs (length dst) [] 0 of
                None \<Rightarrow> None
              | Some (Inl p) \<Rightarrow> Some (Inl p)
              | Some (Inr (bs, n, err, rs')) \<Rightarrow> Some (Inr (n, err, stored b bs n, rs'))))"

subsection \<open>What a run of calls moved\<close>

text \<open>
  \<open>delivers rd rs ds rs'\<close>: some calls of the reader lead from \<open>rs\<close> to \<open>rs'\<close>, and the bytes they
  reported are \<open>ds\<close>. \<open>accepts wr ws ds ws'\<close>: the same for the bytes a writer reported as written.
\<close>

inductive delivers :: "'r read_fn \<Rightarrow> 'r \<Rightarrow> byte list \<Rightarrow> 'r \<Rightarrow> bool" for rd where
  delivers_none: "delivers rd rs [] rs"
| delivers_read: "rd rs k = Inr (bs, n, err, rs1) \<Longrightarrow> int k \<le> max_int \<Longrightarrow> delivers rd rs1 ds rs2 \<Longrightarrow>
     delivers rd rs (take (nat n) bs @ ds) rs2"

inductive accepts :: "'w write_fn \<Rightarrow> 'w \<Rightarrow> byte list \<Rightarrow> 'w \<Rightarrow> bool" for wr where
  accepts_none: "accepts wr ws [] ws"
| accepts_write: "wr ws p = Inr (n, err, ws1) \<Longrightarrow> accepts wr ws1 ds ws2 \<Longrightarrow>
     accepts wr ws (take (nat n) p @ ds) ws2"

lemma delivers_one:
  "rd rs k = Inr (bs, n, err, rs1) \<Longrightarrow> int k \<le> max_int \<Longrightarrow> delivers rd rs (take (nat n) bs) rs1"
  using delivers_read [OF _ _ delivers_none] by fastforce

lemma accepts_one: "wr ws p = Inr (n, err, ws1) \<Longrightarrow> accepts wr ws (take (nat n) p) ws1"
  using accepts_write [OF _ accepts_none] by fastforce

lemma accepts_trans: "accepts wr ws ds ws1 \<Longrightarrow> accepts wr ws1 es ws2 \<Longrightarrow> accepts wr ws (ds @ es) ws2"
  by (induction rule: accepts.induct) (auto intro: accepts_write)

subsection \<open>The contracts of readers and writers\<close>

text \<open>
  \<^verbatim>\<open>io.Reader\<close>: a call on a good state does not panic, returns a count between 0 and the length
  of the slice, has stored at least that many bytes and no more than the slice holds, and leaves
  a good state. \<open>rinv\<close> is the invariant of the reader's state. A stream reader also has a finite
  stream \<open>pending\<close> of bytes that its calls take from the front.
\<close>

locale io_reader =
  fixes rd :: "'r read_fn" and rinv :: "'r \<Rightarrow> bool"
  assumes read_contract: "rinv rs \<Longrightarrow> int k \<le> max_int \<Longrightarrow> \<exists>bs n err rs'. rd rs k = Inr (bs, n, err, rs')
      \<and> 0 \<le> n \<and> n \<le> int (length bs) \<and> length bs \<le> k \<and> rinv rs'"

locale io_stream_reader = io_reader +
  fixes pending :: "'a \<Rightarrow> byte list"
  assumes read_stream: "rinv rs \<Longrightarrow> int k \<le> max_int \<Longrightarrow> rd rs k = Inr (bs, n, err, rs') \<Longrightarrow>
      pending rs = take (nat n) bs @ pending rs'"

text \<open>
  The part of \<^verbatim>\<open>io.Writer\<close> the buffer relies on: no panic, a count between 0 and the length of the
  slice. (The full contract also wants an error with a short count; where it is needed it is a
  hypothesis of its own.) A sink writer records the bytes it reported as written in \<open>sink\<close>.
\<close>

locale io_writer =
  fixes wr :: "'w write_fn" and winv :: "'w \<Rightarrow> bool"
  assumes write_contract: "winv ws \<Longrightarrow> \<exists>n err ws'. wr ws p = Inr (n, err, ws')
      \<and> 0 \<le> n \<and> n \<le> int (length p) \<and> winv ws'"

locale io_sink_writer = io_writer +
  fixes sink :: "'a \<Rightarrow> byte list"
  assumes write_sink: "winv ws \<Longrightarrow> wr ws p = Inr (n, err, ws') \<Longrightarrow> sink ws' = sink ws @ take (nat n) p"

lemma room_max: "buf_wf b \<Longrightarrow> int (room b) \<le> max_int"
  using room_int [of b] buf_wfD [of b] by linarith

context io_reader begin

lemma reader_step:
  assumes "rinv rs" and "int k \<le> max_int"
  obtains bs n err rs' where "rd rs k = Inr (bs, n, err, rs')" and "0 \<le> n" and "n \<le> int (length bs)"
    and "length bs \<le> k" and "rinv rs'"
  using read_contract [OF assms] by blast

lemma ReadFromOnce_spec:
  assumes wf: "buf_wf b" and inv: "rinv rs"
  shows "\<exists>n err b' rs' ds. ReadFromOnce rd b rs = Inr (n, err, b', rs')
    \<and> buf_wf b' \<and> rinv rs' \<and> contents b' = contents b @ ds \<and> n = int (length ds)
    \<and> delivers rd rs ds rs' \<and> (Full b \<longrightarrow> err = Some io_ErrShortWrite)"
proof (cases "Full b")
  case True
  have "delivers rd rs [] rs" by (rule delivers_none)
  with True wf inv show ?thesis by (simp add: ReadFromOnce_def)
next
  case False
  obtain dst where dst: "FreeBytes b = Inr dst" "length dst = room b" using FreeBytes_eq [OF wf] by blast
  obtain bs n err rs' where rd: "rd rs (room b) = Inr (bs, n, err, rs')"
    and n: "0 \<le> n" "n \<le> int (length bs)" "length bs \<le> room b" and inv': "rinv rs'"
    using reader_step [OF inv room_max [OF wf]] by blast
  have n': "n \<le> int (room b)" using n by linarith
  note st = stored_facts [OF wf n(1) n' n(2,3)]
  have "ReadFromOnce rd b rs = Inr (n, err, stored b bs n, rs')"
    using False dst rd n by (simp add: ReadFromOnce_def)
  moreover have "delivers rd rs (take (nat n) bs) rs'" using rd room_max [OF wf] by (rule delivers_one)
  ultimately show ?thesis using st inv' False n by auto
qed

text \<open>
  The loop returns: every turn reads something, so the room shrinks, or raises the retry counter
  towards its limit.
\<close>

lemma ReadFrom_loop_returns:
  assumes "buf_wf b" and "rinv rs" and "0 < room b" and "0 \<le> retry" and "retry \<le> 100"
    and "0 \<le> n" and "n + int (room b) \<le> max_int"
  shows "\<exists>n' err b' rs' ds. ReadFrom_loop rd b rs n retry = Some (Inr (n', err, b', rs'))
    \<and> buf_wf b' \<and> rinv rs' \<and> contents b' = contents b @ ds \<and> n' = n + int (length ds)
    \<and> delivers rd rs ds rs' \<and> \<not> errors_Is err ''io.EOF''"
  using assms
proof (induction "101 * room b + nat (100 - retry)" arbitrary: b rs n retry rule: less_induct)
  case less
  note wf = less.prems(1)
  obtain dst where dst: "FreeBytes b = Inr dst" "length dst = room b" using FreeBytes_eq [OF wf] by blast
  obtain bs nn err rs1 where rd: "rd rs (room b) = Inr (bs, nn, err, rs1)"
    and nn: "0 \<le> nn" "nn \<le> int (length bs)" "length bs \<le> room b" and inv1: "rinv rs1"
    using reader_step [OF less.prems(2) room_max [OF wf]] by blast
  have nn': "nn \<le> int (room b)" using nn by linarith
  let ?b = "stored b bs nn"
  note st = stored_facts [OF wf nn(1) nn' nn(2,3)]
  have n1: "wrap64 (n + nn) = n + nn" using less.prems nn nn' by (intro wrap64_nonneg) auto
  have one: "delivers rd rs (take (nat nn) bs) rs1" using rd room_max [OF wf] by (rule delivers_one)
  have len: "int (length (take (nat nn) bs)) = nn" using nn by simp
  show ?case
  proof (cases "err \<noteq> None \<or> Full ?b \<or> (nn = 0 \<and> retry + 1 > 100)")
    case True
    let ?e = "if err \<noteq> None then if errors_Is err ''io.EOF'' then None else err
      else if Full ?b then None else Some io_ErrNoProgress"
    have "ReadFrom_loop rd b rs n retry = Some (Inr (n + nn, ?e, ?b, rs1))"
      using True dst rd nn n1 by (subst ReadFrom_loop.simps) (auto simp: Let_def)
    moreover have "\<not> errors_Is ?e ''io.EOF''" by (simp add: errors_Is_def)
    ultimately show ?thesis using st(1,2) inv1 one len
      by (intro exI [of _ "n + nn"] exI [of _ ?e] exI [of _ ?b] exI [of _ rs1] exI [of _ "take (nat nn) bs"]) simp
  next
    case False
    define b1 where "b1 = ?b"
    define r1 where "r1 = (if nn = 0 then retry + 1 else 0)"
    note st1 = st [folded b1_def]
    have step: "ReadFrom_loop rd b rs n retry = ReadFrom_loop rd b1 rs1 (n + nn) r1"
      using False dst rd nn n1 by (subst ReadFrom_loop.simps) (auto simp: Let_def b1_def r1_def)
    have room': "0 < room b1" using False Full_iff_room [OF st1(1)] by (simp add: b1_def)
    have r1: "0 \<le> r1" "r1 \<le> 100" using False less.prems(4) by (auto simp: r1_def)
    have small: "101 * room b1 + nat (100 - r1) < 101 * room b + nat (100 - retry)"
      using False less.prems(3-5) nn(1) nn' by (cases "nn = 0") (auto simp: st1(4) r1_def)
    have fits: "0 \<le> n + nn" "n + nn + int (room b1) \<le> max_int"
      using less.prems(6,7) nn(1) nn' by (auto simp: st1(4))
    obtain n' err' b' rs' ds where "ReadFrom_loop rd b1 rs1 (n + nn) r1 = Some (Inr (n', err', b', rs'))"
      "buf_wf b'" "rinv rs'" "contents b' = contents b1 @ ds" "n' = n + nn + int (length ds)"
      "delivers rd rs1 ds rs'" "\<not> errors_Is err' ''io.EOF''"
      using less.hyps [OF small st1(1) inv1 room' r1 fits] by blast
    moreover have "delivers rd rs (take (nat nn) bs @ ds) rs'"
      using rd room_max [OF wf] \<open>delivers rd rs1 ds rs'\<close> by (rule delivers_read)
    ultimately show ?thesis using step st1(2) len
      by (intro exI [of _ n'] exI [of _ err'] exI [of _ b'] exI [of _ rs'] exI [of _ "take (nat nn) bs @ ds"]) auto
  qed
qed

end

context io_writer begin

lemma writer_step:
  assumes "winv ws"
  obtains n err ws' where "wr ws p = Inr (n, err, ws')" and "0 \<le> n" and "n \<le> int (length p)" and "winv ws'"
  using write_contract [OF assms] by blast

lemma WriteToOnce_spec:
  assumes wf: "buf_wf b" and inv: "winv ws"
  shows "\<exists>n err b' ws' ds. WriteToOnce wr b ws = Inr (n, err, b', ws')
    \<and> buf_wf b' \<and> winv ws' \<and> contents b = ds @ contents b' \<and> n = int (length ds)
    \<and> accepts wr ws ds ws' \<and> (Empty b \<longrightarrow> err = Some io_EOF)"
proof (cases "Empty b")
  case True
  have "accepts wr ws [] ws" by (rule accepts_none)
  with True wf inv show ?thesis by (simp add: WriteToOnce_def)
next
  case False
  obtain n err ws' where wr: "wr ws (contents b) = Inr (n, err, ws')" and n: "0 \<le> n" "n \<le> int (length (contents b))"
    and inv': "winv ws'" using writer_step [OF inv] by blast
  note co = consumed_facts [OF wf n]
  have "WriteToOnce wr b ws = Inr (n, err, consumed b n, ws')"
    using False wr by (simp add: WriteToOnce_def Bytes_eq [OF wf])
  moreover have "contents b = take (nat n) (contents b) @ contents (consumed b n)"
    by (simp only: co(2) append_take_drop_id)
  moreover have "n = int (length (take (nat n) (contents b)))" using n by simp
  moreover have "accepts wr ws (take (nat n) (contents b)) ws'" using wr by (rule accepts_one)
  ultimately show ?thesis using co(1) inv' False by blast
qed

lemma WriteTo_loop_returns:
  assumes "buf_wf b" and "winv ws" and "contents b \<noteq> []" and "0 \<le> retry" and "retry \<le> 100"
    and "0 \<le> n" and "n + int (length (contents b)) \<le> max_int"
  shows "\<exists>n' err b' ws' ds. WriteTo_loop wr b ws n retry = Some (Inr (n', err, b', ws'))
    \<and> buf_wf b' \<and> winv ws' \<and> contents b = ds @ contents b' \<and> n' = n + int (length ds)
    \<and> accepts wr ws ds ws' \<and> (err = None \<longrightarrow> contents b' = [])
    \<and> wpos b' = wpos b \<and> bsize b' = bsize b \<and> data b' = data b \<and> managed b' = managed b \<and> ref b' = ref b"
  using assms
proof (induction "101 * length (contents b) + nat (100 - retry)" arbitrary: b ws n retry rule: less_induct)
  case less
  note wf = less.prems(1)
  obtain nn err ws1 where wr: "wr ws (contents b) = Inr (nn, err, ws1)"
    and nn: "0 \<le> nn" "nn \<le> int (length (contents b))" and inv1: "winv ws1"
    using writer_step [OF less.prems(2)] by blast
  define b1 where "b1 = consumed b nn"
  note co = consumed_facts [OF wf nn, folded b1_def]
  have n1: "wrap64 (n + nn) = n + nn" using less.prems nn by (intro wrap64_nonneg) auto
  have one: "accepts wr ws (take (nat nn) (contents b)) ws1" using wr by (rule accepts_one)
  have len: "int (length (take (nat nn) (contents b))) = nn" using nn by simp
  have cat: "contents b = take (nat nn) (contents b) @ contents b1"
    by (simp only: co(2) append_take_drop_id)
  have frame: "wpos b1 = wpos b" "bsize b1 = bsize b" "data b1 = data b" "managed b1 = managed b" "ref b1 = ref b"
    by (simp_all add: b1_def)
  show ?case
  proof (cases "err \<noteq> None \<or> Empty b1 \<or> (nn = 0 \<and> retry + 1 > 100)")
    case True
    let ?e = "if err \<noteq> None then err else if Empty b1 then None else Some io_ErrNoProgress"
    have "WriteTo_loop wr b ws n retry = Some (Inr (n + nn, ?e, b1, ws1))"
      using True wr n1 by (subst WriteTo_loop.simps) (auto simp: Let_def Bytes_eq [OF wf] b1_def)
    moreover have "?e = None \<longrightarrow> contents b1 = []" using contents_Nil_iff [OF co(1)] by auto
    ultimately show ?thesis using co(1) inv1 one len cat frame
      by (intro exI [of _ "n + nn"] exI [of _ ?e] exI [of _ b1] exI [of _ ws1]
          exI [of _ "take (nat nn) (contents b)"]) simp
  next
    case False
    define r1 where "r1 = (if nn = 0 then retry + 1 else 0)"
    have step: "WriteTo_loop wr b ws n retry = WriteTo_loop wr b1 ws1 (n + nn) r1"
      using False wr n1 by (subst WriteTo_loop.simps) (auto simp: Let_def Bytes_eq [OF wf] b1_def r1_def)
    have ne: "contents b1 \<noteq> []" using False contents_Nil_iff [OF co(1)] by simp
    have r1: "0 \<le> r1" "r1 \<le> 100" using False less.prems(4) by (auto simp: r1_def)
    have l1: "length (contents b1) = length (contents b) - nat nn" by (simp add: co(2))
    have small: "101 * length (contents b1) + nat (100 - r1) < 101 * length (contents b) + nat (100 - retry)"
      using False less.prems(3-5) nn by (cases "nn = 0") (auto simp: l1 r1_def)
    have fits: "0 \<le> n + nn" "n + nn + int (length (contents b1)) \<le> max_int"
      using less.prems(6,7) nn by (auto simp: l1)
    obtain n' err' b' ws' ds where rec: "WriteTo_loop wr b1 ws1 (n + nn) r1 = Some (Inr (n', err', b', ws'))"
      "buf_wf b'" "winv ws'" "contents b1 = ds @ contents b'" "n' = n + nn + int (length ds)"
      "accepts wr ws1 ds ws'" "err' = None \<longrightarrow> contents b' = []"
      "wpos b' = wpos b1" "bsize b' = bsize b1" "data b' = data b1" "managed b' = managed b1" "ref b' = ref b1"
      using less.hyps [OF small co(1) inv1 ne r1 fits] by blast
    have "accepts wr ws (take (nat nn) (contents b) @ ds) ws'"
      using wr rec(6) by (rule accepts_write)
    moreover have "contents b = (take (nat nn) (contents b) @ ds) @ contents b'"
      using cat rec(4) by simp
    ultimately show ?thesis using step len rec frame
      by (intro exI [of _ n'] exI [of _ err'] exI [of _ b'] exI [of _ ws']
          exI [of _ "take (nat nn) (contents b) @ ds"]) simp
  qed
qed

lemma WriteTo_returns:
  assumes wf: "buf_wf b" and inv: "winv ws" and ne: "contents b \<noteq> []"
  shows "\<exists>n err b' ws' ds. WriteTo wr b ws = Some (Inr (n, err, b', ws'))
    \<and> buf_wf b' \<and> winv ws' \<and> contents b = ds @ contents b' \<and> n = int (length ds)
    \<and> accepts wr ws ds ws' \<and> (err = None \<longrightarrow> contents b' = [])
    \<and> wpos b' = wpos b \<and> bsize b' = bsize b \<and> data b' = data b \<and> managed b' = managed b \<and> ref b' = ref b"
proof -
  have "int (length (contents b)) \<le> max_int" using length_contents [OF wf] buf_wfD [OF wf] by linarith
  then show ?thesis
    using WriteTo_loop_returns [OF wf inv ne, of 0 0] ne contents_Nil_iff [OF wf] by (simp add: WriteTo_def)
qed

end

context io_reader begin

lemma ReadFrom_returns:
  assumes wf: "buf_wf b" and inv: "rinv rs"
  shows "\<exists>n err b' rs' ds. ReadFrom rd b rs = Some (Inr (n, err, b', rs'))
    \<and> buf_wf b' \<and> rinv rs' \<and> contents b' = contents b @ ds \<and> n = int (length ds)
    \<and> delivers rd rs ds rs' \<and> \<not> errors_Is err ''io.EOF''"
proof (cases "Full b")
  case True
  have "delivers rd rs [] rs" by (rule delivers_none)
  with True wf inv show ?thesis by (auto simp: ReadFrom_def errors_Is_def)
next
  case False
  then have pos: "0 < room b" using Full_iff_room [OF wf] by simp
  note fits = room_max [OF wf]
  have "ReadFrom rd b rs = ReadFrom_loop rd b rs 0 0" using False by (simp add: ReadFrom_def)
  with ReadFrom_loop_returns [OF wf inv pos, of 0 0] fits show ?thesis by simp
qed

end

context io_stream_reader begin

lemma delivers_stream:
  "delivers rd rs ds rs' \<Longrightarrow> rinv rs \<Longrightarrow> pending rs = ds @ pending rs'"
proof (induction rule: delivers.induct)
  case (delivers_none rs)
  then show ?case by simp
next
  case (delivers_read rs k bs n err rs1 ds rs2)
  then have "rinv rs1" using read_contract [of rs k] by auto
  with delivers_read read_stream [of rs k bs n err rs1] show ?case by simp
qed

end

context io_sink_writer begin

lemma accepts_sink:
  "accepts wr ws ds ws' \<Longrightarrow> winv ws \<Longrightarrow> sink ws' = sink ws @ ds"
proof (induction rule: accepts.induct)
  case (accepts_none ws)
  then show ?case by simp
next
  case (accepts_write ws p n err ws1 ds ws2)
  then have "winv ws1" using write_contract [of ws p] by auto
  with accepts_write write_sink [of ws p n err ws1] show ?case by simp
qed

end

subsection \<open>A buffer is itself a reader and a writer\<close>

text \<open>
  \<open>Buffer.Read\<close> satisfies the reader contract with the buffer's contents as its stream, and
  \<open>Buffer.Write\<close> the part of the writer contract above, with the contents as its sink. It does not
  satisfy the full contract.
\<close>

lemma Buffer_Read_contract:
  assumes wf: "buf_wf b"
  shows "\<exists>bs n err b'. Read b k = Inr (bs, n, err, b')
    \<and> 0 \<le> n \<and> n \<le> int (length bs) \<and> length bs \<le> k \<and> buf_wf b'"
proof -
  let ?n = "min k (length (contents b))"
  have "buf_wf (consumed b (int ?n))" using consumed_facts(1) [OF wf, of "int ?n"] by simp
  then show ?thesis using wf by (auto simp: Read_eq [OF wf] Let_def)
qed

lemma Buffer_Read_stream:
  assumes wf: "buf_wf b" and rd: "Read b k = Inr (bs, n, err, b')"
  shows "contents b = take (nat n) bs @ contents b'"
proof (cases "contents b = []")
  case True
  with rd show ?thesis by (auto simp: Read_eq [OF wf])
next
  case False
  let ?n = "min k (length (contents b))"
  have "contents (consumed b (int ?n)) = drop ?n (contents b)"
    using consumed_facts(2) [OF wf, of "int ?n"] by simp
  moreover have "bs = take ?n (contents b)" "n = int ?n" "b' = consumed b (int ?n)"
    using False rd by (auto simp: Read_eq [OF wf] Let_def)
  ultimately show ?thesis by (simp add: min_def)
qed

interpretation buffer_reader: io_stream_reader Read buf_wf contents
proof unfold_locales
  fix b k assume "buf_wf b"
  then show "\<exists>bs n err rs'. Read b k = Inr (bs, n, err, rs')
      \<and> 0 \<le> n \<and> n \<le> int (length bs) \<and> length bs \<le> k \<and> buf_wf rs'"
    by (rule Buffer_Read_contract)
next
  fix b k bs n err b' assume "buf_wf b" "Read b k = Inr (bs, n, err, b')"
  then show "contents b = take (nat n) bs @ contents b'" by (rule Buffer_Read_stream)
qed

lemma Buffer_Write_facts:
  assumes wf: "buf_wf b"
  shows "\<exists>n err b'. Write_Buffer b p = Inr (n, err, b') \<and> 0 \<le> n \<and> n \<le> int (length p) \<and> buf_wf b'
    \<and> contents b' = contents b @ take (nat n) p \<and> room b' = room b - nat n"
proof (cases "room b = 0")
  case True
  with wf show ?thesis by (simp add: Write_eq [OF wf])
next
  case False
  let ?n = "min (room b) (length p)"
  have "Write_Buffer b p = Inr (int ?n, None, stored b (take ?n p) (int ?n))"
    using False by (simp add: Write_eq [OF wf] Let_def)
  moreover note stored_facts [OF wf, of "int ?n" "take ?n p"]
  ultimately show ?thesis by simp
qed

interpretation buffer_writer: io_sink_writer Write_Buffer buf_wf contents
proof unfold_locales
  fix b p assume "buf_wf b"
  then show "\<exists>n err ws'. Write_Buffer b p = Inr (n, err, ws')
      \<and> 0 \<le> n \<and> n \<le> int (length p) \<and> buf_wf ws'"
    using Buffer_Write_facts by blast
next
  fix b p n err b' assume "buf_wf b" "Write_Buffer b p = Inr (n, err, b')"
  then show "contents b' = contents b @ take (nat n) p" using Buffer_Write_facts [of b p] by auto
qed

subsection \<open>Properties\<close>

text \<open>
  C35: \<open>ReadFrom\<close> returns for every reader that keeps the \<^verbatim>\<open>io.Reader\<close> contract, also one that reports
  no progress again and again; what it appends to the buffer is exactly what it took from the
  front of the reader's stream, the count is its length, and \<^verbatim>\<open>io.EOF\<close> is never reported.
\<close>

theorem ReadFrom_total:
  assumes "io_stream_reader rd rinv pending" and "buf_wf b" and "rinv rs"
  shows "\<exists>n err b' rs' ds. ReadFrom rd b rs = Some (Inr (n, err, b', rs')) \<and> buf_wf b' \<and> rinv rs'
    \<and> contents b' = contents b @ ds \<and> pending rs = ds @ pending rs' \<and> n = int (length ds)
    \<and> \<not> errors_Is err ''io.EOF''"
proof -
  have rd: "io_reader rd rinv" using assms(1) by (rule io_stream_reader.axioms(1))
  from io_reader.ReadFrom_returns [OF rd assms(2,3)] obtain n err b' rs' ds
    where r: "ReadFrom rd b rs = Some (Inr (n, err, b', rs'))" "buf_wf b'" "rinv rs'"
      "contents b' = contents b @ ds" "n = int (length ds)" "delivers rd rs ds rs'" "\<not> errors_Is err ''io.EOF''"
    by blast
  moreover have "pending rs = ds @ pending rs'"
    using assms(1) r(6) assms(3) by (rule io_stream_reader.delivers_stream)
  ultimately show ?thesis by blast
qed

theorem ReadFrom_total_witness:
  "\<exists>n err b' src'. ReadFrom Read (As (Slice 0 [9, 9] 2)\<lparr>wpos := 0\<rparr>) (As (Slice 7 [1, 2, 3] 3))
      = Some (Inr (n, err, b', src'))
    \<and> contents b' @ contents src' = [1, 2, 3]"
proof -
  have wf: "buf_wf (As (Slice 0 [9, 9] 2)\<lparr>wpos := 0\<rparr>)" "buf_wf (As (Slice 7 [1, 2, 3] 3))"
    and c: "contents (As (Slice 0 [9, 9] 2)\<lparr>wpos := 0\<rparr>) = []" "contents (As (Slice 7 [1, 2, 3] 3)) = [1, 2, 3]"
    by (simp_all add: buf_wf_def As_def zero_Buffer_def slice_cap_def contents_def slice_of_def)
  from ReadFrom_total [OF buffer_reader.io_stream_reader_axioms wf] show ?thesis by (auto simp: c)
qed

text \<open>
  C36: \<open>WriteTo\<close> of a buffer that holds something (an empty one gives 0 and \<^verbatim>\<open>io.EOF\<close> and calls no writer)
  returns for every writer that reports a count in range; what the writer took is
  exactly what left the front of the buffer, and when no error is reported the buffer is empty.
\<close>

theorem WriteTo_total:
  assumes "io_sink_writer wr winv sink" and "buf_wf b" and "winv ws" and "contents b \<noteq> []"
  shows "\<exists>n err b' ws' ds. WriteTo wr b ws = Some (Inr (n, err, b', ws')) \<and> buf_wf b' \<and> winv ws'
    \<and> contents b = ds @ contents b' \<and> sink ws' = sink ws @ ds \<and> n = int (length ds)
    \<and> (err = None \<longrightarrow> contents b' = []) \<and> data b' = data b \<and> managed b' = managed b"
proof -
  have wr: "io_writer wr winv" using assms(1) by (rule io_sink_writer.axioms(1))
  from io_writer.WriteTo_returns [OF wr assms(2-4)] obtain n err b' ws' ds
    where r: "WriteTo wr b ws = Some (Inr (n, err, b', ws'))" "buf_wf b'" "winv ws'"
      "contents b = ds @ contents b'" "n = int (length ds)" "accepts wr ws ds ws'"
      "err = None \<longrightarrow> contents b' = []" "data b' = data b" "managed b' = managed b"
    by blast
  moreover have "sink ws' = sink ws @ ds"
    using assms(1) r(6) assms(3) by (rule io_sink_writer.accepts_sink)
  ultimately show ?thesis by blast
qed

theorem WriteTo_total_witness:
  "\<exists>n err b' dst'. WriteTo Write_Buffer (As (Slice 7 [1, 2, 3] 3)) (As (Slice 0 [9, 9] 2)\<lparr>wpos := 0\<rparr>)
      = Some (Inr (n, err, b', dst'))
    \<and> contents dst' @ contents b' = [1, 2, 3]"
proof -
  have wf: "buf_wf (As (Slice 7 [1, 2, 3] 3))" "buf_wf (As (Slice 0 [9, 9] 2)\<lparr>wpos := 0\<rparr>)"
    and c: "contents (As (Slice 0 [9, 9] 2)\<lparr>wpos := 0\<rparr>) = []" "contents (As (Slice 7 [1, 2, 3] 3)) = [1, 2, 3]"
    by (simp_all add: buf_wf_def As_def zero_Buffer_def slice_cap_def contents_def slice_of_def)
  from WriteTo_total [OF buffer_writer.io_sink_writer_axioms wf] show ?thesis by (auto simp: c)
qed

text \<open>
  A buffer is not a writer in the full sense of \<^verbatim>\<open>io.Writer\<close>, which asks for an error whenever
  fewer bytes are written than were given: handed more than it has room for, \<open>Write\<close> stores what
  fits and reports no error.
\<close>

theorem Write_short_count:
  assumes "buf_wf b" and "0 < room b" and "room b < length p"
  shows "\<exists>b'. Write_Buffer b p = Inr (int (room b), None, b') \<and> contents b' = contents b @ take (room b) p"
  using Buffer_Write_facts [OF assms(1), of p] assms by (auto simp: Write_eq Let_def)

theorem Write_short_count_witness:
  "\<exists>b'. Write_Buffer (As (Slice 0 [9, 9] 2)\<lparr>wpos := 0\<rparr>) [1, 2, 3] = Inr (2, None, b') \<and> contents b' = [1, 2]"
  using Write_short_count [of "As (Slice 0 [9, 9] 2)\<lparr>wpos := 0\<rparr>" "[1, 2, 3]"]
  by (simp add: buf_wf_def As_def zero_Buffer_def slice_cap_def contents_def slice_of_def room_def)

end
