(* ===== verification/Lifecycle.thy ===== *)
theory Lifecycle
  imports Buffer "HOL-Library.Multiset"
begin

text \<open>
  The lifetime of buffers and of the arrays they own: any number of live buffers share one
  allocator (\<^verbatim>\<open>_DefaultAllocator\<close>), and their operations come in any order, twice on the same buffer
  or after it was freed. A state is the allocator with the list of the buffers made so far; a
  buffer is named by its position.
\<close>

subsection \<open>The system of buffers\<close>

record buf_system =
  allocr :: allocator
  live :: "Buffer list"

text \<open>\<open>LAs\<close> is \<open>As\<close> on a slice its caller has just made.\<close>

datatype life =
    LNewSize nat int | LAs "byte list" nat | LFree nat | LClose nat
  | LIncRef nat | LDecRef nat | LResize nat int | LTruncated nat int | LOp nat bop

definition add_buffer :: "buf_system \<Rightarrow> Buffer \<Rightarrow> allocator \<Rightarrow> buf_system" where
  "add_buffer st b al = \<lparr>allocr = al, live = live st @ [b]\<rparr>"

definition set_buffer :: "buf_system \<Rightarrow> nat \<Rightarrow> Buffer \<Rightarrow> allocator \<Rightarrow> buf_system" where
  "set_buffer st i b al = \<lparr>allocr = al, live = (live st)[i := b]\<rparr>"

text \<open>A step on a position no buffer has is a call through a nil pointer.\<close>

fun life_step :: "buf_system \<Rightarrow> life \<Rightarrow> buf_system go" where
  "life_step st (LNewSize choice sz) =
     (case NewSize choice sz (allocr st) of
        Inl p \<Rightarrow> Inl p
      | Inr (b, al') \<Rightarrow> Inr (add_buffer st b al'))"
| "life_step st (LAs cs n) =
     (let al = allocr st
      in Inr (add_buffer st (As (Slice (next_array al) cs (min n (length cs))))
                (al\<lparr>next_array := Suc (next_array al)\<rparr>)))"
| "life_step st (LFree i) =
     (if i \<ge> length (live st) then Inr st
      else case Free_Buffer (live st ! i) (allocr st) of
             Inl p \<Rightarrow> Inl p
           | Inr (b', al') \<Rightarrow> Inr (set_buffer st i b' al'))"
| "life_step st (LClose i) =
     (if i \<ge> length (live st) then Inl NilDereference
      else case Close_Buffer (live st ! i) (allocr st) of
             Inl p \<Rightarrow> Inl p
           | Inr (_, b', al') \<Rightarrow> Inr (set_buffer st i b' al'))"
| "life_step st (LIncRef i) =
     (if i \<ge> length (live st) then Inl NilDereference
      else Inr (set_buffer st i (IncRef (live st ! i)) (allocr st)))"
| "life_step st (LDecRef i) =
     (if i \<ge> length (live st) then Inl NilDereference
      else Inr (set_buffer st i (DecRef (live st ! i)) (allocr st)))"
| "life_step st (LResize i n) =
     (if i \<ge> length (live st) then Inl NilDereference
      else Inr (set_buffer st i (snd (Resize (live st ! i) n)) (allocr st)))"
| "life_step st (LTruncated i n) =
     (if i \<ge> length (live st) then Inl NilDereference
      else case Truncated (live st ! i) n of
             Inl p \<Rightarrow> Inl p
           | Inr b' \<Rightarrow> Inr (set_buffer st i b' (allocr st)))"
| "life_step st (LOp i x) =
     (if i \<ge> length (live st) then Inl NilDereference
      else case b_step (live st ! i) x of
             Inl p \<Rightarrow> Inl p
           | Inr (_, b') \<Rightarrow> Inr (set_buffer st i b' (allocr st)))"

fun life_run :: "buf_system \<Rightarrow> life list \<Rightarrow> buf_system go" where
  "life_run st [] = Inr st"
| "life_run st (x # xs) = (case life_step st x of Inl p \<Rightarrow> Inl p | Inr st' \<Rightarrow> life_run st' xs)"

definition init_system :: buf_system where
  "init_system = \<lparr>allocr = newDefaultAllocator, live = []\<rparr>"

subsection \<open>Who owns an array\<close>

fun slice_ids :: "slice \<Rightarrow> nat list" where
  "slice_ids NilSlice = []"
| "slice_ids (Slice a cs n) = [a]"

abbreviation buf_ids :: "Buffer \<Rightarrow> nat list" where
  "buf_ids b \<equiv> slice_ids (data b)"

text \<open>A managed buffer that still has its array has one that \<open>Put\<close> takes back.\<close>

definition returnable :: "Buffer \<Rightarrow> bool" where
  "returnable b \<longleftrightarrow> (managed b \<longrightarrow> data b = NilSlice \<or> length (slice_cells (data b)) \<in> set class_sizes)"

definition owned_by :: "Buffer list \<Rightarrow> nat list" where
  "owned_by bs = concat (map buf_ids bs)"

text \<open>No array is owned twice, none that is owned is in a pool, and every owned array is older
  than the next fresh one.\<close>

definition life_inv :: "buf_system \<Rightarrow> bool" where
  "life_inv st \<longleftrightarrow> alloc_wf (allocr st)
     \<and> distinct (owned_by (live st))
     \<and> (\<forall>a\<in>set (owned_by (live st)). a < next_array (allocr st) \<and> a \<notin> pool_ids (allocr st))
     \<and> (\<forall>b\<in>set (live st). returnable b)"

lemma life_inv_init: "life_inv init_system"
  using alloc_wf_new by (simp add: life_inv_def init_system_def owned_by_def)

subsection \<open>Putting an array back\<close>

text \<open>\<open>Free\<close> on a returnable buffer never panics; the pools gain at most the buffer's array.\<close>

lemma Free_Buffer_facts:
  assumes wf: "alloc_wf al" and ret: "returnable b"
    and own: "\<forall>a\<in>set (buf_ids b). a < next_array al \<and> a \<notin> pool_ids al"
  obtains b' al' where "Free_Buffer b al = Inr (b', al')" and "alloc_wf al'"
    and "next_array al' = next_array al"
    and "(b', al') = (b, al) \<or> (buf_ids b' = [] \<and> pool_ids al' \<subseteq> pool_ids al \<union> set (buf_ids b))"
    and "returnable b'"
proof (cases "data b = NilSlice \<or> ref b > 0")
  case True
  with that [of b al] wf ret show thesis by (simp add: Free_Buffer_def)
next
  case False
  then obtain a cs n where d: "data b = Slice a cs n" by (cases "data b") auto
  have nil: "returnable (b\<lparr>data := NilSlice\<rparr>)" by (simp add: returnable_def)
  show thesis
  proof (cases "managed b \<and> n \<noteq> 0")
    case False
    with \<open>\<not> (data b = NilSlice \<or> ref b > 0)\<close> d
    have "Free_Buffer b al = Inr (b\<lparr>data := NilSlice\<rparr>, al)"
      by (cases "managed b") (simp_all add: Free_Buffer_def put_def)
    with that [of "b\<lparr>data := NilSlice\<rparr>" al] wf nil show thesis by auto
  next
    case True
    with ret d have "length cs \<in> set class_sizes" by (simp add: returnable_def)
    then obtain i where i: "i < 11" "length cs = 2 ^ (i + 6)" by (auto simp: set_class_sizes)
    have a: "a \<notin> pool_ids al" "a < next_array al" using own d by simp_all
    note pp = pool_Put_facts [OF wf i a]
    have "Free_Buffer b al = Inr (b\<lparr>data := NilSlice\<rparr>, pool_Put (a, cs) i al)"
      using \<open>\<not> (data b = NilSlice \<or> ref b > 0)\<close> True d
      by (simp add: Free_Buffer_def put_def alloc_Put_class [OF alloc_wf_heap [OF wf] i])
    with that [of "b\<lparr>data := NilSlice\<rparr>" "pool_Put (a, cs) i al"] pp nil d show thesis by auto
  qed
qed

text \<open>The same with less known of the allocator, for the clients that only need no panic.\<close>

lemma Free_Buffer_returns:
  assumes heap: "heap_ok al" and ret: "returnable b"
  shows "\<exists>b' al'. Free_Buffer b al = Inr (b', al') \<and> heap_ok al' \<and> rpos b' = rpos b \<and> wpos b' = wpos b
    \<and> returnable b' \<and> (b' = b \<or> data b' = NilSlice)"
proof (cases "data b = NilSlice \<or> ref b > 0")
  case True
  with heap ret show ?thesis by (simp add: Free_Buffer_def)
next
  case False
  then obtain a cs n where d: "data b = Slice a cs n" by (cases "data b") auto
  have nil: "returnable (b\<lparr>data := NilSlice\<rparr>)" by (simp add: returnable_def)
  show ?thesis
  proof (cases "managed b \<and> n \<noteq> 0")
    case nm: False
    with False d have "Free_Buffer b al = Inr (b\<lparr>data := NilSlice\<rparr>, al)"
      by (cases "managed b") (simp_all add: Free_Buffer_def put_def)
    with heap nil show ?thesis by simp
  next
    case True
    with ret d have "length cs \<in> set class_sizes" by (simp add: returnable_def)
    then obtain i where i: "i < 11" "length cs = 2 ^ (i + 6)" by (auto simp: set_class_sizes)
    have "Free_Buffer b al = Inr (b\<lparr>data := NilSlice\<rparr>, pool_Put (a, cs) i al)"
      using False True d by (simp add: Free_Buffer_def put_def alloc_Put_class [OF heap i])
    with pool_Put_heap [OF heap i] nil show ?thesis by simp
  qed
qed

subsection \<open>The invariant is kept\<close>

lemma distinct_concat_update:
  assumes "distinct (concat xss)" and "i < length xss" and "ys = xss ! i \<or> ys = []"
  shows "distinct (concat (xss[i := ys]))"
  using assms unfolding concat_update(1) [OF assms(2)] concat_update(2) [OF assms(2)] by auto

lemma set_concat_update:
  assumes "i < length xss" and "ys = xss ! i \<or> ys = []"
  shows "set (concat (xss[i := ys])) \<subseteq> set (concat xss)"
  using assms unfolding concat_update(1) [OF assms(1)] concat_update(2) [OF assms(1)] by auto

lemma owned_nth: "i < length bs \<Longrightarrow> a \<in> set (buf_ids (bs ! i)) \<Longrightarrow> a \<in> set (owned_by bs)"
  by (auto simp: owned_by_def)

text \<open>A step that changes one buffer and at most gives its array up keeps the invariant.\<close>

lemma life_inv_set_buffer:
  assumes inv: "life_inv st" and i: "i < length (live st)" and wf: "alloc_wf al'"
    and next_eq: "next_array al' = next_array (allocr st)"
    and kept: "(buf_ids b' = buf_ids (live st ! i) \<and> pool_ids al' = pool_ids (allocr st))
      \<or> (buf_ids b' = [] \<and> pool_ids al' \<subseteq> pool_ids (allocr st) \<union> set (buf_ids (live st ! i)))"
    and ret: "returnable b'"
  shows "life_inv (set_buffer st i b' al')"
proof -
  let ?old = "live st" and ?new = "(live st)[i := b']"
  have li: "i < length (map buf_ids ?old)" using i by simp
  have new_eq: "owned_by ?new = concat ((map buf_ids ?old)[i := buf_ids b'])"
    by (simp add: owned_by_def map_update)
  have nth: "map buf_ids ?old ! i = buf_ids (?old ! i)" using i by simp
  have cases': "buf_ids b' = map buf_ids ?old ! i \<or> buf_ids b' = []" using kept nth by auto
  have dist: "distinct (owned_by ?old)" and own: "\<forall>a\<in>set (owned_by ?old). a < next_array (allocr st)
      \<and> a \<notin> pool_ids (allocr st)"
    using inv by (simp_all add: life_inv_def)
  have d: "distinct (owned_by ?new)"
    unfolding new_eq using dist li cases' unfolding owned_by_def by (rule distinct_concat_update)
  have sub: "set (owned_by ?new) \<subseteq> set (owned_by ?old)"
    unfolding new_eq using li cases' unfolding owned_by_def by (rule set_concat_update)
  have gone: "set (owned_by ?new) \<inter> set (buf_ids (?old ! i)) = {}" if "buf_ids b' = []"
  proof -
    have new': "owned_by ?new = concat (take i (map buf_ids ?old)) @ concat (drop (Suc i) (map buf_ids ?old))"
      by (simp only: new_eq concat_update(1) [OF li] that append_Nil)
    have old': "owned_by ?old = concat (take i (map buf_ids ?old)) @ buf_ids (?old ! i)
        @ concat (drop (Suc i) (map buf_ids ?old))"
      using concat_update(2) [OF li] unfolding owned_by_def nth .
    from dist show ?thesis unfolding new' old' by auto
  qed
  have pools: "\<forall>a\<in>set (owned_by ?new). a \<notin> pool_ids al'"
    using kept own sub gone by blast
  have "\<forall>b\<in>set ?new. returnable b"
    using inv ret set_update_subset_insert [of ?old i b'] unfolding life_inv_def by blast
  then show ?thesis
    using d sub own pools wf unfolding life_inv_def by (auto simp: set_buffer_def next_eq)
qed

text \<open>A step that makes a buffer keeps it when the new array is no one else's.\<close>

lemma life_inv_add_buffer:
  assumes inv: "life_inv st" and wf: "alloc_wf al'"
    and mono: "next_array (allocr st) \<le> next_array al'"
    and pools: "pool_ids al' \<subseteq> pool_ids (allocr st)"
    and new: "buf_ids b = [] \<or> (\<exists>a. buf_ids b = [a] \<and> a < next_array al' \<and> a \<notin> pool_ids al'
        \<and> (a \<in> pool_ids (allocr st) \<or> next_array (allocr st) \<le> a))"
    and ret: "returnable b"
  shows "life_inv (add_buffer st b al')"
proof -
  have own: "\<forall>a\<in>set (owned_by (live st)). a < next_array (allocr st) \<and> a \<notin> pool_ids (allocr st)"
    and dist: "distinct (owned_by (live st))"
    using inv by (simp_all add: life_inv_def)
  have app: "owned_by (live st @ [b]) = owned_by (live st) @ buf_ids b"
    by (simp add: owned_by_def)
  have "\<forall>a\<in>set (owned_by (live st @ [b])). a < next_array al' \<and> a \<notin> pool_ids al'"
    using own new mono pools unfolding app by fastforce
  moreover have "distinct (owned_by (live st @ [b]))"
    using dist new own unfolding app by fastforce
  ultimately show ?thesis
    using inv wf ret unfolding life_inv_def by (simp add: add_buffer_def)
qed

subsection \<open>The steps\<close>

lemma slice_ids_store [simp]: "slice_ids (slice_store s lo bs) = slice_ids s"
  by (cases s) auto

text \<open>Reading and writing change neither the array nor who manages it.\<close>

definition same_array :: "Buffer \<Rightarrow> Buffer \<Rightarrow> bool" where
  "same_array b b' \<longleftrightarrow> buf_ids b' = buf_ids b \<and> managed b' = managed b
     \<and> length (slice_cells (data b')) = length (slice_cells (data b))
     \<and> (data b' = NilSlice \<longleftrightarrow> data b = NilSlice)"

lemma slice_store_Nil [simp]: "slice_store s lo bs = NilSlice \<longleftrightarrow> s = NilSlice"
  by (cases s) auto

lemma same_array_refl [simp]: "same_array b b"
  by (simp add: same_array_def)

lemma same_array_returnable: "same_array b b' \<Longrightarrow> returnable b \<Longrightarrow> returnable b'"
  by (auto simp: same_array_def returnable_def)

text \<open>Nor the references to the buffer, nor the length of its slice.\<close>

definition same_owner :: "Buffer \<Rightarrow> Buffer \<Rightarrow> bool" where
  "same_owner b b' \<longleftrightarrow> same_array b b' \<and> ref b' = ref b \<and> slice_len (data b') = slice_len (data b)"

lemma same_owner_refl [simp]: "same_owner b b"
  by (simp add: same_owner_def)

lemma same_owner_trans: "same_owner a b \<Longrightarrow> same_owner b c \<Longrightarrow> same_owner a c"
  by (simp add: same_owner_def same_array_def)

lemma same_array_stored [simp]: "same_array b (stored b bs n)"
  by (simp add: same_array_def)

lemma same_array_consumed [simp]: "same_array b (consumed b n)"
  by (simp add: same_array_def)

lemma same_owner_moved [simp]: "same_owner b (stored b bs n)" "same_owner b (consumed b n)"
  by (simp_all add: same_owner_def)

lemma b_step_same_owner:
  assumes "b_step b x = Inr (obs, b')"
  shows "same_owner b b'"
proof (cases x)
  case (OpWrite bs)
  then show ?thesis using assms
    by (auto simp: Write_Buffer_def Let_def split: if_splits sum.splits)
next
  case (OpWriteString s)
  then show ?thesis using assms
    by (auto simp: WriteString_Buffer_def Let_def split: if_splits sum.splits)
next
  case (OpWriteByte c)
  then show ?thesis using assms
    by (auto simp: WriteByte_Buffer_def split: if_splits sum.splits)
next
  case (OpRead k)
  then show ?thesis using assms
    by (auto simp: Read_def Let_def split: if_splits sum.splits)
next
  case OpReadByte
  then show ?thesis using assms
    by (auto simp: ReadByte_def Let_def split: if_splits sum.splits)
next
  case (OpDiscard n)
  then show ?thesis using assms
    by (auto simp: Discard_def Let_def same_array_def same_owner_def split: if_splits)
next
  case (OpPeek n)
  then show ?thesis using assms by (auto split: sum.splits)
next
  case OpCopyBytes
  then show ?thesis using assms by (auto split: sum.splits)
next
  case OpReset
  then show ?thesis using assms by (auto simp: Reset_def same_array_def same_owner_def)
next
  case (OpTruncated n)
  then show ?thesis using assms by (auto simp: Truncated_def same_array_def same_owner_def split: if_splits)
qed

lemma b_step_same_array: "b_step b x = Inr (obs, b') \<Longrightarrow> same_array b b'"
  using b_step_same_owner [of b x obs b'] by (simp add: same_owner_def)

lemma NewSize_facts:
  assumes wf: "alloc_wf al" and sz: "0 \<le> sz" "sz \<le> max_int"
  obtains b al' where "NewSize choice sz al = Inr (b, al')" and "alloc_wf al'"
    and "next_array al \<le> next_array al'" and "pool_ids al' \<subseteq> pool_ids al"
    and "buf_ids b = [] \<or> (\<exists>a. buf_ids b = [a] \<and> a < next_array al' \<and> a \<notin> pool_ids al'
        \<and> (a \<in> pool_ids al \<or> next_array al \<le> a))"
    and "returnable b" and "buf_wf b" and "contents b = []" and "room b = nat sz"
    and "bsize b = sz" and "ref b = 0"
proof -
  consider (zero) "sz = 0" | (big) "65535 < sz" | (pooled) "0 < sz" "sz \<le> 65535" using sz by linarith
  then show thesis
  proof cases
    case zero
    with that [of zero_Buffer al] wf show thesis
      by (simp add: NewSize_def zero_Buffer_def returnable_def buf_wf_def contents_def room_def slice_cap_def)
  next
    case big
    let ?al = "al\<lparr>next_array := Suc (next_array al)\<rparr>"
    have same: "pool_ids ?al = pool_ids al" by (simp add: pool_ids_def)
    have "alloc_wf ?al" using wf unfolding alloc_wf_def same by (auto simp: less_SucI)
    moreover have "next_array al \<notin> pool_ids al" using wf by (auto simp: alloc_wf_def)
    ultimately show thesis
      using big sz same that [of "zero_Buffer\<lparr>data := Slice (next_array al) (replicate (nat sz) 0) (nat sz), bsize := sz\<rparr>" ?al]
      by (simp add: NewSize_def zero_Buffer_def BufferMaxManagedSize_def returnable_def buf_wf_def contents_def
          room_def slice_cap_def)
  next
    case pooled
    then have "0 < sz" "sz \<le> 65536" by simp_all
    then obtain a cs al' where get: "alloc_Get choice sz al = Inr (Slice a cs (nat sz), al')"
      and f: "nat sz \<le> length cs" "length cs \<in> set class_sizes" "alloc_wf al'" "pool_ids al' = pool_ids al - {a}"
        "a < next_array al'" "next_array al \<le> next_array al'" "a \<in> pool_ids al \<or> a = next_array al"
      using alloc_Get_facts [OF wf, of sz choice] by metis
    let ?b = "zero_Buffer\<lparr>data := Slice a cs (nat sz), bsize := sz, managed := True\<rparr>"
    have "NewSize choice sz al = Inr (?b, al')"
      using pooled get by (simp add: NewSize_def BufferMaxManagedSize_def get_def)
    moreover have "buf_ids ?b = [a]"
      and "returnable ?b"
      and "buf_wf ?b"
      and "contents ?b = []"
      and "room ?b = nat sz"
      and "bsize ?b = sz"
      and "ref ?b = 0"
      using f(1,2) pooled by (simp_all add: zero_Buffer_def returnable_def buf_wf_def contents_def room_def slice_cap_def nat_le_iff)
    moreover have "next_array al \<le> a" if "a \<notin> pool_ids al" using f(7) that by simp
    moreover have "a \<notin> pool_ids al'" "pool_ids al' \<subseteq> pool_ids al" using f(4) by auto
    ultimately show thesis using that f(3,5,6) by blast
  qed
qed

lemma NewSize_heap:
  assumes heap: "heap_ok al" and sz: "0 < sz" "sz \<le> 65535"
  shows "\<exists>b al'. NewSize choice sz al = Inr (b, al') \<and> heap_ok al' \<and> returnable b \<and> buf_wf b
    \<and> contents b = [] \<and> room b = nat sz"
proof -
  have "0 < sz" "sz \<le> 65536" using sz by simp_all
  from alloc_Get_heap [OF heap this, of choice] obtain a cs al'
    where get: "alloc_Get choice sz al = Inr (Slice a cs (nat sz), al')"
      and f: "nat sz \<le> length cs" "length cs \<in> set class_sizes" "heap_ok al'" by blast
  have "NewSize choice sz al = Inr (zero_Buffer\<lparr>data := Slice a cs (nat sz), bsize := sz, managed := True\<rparr>, al')"
    using sz get by (simp add: NewSize_def BufferMaxManagedSize_def get_def)
  then show ?thesis using f sz
    by (simp add: zero_Buffer_def returnable_def buf_wf_def contents_def room_def slice_cap_def nat_le_iff)
qed

text \<open>
  The arrays in the pools, and those that a \<open>Get\<close> made because it took none of them: what a buffer takes
  from the allocator and what it gives back add up.
\<close>

definition pooled :: "allocator \<Rightarrow> nat multiset" where
  "pooled al = mset (map fst (concat (buffers al)))"

definition made :: "allocator \<Rightarrow> allocator \<Rightarrow> nat multiset" where
  "made al al' = mset [next_array al..<next_array al']"

text \<open>A buffer that has an array to give back.\<close>

definition lent :: "Buffer \<Rightarrow> bool" where
  "lent b \<longleftrightarrow> returnable b \<and> managed b \<and> ref b = 0 \<and> slice_len (data b) \<noteq> 0"

lemma lent_same_owner: "same_owner b b' \<Longrightarrow> lent b \<Longrightarrow> lent b'"
  by (auto simp: lent_def same_owner_def same_array_def returnable_def)

lemma pooled_update:
  assumes "i < length (buffers al)"
  shows "pooled (al\<lparr>buffers := (buffers al)[i := ys]\<rparr>) + mset (map fst (buffers al ! i)) = pooled al + mset (map fst ys)"
proof -
  have all: "pooled al = mset (map fst (concat (take i (buffers al)))) + mset (map fst (buffers al ! i))
      + mset (map fst (concat (drop (Suc i) (buffers al))))"
    unfolding pooled_def by (subst concat_update(2) [OF assms]) (simp add: ac_simps)
  then show ?thesis by (simp add: pooled_def concat_update(1) [OF assms] all ac_simps)
qed

lemma pool_Get_pooled:
  assumes i: "i < length (buffers al)" and get: "pool_Get c i al = ((a, cs), al')"
  shows "pooled al' + {#a#} = pooled al + made al al'"
proof (cases "c < length (buffers al ! i)")
  case True
  let ?xs = "buffers al ! i" let ?ys = "take c ?xs @ drop (Suc c) ?xs"
  have al': "al' = al\<lparr>buffers := (buffers al)[i := ?ys]\<rparr>" and x: "?xs ! c = (a, cs)"
    using get True by (simp_all add: pool_Get_def Let_def)
  define T D where "T = take c ?xs" and "D = drop (Suc c) ?xs"
  have "?xs = T @ (a, cs) # D" using id_take_nth_drop [OF True] x by (simp add: T_def D_def)
  then have "mset (map fst ?xs) = mset (map fst (T @ D)) + {#a#}" by simp
  with pooled_update [OF i, of "T @ D"] show ?thesis by (simp add: al' made_def T_def [symmetric] D_def [symmetric])
next
  case False
  then have "a = next_array al" "al' = al\<lparr>next_array := Suc (next_array al)\<rparr>"
    using get by (auto simp: pool_Get_def Let_def)
  then show ?thesis by (simp add: pooled_def made_def)
qed

lemma NewSize_lent:
  assumes heap: "heap_ok al" and sz: "0 < sz" "sz \<le> 65535" and new: "NewSize choice sz al = Inr (b, al')"
  shows "lent b \<and> pooled al' + mset (buf_ids b) = pooled al + made al al' \<and> next_array al \<le> next_array al'"
proof -
  have "sz \<le> 65536" using sz by simp
  then obtain i where i: "i < 11" "pool_index sz = of_nat i" "sz \<le> 2 ^ (i + 6)" using pool_index_cases [of sz] sz(1) by blast
  obtain a cs al1 where get: "pool_Get choice i al = ((a, cs), al1)" by (metis surj_pair)
  note f = pool_Get_heap [OF heap i(1) get]
  have l: "length (buffers al) = 11" using heap by (simp add: heap_ok_def)
  with sz i f(1) get have "alloc_Get choice sz al = Inr (Slice a cs (nat sz), al1)"
    by (simp add: alloc_Get_def switch_class_of_nat)
  then have b: "b = zero_Buffer\<lparr>data := Slice a cs (nat sz), bsize := sz, managed := True\<rparr>" "al' = al1"
    using new sz by (simp_all add: NewSize_def BufferMaxManagedSize_def get_def)
  have "length cs \<in> set class_sizes" using f(1) i(1) by (auto simp: set_class_sizes)
  moreover have "pooled al1 + {#a#} = pooled al + made al al1" using pool_Get_pooled [OF _ get] i(1) l by simp
  moreover have "next_array al \<le> next_array al1" using get by (auto simp: pool_Get_def Let_def split: if_splits)
  ultimately show ?thesis using sz by (simp add: b lent_def returnable_def zero_Buffer_def)
qed

lemma Free_lent:
  assumes heap: "heap_ok al" and l: "lent b"
  shows "\<exists>b' al'. Free_Buffer b al = Inr (b', al') \<and> heap_ok al' \<and> pooled al' = pooled al + mset (buf_ids b)
    \<and> next_array al' = next_array al"
proof -
  obtain a cs n where d: "data b = Slice a cs n" "n \<noteq> 0" using l by (cases "data b") (auto simp: lent_def)
  then obtain i where i: "i < 11" "length cs = 2 ^ (i + 6)" using l by (auto simp: lent_def returnable_def set_class_sizes)
  have "Free_Buffer b al = Inr (b\<lparr>data := NilSlice\<rparr>, pool_Put (a, cs) i al)"
    using l d by (simp add: Free_Buffer_def put_def lent_def alloc_Put_class [OF heap i])
  moreover have "pooled (pool_Put (a, cs) i al) = pooled al + {#a#}"
    using pooled_update [of i al "(a, cs) # buffers al ! i"] heap i(1) by (simp add: pool_Put_def heap_ok_def)
  ultimately show ?thesis using pool_Put_heap [OF heap i] d(1) by (simp add: pool_Put_def)
qed

lemma NewSize_negative: "sz < 0 \<Longrightarrow> NewSize choice sz al = Inl (PanicMsg ''negative buffer size'')"
  by (simp add: NewSize_def)

text \<open>Sizes are Go \<open>int\<close>s.\<close>

fun life_ok :: "life \<Rightarrow> bool" where
  "life_ok (LNewSize choice sz) = is_int sz"
| "life_ok _ = True"

lemma pool_ids_not_next: "alloc_wf al \<Longrightarrow> next_array al \<notin> pool_ids al"
  by (auto simp: alloc_wf_def)

lemma alloc_wf_next: "alloc_wf al \<Longrightarrow> alloc_wf (al\<lparr>next_array := Suc (next_array al)\<rparr>)"
  by (auto simp: alloc_wf_def pool_ids_def less_SucI)

lemma life_inv_nth:
  assumes "life_inv st" and "i < length (live st)"
  shows "returnable (live st ! i)" and "alloc_wf (allocr st)"
    and "\<forall>a\<in>set (buf_ids (live st ! i)). a < next_array (allocr st) \<and> a \<notin> pool_ids (allocr st)"
  using assms owned_nth [OF assms(2)] by (auto simp: life_inv_def)

lemma life_inv_same_array:
  assumes inv: "life_inv st" and i: "i < length (live st)" and same: "same_array (live st ! i) b'"
  shows "life_inv (set_buffer st i b' (allocr st))"
proof (rule life_inv_set_buffer [OF inv i])
  show "alloc_wf (allocr st)" using inv by (simp add: life_inv_def)
  show "buf_ids b' = buf_ids (live st ! i) \<and> pool_ids (allocr st) = pool_ids (allocr st)
      \<or> buf_ids b' = [] \<and> pool_ids (allocr st) \<subseteq> pool_ids (allocr st) \<union> set (buf_ids (live st ! i))"
    using same by (simp add: same_array_def)
  show "returnable b'" using same life_inv_nth(1) [OF inv i] by (rule same_array_returnable)
qed simp

lemma Free_step:
  assumes inv: "life_inv st" and i: "i < length (live st)"
  obtains b' al' where "Free_Buffer (live st ! i) (allocr st) = Inr (b', al')"
    and "life_inv (set_buffer st i b' al')"
proof -
  note nth = life_inv_nth [OF inv i]
  obtain b' al' where f: "Free_Buffer (live st ! i) (allocr st) = Inr (b', al')" "alloc_wf al'"
      "next_array al' = next_array (allocr st)"
      "(b', al') = (live st ! i, allocr st)
        \<or> (buf_ids b' = [] \<and> pool_ids al' \<subseteq> pool_ids (allocr st) \<union> set (buf_ids (live st ! i)))"
      "returnable b'"
    by (rule Free_Buffer_facts [OF nth(2,1,3)])
  have "life_inv (set_buffer st i b' al')"
    using inv i f(2,3) _ f(5) by (rule life_inv_set_buffer) (use f(4) in auto)
  with f(1) show thesis by (rule that)
qed

lemma life_step_inv [step_inv]:
  assumes inv: "life_inv st" and ok: "life_ok x" and step: "life_step st x = Inr st'"
  shows "life_inv st'"
proof (cases x)
  case (LNewSize choice sz)
  show ?thesis
  proof (cases "sz < 0")
    case True
    with LNewSize step show ?thesis by (simp add: NewSize_negative)
  next
    case False
    with ok LNewSize have sz: "0 \<le> sz" "sz \<le> max_int" by (auto simp: is_int_def)
    have wf: "alloc_wf (allocr st)" using inv by (simp add: life_inv_def)
    obtain b al' where n: "NewSize choice sz (allocr st) = Inr (b, al')" "alloc_wf al'"
        "next_array (allocr st) \<le> next_array al'" "pool_ids al' \<subseteq> pool_ids (allocr st)"
        "buf_ids b = [] \<or> (\<exists>a. buf_ids b = [a] \<and> a < next_array al' \<and> a \<notin> pool_ids al'
          \<and> (a \<in> pool_ids (allocr st) \<or> next_array (allocr st) \<le> a))" "returnable b"
      using NewSize_facts [OF wf sz, of choice] by metis
    with LNewSize step life_inv_add_buffer [OF inv n(2-6)] show ?thesis by simp
  qed
next
  case (LAs cs n)
  have wf: "alloc_wf (allocr st)" using inv by (simp add: life_inv_def)
  let ?al = "(allocr st)\<lparr>next_array := Suc (next_array (allocr st))\<rparr>"
  have "pool_ids ?al = pool_ids (allocr st)" by (simp add: pool_ids_def)
  then have "life_inv (add_buffer st (As (Slice (next_array (allocr st)) cs (min n (length cs)))) ?al)"
    using pool_ids_not_next [OF wf]
    by (intro life_inv_add_buffer [OF inv alloc_wf_next [OF wf]])
      (auto simp: As_def zero_Buffer_def returnable_def)
  with LAs step show ?thesis by (simp add: Let_def)
next
  case (LFree i)
  show ?thesis
  proof (cases "i < length (live st)")
    case True
    obtain b' al' where "Free_Buffer (live st ! i) (allocr st) = Inr (b', al')"
      "life_inv (set_buffer st i b' al')" by (rule Free_step [OF inv True])
    with LFree True step show ?thesis by simp
  next
    case False
    with LFree step inv show ?thesis by simp
  qed
next
  case (LClose i)
  with step have i: "i < length (live st)" by (auto split: if_splits)
  have "life_inv (set_buffer st i (live st ! i) (allocr st))"
    by (rule life_inv_same_array [OF inv i]) simp
  moreover obtain b' al' where "Free_Buffer (live st ! i) (allocr st) = Inr (b', al')"
    "life_inv (set_buffer st i b' al')" by (rule Free_step [OF inv i])
  ultimately show ?thesis
    using LClose step i by (auto simp: Close_Buffer_def split: if_splits)
next
  case (LIncRef i)
  with step show ?thesis
    by (auto simp: IncRef_def same_array_def split: if_splits intro!: life_inv_same_array [OF inv])
next
  case (LDecRef i)
  with step show ?thesis
    by (auto simp: DecRef_def same_array_def split: if_splits intro!: life_inv_same_array [OF inv])
next
  case (LResize i n)
  with step show ?thesis
    by (auto simp: Resize_def same_array_def split: if_splits intro!: life_inv_same_array [OF inv])
next
  case (LTruncated i n)
  with step show ?thesis
    by (auto simp: Truncated_def same_array_def split: if_splits intro!: life_inv_same_array [OF inv])
next
  case (LOp i y)
  with step show ?thesis
    by (auto split: if_splits sum.splits intro!: life_inv_same_array [OF inv] dest: b_step_same_array)
qed

lemma life_run_inv: "life_inv st \<Longrightarrow> list_all life_ok xs \<Longrightarrow> life_run st xs = Inr st' \<Longrightarrow> life_inv st'"
  by (induction xs arbitrary: st) (auto split: sum.splits intro: life_step_inv)

lemma LFree_returns:
  assumes inv: "life_inv st"
  shows "\<exists>st'. life_step st (LFree i) = Inr st'"
proof (cases "i < length (live st)")
  case True
  obtain b' al' where "Free_Buffer (live st ! i) (allocr st) = Inr (b', al')"
    by (rule Free_step [OF inv True])
  with True show ?thesis by simp
qed simp

subsection \<open>Properties\<close>

text \<open>
  C2: whatever is done to buffers and in whatever order (freed twice, freed while referenced, used
  after being freed), where \<open>As\<close> is only given slices that its caller has just made, no two buffers own the same array, no array that a buffer owns is in a pool,
  and \<open>Free\<close> never panics: the allocator always accepts what \<open>Free\<close> hands back.
\<close>

theorem no_array_shared:
  assumes "list_all life_ok xs" and "life_run init_system xs = Inr st"
  shows "distinct (owned_by (live st)) \<and> set (owned_by (live st)) \<inter> pool_ids (allocr st) = {}
    \<and> (\<exists>st'. life_step st (LFree i) = Inr st')"
proof -
  have inv: "life_inv st" using life_inv_init assms by (rule life_run_inv)
  with LFree_returns [OF inv] show ?thesis by (auto simp: life_inv_def)
qed

theorem no_array_shared_witness:
  "\<exists>st. life_run init_system [LNewSize 0 100, LFree 0, LFree 0] = Inr st
     \<and> distinct (owned_by (live st)) \<and> set (owned_by (live st)) \<inter> pool_ids (allocr st) = {}"
proof -
  have new: "\<exists>st1. life_step init_system (LNewSize 0 100) = Inr st1"
    by (rule NewSize_facts [OF alloc_wf_new, of 100 0]) (auto simp: init_system_def)
  then obtain st1 where st1: "life_step init_system (LNewSize 0 100) = Inr st1" by blast
  have inv1: "life_inv st1" using life_inv_init _ st1 by (rule life_step_inv) (simp add: is_int_def)
  then obtain st2 where st2: "life_step st1 (LFree 0) = Inr st2" using LFree_returns by blast
  have inv2: "life_inv st2" using inv1 _ st2 by (rule life_step_inv) simp
  then obtain st3 where st3: "life_step st2 (LFree 0) = Inr st3" using LFree_returns by blast
  have run: "life_run init_system [LNewSize 0 100, LFree 0, LFree 0] = Inr st3"
    using st1 st2 st3 by (simp del: life_step.simps)
  have ok: "list_all life_ok [LNewSize 0 100, LFree 0, LFree 0]" by (simp add: is_int_def)
  from no_array_shared [OF ok run] run show ?thesis by blast
qed

end
