(* ===== verification/BufWriter.thy ===== *)
theory BufWriter
  imports BufferIO
begin

text \<open>
  \<^verbatim>\<open>enhancements/iolib/rw.go\<close>: the buffered writer \<open>BufWriter\<close>, the string-writing helper and the
  locked \<open>SafeWriter\<close>. The underlying writer is a state with its \<open>Write\<close> method as a parameter;
  the optional methods the code asks for by type assertion (\<^verbatim>\<open>io.StringWriter\<close>, \<^verbatim>\<open>io.ReaderFrom\<close>)
  are parameters that may be absent. \<open>None\<close> is "does not return".
\<close>

subsection \<open>The operations\<close>

record 'w BufWriter =
  underlay :: 'w
  wbuf :: Buffer

definition NewBufWriter :: "nat \<Rightarrow> 'w \<Rightarrow> Buffer option \<Rightarrow> allocator \<Rightarrow> ('w BufWriter \<times> allocator) go" where
  "NewBufWriter choice w buffer al =
     (case buffer of
        None \<Rightarrow> (case New choice al of
                   Inl p \<Rightarrow> Inl p
                 | Inr (b, al') \<Rightarrow> Inr (\<lparr>underlay = w, wbuf = b\<rparr>, al'))
      | Some b \<Rightarrow> Inr (\<lparr>underlay = w, wbuf = b\<rparr>, al))"

definition Flush :: "'w write_fn \<Rightarrow> 'w BufWriter \<Rightarrow> (go_error option \<times> 'w BufWriter) go option" where
  "Flush wr bw =
     (if Len (wbuf bw) = 0 then Some (Inr (None, bw))
      else case WriteTo wr (wbuf bw) (underlay bw) of
        None \<Rightarrow> None
      | Some (Inl p) \<Rightarrow> Some (Inl p)
      | Some (Inr (_, err, b', w')) \<Rightarrow>
          (if err \<noteq> None then Some (Inr (Some (Cause err ''flush''), \<lparr>underlay = w', wbuf = b'\<rparr>))
           else Some (Inr (None, \<lparr>underlay = w', wbuf = Reset b'\<rparr>))))"

text \<open>\<open>UnderlayWriter\<close> hands the writer out after a flush whose error it drops.\<close>

definition UnderlayWriter_BufWriter :: "'w write_fn \<Rightarrow> 'w BufWriter \<Rightarrow> ('w \<times> 'w BufWriter) go option" where
  "UnderlayWriter_BufWriter wr bw =
     (case Flush wr bw of
        None \<Rightarrow> None
      | Some (Inl p) \<Rightarrow> Some (Inl p)
      | Some (Inr (_, bw')) \<Rightarrow> Some (Inr (underlay bw', bw')))"

partial_function (option) BufWriter_Write_loop ::
    "'w write_fn \<Rightarrow> 'w BufWriter \<Rightarrow> byte list \<Rightarrow> int \<Rightarrow> (int \<times> go_error option \<times> 'w BufWriter) go option" where
  "BufWriter_Write_loop wr bw p n =
     (if n < int (length p)
      then (case Write_Buffer (wbuf bw) (drop (nat n) p) of
              Inl q \<Rightarrow> Some (Inl q)
            | Inr (nn, e, b') \<Rightarrow>
                (let n' = wrap64 (n + nn); bw' = bw\<lparr>wbuf := b'\<rparr>
                 in if n' = nn then Some (Inr (n', e, bw'))
                    else (case Flush wr bw' of
                            None \<Rightarrow> None
                          | Some (Inl q) \<Rightarrow> Some (Inl q)
                          | Some (Inr (err, bw'')) \<Rightarrow>
                              (if err \<noteq> None then Some (Inr (n', err, bw''))
                               else BufWriter_Write_loop wr bw'' p n'))))
      else Some (Inr (n, None, bw)))"

text \<open>The guard of \<open>Write\<close> asks for the free bytes only when the first comparison fails.\<close>

definition BufWriter_Write ::
    "'w write_fn \<Rightarrow> 'w BufWriter \<Rightarrow> byte list \<Rightarrow> (int \<times> go_error option \<times> 'w BufWriter) go option" where
  "BufWriter_Write wr bw p =
     (case (if int (length p) > Cap (wbuf bw) then Inr True
            else case FreeBytes (wbuf bw) of
                   Inl q \<Rightarrow> Inl q
                 | Inr fr \<Rightarrow> Inr (length p > length fr)) of
        Inl q \<Rightarrow> Some (Inl q)
      | Inr direct \<Rightarrow>
          (if direct
           then (case Flush wr bw of
                   None \<Rightarrow> None
                 | Some (Inl q) \<Rightarrow> Some (Inl q)
                 | Some (Inr (err, bw')) \<Rightarrow>
                     (if err \<noteq> None then Some (Inr (0, Some (Cause err ''flush''), bw'))
                      else case wr (underlay bw') p of
                             Inl q \<Rightarrow> Some (Inl q)
                           | Inr (n, e, w') \<Rightarrow> Some (Inr (n, e, bw'\<lparr>underlay := w'\<rparr>))))
           else BufWriter_Write_loop wr bw p 0))"

text \<open>The function \<open>WriteString\<close>: \<open>sw\<close> is the writer's own \<open>WriteString\<close> method, if it has one.\<close>

definition WriteString_fn :: "'w write_fn \<Rightarrow> 'w write_fn option \<Rightarrow> 'w write_fn" where
  "WriteString_fn wr sw = (case sw of Some f \<Rightarrow> f | None \<Rightarrow> wr)"

definition BufWriter_WriteString ::
    "'w write_fn \<Rightarrow> 'w write_fn option \<Rightarrow> 'w BufWriter \<Rightarrow> byte list
       \<Rightarrow> (int \<times> go_error option \<times> 'w BufWriter) go option" where
  "BufWriter_WriteString wr sw bw s =
     (case WriteString_Buffer (wbuf bw) s of
        Inl q \<Rightarrow> Some (Inl q)
      | Inr (n, err, b') \<Rightarrow>
          (let bw' = bw\<lparr>wbuf := b'\<rparr>
           in if err = None \<or> \<not> IsMulti err [''io.ErrShortBuffer''] then Some (Inr (n, err, bw'))
              else case Flush wr bw' of
                None \<Rightarrow> None
              | Some (Inl q) \<Rightarrow> Some (Inl q)
              | Some (Inr (ferr, bw'')) \<Rightarrow>
                  (if ferr \<noteq> None then Some (Inr (n, ferr, bw''))
                   else if int (length s) \<ge> Cap (wbuf bw'')
                     then (case WriteString_fn wr sw (underlay bw'') s of
                             Inl q \<Rightarrow> Some (Inl q)
                           | Inr (m, e, w') \<Rightarrow> Some (Inr (m, e, bw''\<lparr>underlay := w'\<rparr>)))
                   else (case WriteString_Buffer (wbuf bw'') s of
                           Inl q \<Rightarrow> Some (Inl q)
                         | Inr (m, e, b'') \<Rightarrow> Some (Inr (m, e, bw''\<lparr>wbuf := b''\<rparr>))))))"

definition BufWriter_WriteByte ::
    "'w write_fn \<Rightarrow> 'w BufWriter \<Rightarrow> byte \<Rightarrow> (go_error option \<times> 'w BufWriter) go option" where
  "BufWriter_WriteByte wr bw c =
     (case FreeBytes (wbuf bw) of
        Inl q \<Rightarrow> Some (Inl q)
      | Inr fr \<Rightarrow>
          (case (if length fr = 0 then Flush wr bw else Some (Inr (None, bw))) of
             None \<Rightarrow> None
           | Some (Inl q) \<Rightarrow> Some (Inl q)
           | Some (Inr (err, bw')) \<Rightarrow>
               (if err \<noteq> None then Some (Inr (Some (Cause err ''flush''), bw'))
                else case WriteByte_Buffer (wbuf bw') c of
                       Inl q \<Rightarrow> Some (Inl q)
                     | Inr (e, b') \<Rightarrow> Some (Inr (e, bw'\<lparr>wbuf := b'\<rparr>)))))"

partial_function (option) BufWriter_ReadFrom_loop ::
    "'w write_fn \<Rightarrow> 'r read_fn \<Rightarrow> 'w BufWriter \<Rightarrow> 'r \<Rightarrow> int
       \<Rightarrow> (int \<times> go_error option \<times> 'w BufWriter \<times> 'r) go option" where
  "BufWriter_ReadFrom_loop wr rd bw rs n =
     (case ReadFromOnce rd (wbuf bw) rs of
        Inl q \<Rightarrow> Some (Inl q)
      | Inr (nn, readErr, b', rs') \<Rightarrow>
          (let n' = wrap64 (n + nn)
           in case Flush wr (bw\<lparr>wbuf := b'\<rparr>) of
                None \<Rightarrow> None
              | Some (Inl q) \<Rightarrow> Some (Inl q)
              | Some (Inr (flushErr, bw')) \<Rightarrow>
                  (if flushErr \<noteq> None then Some (Inr (n', Some (Cause flushErr ''flush''), bw', rs'))
                   else if readErr \<noteq> None
                     then Some (Inr (n', if readErr = Some io_EOF then None else readErr, bw', rs'))
                   else BufWriter_ReadFrom_loop wr rd bw' rs' n')))"

definition BufWriter_ReadFrom ::
    "'w write_fn \<Rightarrow> ('w \<Rightarrow> 'r \<Rightarrow> (int \<times> go_error option \<times> 'w \<times> 'r) go option) option \<Rightarrow> 'r read_fn
       \<Rightarrow> 'w BufWriter \<Rightarrow> 'r \<Rightarrow> (int \<times> go_error option \<times> 'w BufWriter \<times> 'r) go option" where
  "BufWriter_ReadFrom wr rf rd bw rs =
     (case Flush wr bw of
        None \<Rightarrow> None
      | Some (Inl q) \<Rightarrow> Some (Inl q)
      | Some (Inr (err, bw')) \<Rightarrow>
          (if err \<noteq> None then Some (Inr (0, Some (Cause err ''flush''), bw', rs))
           else case rf of
                  Some f \<Rightarrow> (case f (underlay bw') rs of
                      None \<Rightarrow> None
                    | Some (Inl q) \<Rightarrow> Some (Inl q)
                    | Some (Inr (n, e, w', rs')) \<Rightarrow> Some (Inr (n, e, bw'\<lparr>underlay := w'\<rparr>, rs')))
                | None \<Rightarrow> BufWriter_ReadFrom_loop wr rd bw' rs 0))"

definition BufWriter_Free :: "'w BufWriter \<Rightarrow> allocator \<Rightarrow> ('w BufWriter \<times> allocator) go" where
  "BufWriter_Free bw al =
     (case Free_Buffer (wbuf bw) al of
        Inl p \<Rightarrow> Inl p
      | Inr (b', al') \<Rightarrow> Inr (bw\<lparr>wbuf := b'\<rparr>, al'))"

definition BufWriter_Close ::
    "('w \<Rightarrow> (go_error option \<times> 'w) go) \<Rightarrow> 'w BufWriter \<Rightarrow> allocator
       \<Rightarrow> (go_error option \<times> 'w BufWriter \<times> allocator) go" where
  "BufWriter_Close close bw al =
     (case Free_Buffer (wbuf bw) al of
        Inl p \<Rightarrow> Inl p
      | Inr (b', al') \<Rightarrow>
          (case close (underlay bw) of
             Inl p \<Rightarrow> Inl p
           | Inr (err, w') \<Rightarrow> Inr (err, \<lparr>underlay = w', wbuf = b'\<rparr>, al')))"

subsection \<open>What flushing does\<close>

lemma Len_zero_iff: "buf_wf b \<Longrightarrow> Len b = 0 \<longleftrightarrow> contents b = []"
proof -
  assume wf: "buf_wf b"
  have "wrap64 (wpos b - rpos b) = wpos b - rpos b"
    using buf_wfD [OF wf] by (intro wrap64_nonneg) auto
  then show "Len b = 0 \<longleftrightarrow> contents b = []"
    using length_contents [OF wf] by (auto simp: Len_def)
qed

definition bw_ok :: "('w \<Rightarrow> bool) \<Rightarrow> 'w BufWriter \<Rightarrow> bool" where
  "bw_ok winv bw \<longleftrightarrow> buf_wf (wbuf bw) \<and> winv (underlay bw)"

text \<open>All the bytes a buffered writer has taken: those that reached the underlying writer, then
  those still in the buffer.\<close>

definition bw_sink :: "('w \<Rightarrow> byte list) \<Rightarrow> 'w BufWriter \<Rightarrow> byte list" where
  "bw_sink sink bw = sink (underlay bw) @ contents (wbuf bw)"

lemma bw_okD: "bw_ok winv bw \<Longrightarrow> buf_wf (wbuf bw)" "bw_ok winv bw \<Longrightarrow> winv (underlay bw)"
  by (simp_all add: bw_ok_def)

lemma WriteString_outcome:
  assumes wf: "buf_wf b" and len: "wpos b + int (length s) \<le> max_int"
  shows "\<exists>b'. WriteString_Buffer b s
      = Inr (if length s \<le> room b then int (length s) else 0,
             if length s \<le> room b then None else Some io_ErrShortBuffer, b')
    \<and> buf_wf b' \<and> contents b' = contents b @ (if length s \<le> room b then s else [])
    \<and> (length s > room b \<longrightarrow> b' = b)"
proof (cases "s = [] \<or> length s > room b")
  case True
  then show ?thesis using wf WriteString_eq [OF wf len] by (cases "s = []") (simp_all add: WriteString_Buffer_def)
next
  case False
  then show ?thesis using stored_facts [OF wf, of "int (length s)" s] by (auto simp: WriteString_eq [OF wf len])
qed

lemma Write_Buffer_bsize: "Write_Buffer b p = Inr (n, e, b') \<Longrightarrow> bsize b' = bsize b"
  by (auto simp: Write_Buffer_def Let_def split: if_splits sum.splits)

lemma WriteString_Buffer_bsize: "WriteString_Buffer b p = Inr (n, e, b') \<Longrightarrow> bsize b' = bsize b"
  by (auto simp: WriteString_Buffer_def Let_def split: if_splits sum.splits)

lemma WriteByte_Buffer_bsize: "WriteByte_Buffer b c = Inr (e, b') \<Longrightarrow> bsize b' = bsize b"
  by (auto simp: WriteByte_Buffer_def split: if_splits sum.splits)

context io_sink_writer begin

lemma Flush_spec:
  assumes ok: "bw_ok winv bw"
  shows "\<exists>err bw'. Flush wr bw = Some (Inr (err, bw')) \<and> bw_ok winv bw' \<and> bw_sink sink bw' = bw_sink sink bw
    \<and> (err = None \<longrightarrow> contents (wbuf bw') = []) \<and> slice_len (data (wbuf bw')) = slice_len (data (wbuf bw))
    \<and> bsize (wbuf bw') = bsize (wbuf bw) \<and> wpos (wbuf bw') \<le> wpos (wbuf bw)
    \<and> (contents (wbuf bw) \<noteq> [] \<longrightarrow> err = None \<longrightarrow> wpos (wbuf bw') = 0)"
proof (cases "contents (wbuf bw) = []")
  case True
  then have "Flush wr bw = Some (Inr (None, bw))" using Len_zero_iff [OF bw_okD(1) [OF ok]] by (simp add: Flush_def)
  with True ok show ?thesis by simp
next
  case False
  obtain n err b' w' ds where wt: "WriteTo wr (wbuf bw) (underlay bw) = Some (Inr (n, err, b', w'))"
    "buf_wf b'" "winv w'" "contents (wbuf bw) = ds @ contents b'" "accepts wr (underlay bw) ds w'"
    "err = None \<longrightarrow> contents b' = []" "wpos b' = wpos (wbuf bw)" "bsize b' = bsize (wbuf bw)"
    "data b' = data (wbuf bw)"
    using WriteTo_returns [OF bw_okD [OF ok] False] by blast
  have sink: "sink w' = sink (underlay bw) @ ds" using accepts_sink [OF wt(5) bw_okD(2) [OF ok]] .
  have L: "Len (wbuf bw) \<noteq> 0" using False Len_zero_iff [OF bw_okD(1) [OF ok]] by simp
  have frame: "wpos (Reset b') \<le> wpos (wbuf bw)" "bsize (Reset b') = bsize (wbuf bw)"
    "slice_len (data (Reset b')) = slice_len (data (wbuf bw))" "wpos (Reset b') = 0"
    using wt buf_wfD(9) [OF bw_okD(1) [OF ok]] by (simp_all add: Reset_def)
  show ?thesis
  proof (cases "err = None")
    case True
    then have "Flush wr bw = Some (Inr (None, \<lparr>underlay = w', wbuf = Reset b'\<rparr>))"
      using L wt(1) by (simp add: Flush_def)
    then show ?thesis using True wt sink Reset_facts [OF wt(2)] frame by (simp add: bw_ok_def bw_sink_def)
  next
    case err: False
    then have "Flush wr bw = Some (Inr (Some (Cause err ''flush''), \<lparr>underlay = w', wbuf = b'\<rparr>))"
      using L wt(1) by (simp add: Flush_def)
    then show ?thesis using wt sink by (simp add: bw_ok_def bw_sink_def)
  qed
qed

lemma Write_loop_fits:
  assumes ok: "bw_ok winv bw" and fits: "length p \<le> room (wbuf bw)"
  shows "\<exists>bw'. BufWriter_Write_loop wr bw p 0 = Some (Inr (int (length p), None, bw'))
    \<and> bw_ok winv bw' \<and> bw_sink sink bw' = bw_sink sink bw @ p \<and> bsize (wbuf bw') = bsize (wbuf bw)"
proof (cases "p = []")
  case True
  then show ?thesis using ok by (subst BufWriter_Write_loop.simps) simp
next
  case False
  note wf = bw_okD(1) [OF ok]
  have n: "int (length p) \<le> max_int"
    using fits room_int [OF wf] buf_wfD [OF wf] by linarith
  have w: "wrap64 (int (length p)) = int (length p)" using n by (intro wrap64_nonneg) auto
  have "Write_Buffer (wbuf bw) p = Inr (int (length p), None, stored (wbuf bw) p (int (length p)))"
    using False fits by (cases p) (simp_all add: Write_eq [OF wf] Let_def)
  then have "BufWriter_Write_loop wr bw p 0
      = Some (Inr (int (length p), None, bw\<lparr>wbuf := stored (wbuf bw) p (int (length p))\<rparr>))"
    using False w by (subst BufWriter_Write_loop.simps) (simp add: Let_def)
  then show ?thesis
    using stored_facts [OF wf, of "int (length p)" p] fits ok by (simp add: bw_ok_def bw_sink_def)
qed

lemma BufWriter_Write_spec:
  assumes ok: "bw_ok winv bw"
  shows "\<exists>n err bw'. BufWriter_Write wr bw p = Some (Inr (n, err, bw')) \<and> bw_ok winv bw'
    \<and> 0 \<le> n \<and> n \<le> int (length p) \<and> bw_sink sink bw' = bw_sink sink bw @ take (nat n) p
    \<and> bsize (wbuf bw') = bsize (wbuf bw)
    \<and> ((\<forall>ws q m ws'. winv ws \<longrightarrow> wr ws q = Inr (m, None, ws') \<longrightarrow> m = int (length q)) \<longrightarrow> err = None
        \<longrightarrow> n = int (length p))"
proof -
  note wf = bw_okD(1) [OF ok]
  obtain fr where fr: "FreeBytes (wbuf bw) = Inr fr" "length fr = room (wbuf bw)" using FreeBytes_eq [OF wf] by blast
  let ?direct = "int (length p) > Cap (wbuf bw) \<or> length p > room (wbuf bw)"
  have D: "(if int (length p) > Cap (wbuf bw) then Inr True
            else case FreeBytes (wbuf bw) of Inl q \<Rightarrow> Inl q | Inr fr \<Rightarrow> Inr (length p > length fr))
      = (Inr ?direct :: panic + bool)"
    using fr by simp
  show ?thesis
  proof (cases ?direct)
    case False
    then show ?thesis using Write_loop_fits [OF ok, of p] D by (auto simp: BufWriter_Write_def)
  next
    case True
    obtain err bw1 where fl: "Flush wr bw = Some (Inr (err, bw1))" "bw_ok winv bw1"
      "bw_sink sink bw1 = bw_sink sink bw" "err = None \<longrightarrow> contents (wbuf bw1) = []"
      "bsize (wbuf bw1) = bsize (wbuf bw)"
      using Flush_spec [OF ok] by blast
    show ?thesis
    proof (cases "err = None")
      case False
      then show ?thesis using True D fl by (auto simp: BufWriter_Write_def)
    next
      case none: True
      obtain n e w' where w: "wr (underlay bw1) p = Inr (n, e, w')" "0 \<le> n" "n \<le> int (length p)" "winv w'"
        using writer_step [OF bw_okD(2) [OF fl(2)]] by blast
      have "sink w' = sink (underlay bw1) @ take (nat n) p" using write_sink [OF bw_okD(2) [OF fl(2)] w(1)] .
      moreover have "BufWriter_Write wr bw p = Some (Inr (n, e, bw1\<lparr>underlay := w'\<rparr>))"
        using True D fl(1) none w(1) by (simp add: BufWriter_Write_def)
      ultimately show ?thesis using none fl w bw_okD(2) [OF fl(2)]
        by (auto simp: bw_ok_def bw_sink_def)
    qed
  qed
qed

lemma BufWriter_WriteByte_spec:
  assumes ok: "bw_ok winv bw"
  shows "\<exists>err bw'. BufWriter_WriteByte wr bw c = Some (Inr (err, bw')) \<and> bw_ok winv bw'
    \<and> bw_sink sink bw' = bw_sink sink bw @ (if err = None then [c] else []) \<and> bsize (wbuf bw') = bsize (wbuf bw)"
proof -
  obtain fr where fr: "FreeBytes (wbuf bw) = Inr fr" "length fr = room (wbuf bw)"
    using FreeBytes_eq [OF bw_okD(1) [OF ok]] by blast
  have "\<exists>err bw1. (if length fr = 0 then Flush wr bw else Some (Inr (None, bw))) = Some (Inr (err, bw1))
      \<and> bw_ok winv bw1 \<and> bw_sink sink bw1 = bw_sink sink bw \<and> bsize (wbuf bw1) = bsize (wbuf bw)"
    using Flush_spec [OF ok] ok by (cases "length fr = 0") auto
  then obtain err bw1 where fl: "(if length fr = 0 then Flush wr bw else Some (Inr (None, bw))) = Some (Inr (err, bw1))"
    "bw_ok winv bw1" "bw_sink sink bw1 = bw_sink sink bw" "bsize (wbuf bw1) = bsize (wbuf bw)" by blast
  note wf1 = bw_okD(1) [OF fl(2)]
  show ?thesis
  proof (cases "err = None")
    case False
    then show ?thesis using fr fl by (auto simp: BufWriter_WriteByte_def)
  next
    case none: True
    obtain e b' where wb: "WriteByte_Buffer (wbuf bw1) c = Inr (e, b')" "buf_wf b'"
      "contents b' = contents (wbuf bw1) @ (if e = None then [c] else [])"
      using WriteByte_eq [OF wf1, of c] stored_facts [OF wf1, of 1 "[c]"] wf1 by (cases "room (wbuf bw1) = 0") auto
    have "BufWriter_WriteByte wr bw c = Some (Inr (e, bw1\<lparr>wbuf := b'\<rparr>))"
      using fr fl(1) none wb(1) by (simp add: BufWriter_WriteByte_def)
    then show ?thesis using fl wb WriteByte_Buffer_bsize [OF wb(1)] by (simp add: bw_ok_def bw_sink_def)
  qed
qed

lemma BufWriter_WriteString_spec:
  assumes ok: "bw_ok winv bw" and sw: "sw = None \<or> sw = Some wr"
    and len: "bsize (wbuf bw) + int (length s) \<le> max_int"
  shows "\<exists>n err bw'. BufWriter_WriteString wr sw bw s = Some (Inr (n, err, bw')) \<and> bw_ok winv bw'
    \<and> 0 \<le> n \<and> n \<le> int (length s) \<and> bw_sink sink bw' = bw_sink sink bw @ take (nat n) s
    \<and> bsize (wbuf bw') = bsize (wbuf bw)"
proof -
  note wf = bw_okD(1) [OF ok]
  have len': "wpos (wbuf bw) + int (length s) \<le> max_int" using len buf_wfD [OF wf] by linarith
  show ?thesis
  proof (cases "length s \<le> room (wbuf bw)")
    case True
    obtain b' where "WriteString_Buffer (wbuf bw) s = Inr (int (length s), None, b')" "buf_wf b'"
      "contents b' = contents (wbuf bw) @ s" using WriteString_outcome [OF wf len'] True by auto
    then show ?thesis using ok WriteString_Buffer_bsize [of "wbuf bw" s]
      by (simp add: BufWriter_WriteString_def Let_def bw_ok_def bw_sink_def)
  next
    case False
    then have ws: "WriteString_Buffer (wbuf bw) s = Inr (0, Some io_ErrShortBuffer, wbuf bw)"
      using WriteString_outcome [OF wf len'] by auto
    have multi: "IsMulti (Some io_ErrShortBuffer) [''io.ErrShortBuffer'']" by (simp add: IsMulti_iff errors_Is_def)
    obtain err bw1 where fl: "Flush wr bw = Some (Inr (err, bw1))" "bw_ok winv bw1"
      "bw_sink sink bw1 = bw_sink sink bw" "err = None \<longrightarrow> contents (wbuf bw1) = []"
      "bsize (wbuf bw1) = bsize (wbuf bw)"
      using Flush_spec [OF ok] by blast
    note wf1 = bw_okD(1) [OF fl(2)]
    have len1: "wpos (wbuf bw1) + int (length s) \<le> max_int" using len fl(5) buf_wfD [OF wf1] by linarith
    have rest: "BufWriter_WriteString wr sw bw s = (if err \<noteq> None then Some (Inr (0, err, bw1))
        else if int (length s) \<ge> Cap (wbuf bw1)
          then (case wr (underlay bw1) s of Inl q \<Rightarrow> Some (Inl q)
                | Inr (m, e, w') \<Rightarrow> Some (Inr (m, e, bw1\<lparr>underlay := w'\<rparr>)))
        else (case WriteString_Buffer (wbuf bw1) s of Inl q \<Rightarrow> Some (Inl q)
                | Inr (m, e, b'') \<Rightarrow> Some (Inr (m, e, bw1\<lparr>wbuf := b''\<rparr>))))"
      using ws multi fl(1) sw by (auto simp: BufWriter_WriteString_def WriteString_fn_def Let_def)
    consider "err \<noteq> None" | "err = None" "int (length s) \<ge> Cap (wbuf bw1)"
      | "err = None" "\<not> int (length s) \<ge> Cap (wbuf bw1)" by blast
    then show ?thesis
    proof cases
      case 1
      then show ?thesis using rest fl by (intro exI [of _ 0] exI [of _ err] exI [of _ bw1]) simp
    next
      case 2
      obtain m e w' where w: "wr (underlay bw1) s = Inr (m, e, w')" "0 \<le> m" "m \<le> int (length s)" "winv w'"
        using writer_step [OF bw_okD(2) [OF fl(2)]] by blast
      have "sink w' = sink (underlay bw1) @ take (nat m) s" using write_sink [OF bw_okD(2) [OF fl(2)] w(1)] .
      then show ?thesis using rest 2 fl w by (simp add: bw_ok_def bw_sink_def)
    next
      case 3
      obtain m e b' where "WriteString_Buffer (wbuf bw1) s = Inr (m, e, b')" "buf_wf b'" "0 \<le> m"
        "m \<le> int (length s)" "contents b' = contents (wbuf bw1) @ take (nat m) s"
        using WriteString_outcome [OF wf1 len1] by (cases "length s \<le> room (wbuf bw1)") auto
      then show ?thesis using rest 3 fl WriteString_Buffer_bsize [of "wbuf bw1" s] by (simp add: bw_ok_def bw_sink_def)
    qed
  qed
qed

lemma ReadFrom_loop_copies:
  assumes reader: "io_stream_reader rd rinv pending"
    and progress: "\<And>rs k bs n rs'. rinv rs \<Longrightarrow> 0 < k \<Longrightarrow> rd rs k = Inr (bs, n, None, rs') \<Longrightarrow> 0 < n"
  shows "bw_ok winv bw \<Longrightarrow> rinv rs \<Longrightarrow> 0 \<le> n \<Longrightarrow> n + int (length (pending rs)) \<le> max_int \<Longrightarrow>
    \<exists>n' err bw' rs' ds. BufWriter_ReadFrom_loop wr rd bw rs n = Some (Inr (n', err, bw', rs'))
      \<and> bw_ok winv bw' \<and> rinv rs' \<and> pending rs = ds @ pending rs' \<and> bw_sink sink bw' = bw_sink sink bw @ ds
      \<and> n' = n + int (length ds) \<and> (err = None \<longrightarrow> contents (wbuf bw') = [])"
proof (induction "length (pending rs)" arbitrary: bw rs n rule: less_induct)
  case less
  note wf = bw_okD(1) [OF less.prems(1)]
  have rdr: "io_reader rd rinv" using reader by (rule io_stream_reader.axioms(1))
  obtain nn re b1 rs1 ds1 where once: "ReadFromOnce rd (wbuf bw) rs = Inr (nn, re, b1, rs1)"
    "buf_wf b1" "rinv rs1" "contents b1 = contents (wbuf bw) @ ds1" "nn = int (length ds1)" "delivers rd rs ds1 rs1"
    using io_reader.ReadFromOnce_spec [OF rdr wf less.prems(2)] by blast
  have pend: "pending rs = ds1 @ pending rs1"
    using io_stream_reader.delivers_stream [OF reader once(6) less.prems(2)] .
  have n1: "wrap64 (n + nn) = n + nn" using less.prems(3,4) pend once(5) by (intro wrap64_nonneg) auto
  define bw1 where "bw1 = bw\<lparr>wbuf := b1\<rparr>"
  have ok1: "bw_ok winv bw1" and sink1: "bw_sink sink bw1 = bw_sink sink bw @ ds1"
    using less.prems(1) once by (simp_all add: bw1_def bw_ok_def bw_sink_def)
  obtain fe bw2 where fl: "Flush wr bw1 = Some (Inr (fe, bw2))" "bw_ok winv bw2"
    "bw_sink sink bw2 = bw_sink sink bw1" "fe = None \<longrightarrow> contents (wbuf bw2) = []"
    using Flush_spec [OF ok1] by blast
  have step: "BufWriter_ReadFrom_loop wr rd bw rs n
      = (if fe \<noteq> None then Some (Inr (n + nn, Some (Cause fe ''flush''), bw2, rs1))
         else if re \<noteq> None then Some (Inr (n + nn, if re = Some io_EOF then None else re, bw2, rs1))
         else BufWriter_ReadFrom_loop wr rd bw2 rs1 (n + nn))"
    using once(1) fl(1) n1 by (subst BufWriter_ReadFrom_loop.simps) (simp add: Let_def bw1_def)
  show ?case
  proof (cases "fe \<noteq> None \<or> re \<noteq> None")
    case True
    then show ?thesis using step fl once pend sink1
      by (cases "fe = None") auto
  next
    case False
    then have re: "re = None" "fe = None" by auto
    obtain dst where dst: "FreeBytes (wbuf bw) = Inr dst" "length dst = room (wbuf bw)" using FreeBytes_eq [OF wf] by blast
    have nf: "\<not> Full (wbuf bw)" using once(1) re by (auto simp: ReadFromOnce_def)
    then have "\<exists>bs. rd rs (room (wbuf bw)) = Inr (bs, nn, None, rs1)"
      using once(1) dst re by (auto simp: ReadFromOnce_def split: sum.splits)
    then have "0 < nn" using progress [OF less.prems(2), of "room (wbuf bw)"] nf Full_iff_room [OF wf] by auto
    then have small: "length (pending rs1) < length (pending rs)" using pend once(5) by simp
    have fits: "0 \<le> n + nn" "n + nn + int (length (pending rs1)) \<le> max_int"
      using less.prems(3,4) once(5) pend by auto
    obtain n' err bw' rs' ds where "BufWriter_ReadFrom_loop wr rd bw2 rs1 (n + nn) = Some (Inr (n', err, bw', rs'))"
      "bw_ok winv bw'" "rinv rs'" "pending rs1 = ds @ pending rs'" "bw_sink sink bw' = bw_sink sink bw2 @ ds"
      "n' = n + nn + int (length ds)" "err = None \<longrightarrow> contents (wbuf bw') = []"
      using less.hyps [OF small fl(2) once(3) fits] by blast
    then show ?thesis using step re pend sink1 fl(3) once(5)
      by (intro exI [of _ n'] exI [of _ err] exI [of _ bw'] exI [of _ rs'] exI [of _ "ds1 @ ds"]) simp
  qed
qed

end

subsection \<open>Programs of operations\<close>

text \<open>
  A client's calls on a buffered writer. \<open>bw_step\<close> gives the bytes the call reported as taken (the
  first \<open>n\<close> of the argument; for \<open>WriteByte\<close> the byte, when no error came back) and the next state.
\<close>

datatype bw_op = OpWrite "byte list" | OpWriteString "byte list" | OpWriteByte byte | OpFlush

definition bw_step :: "'w write_fn \<Rightarrow> 'w write_fn option \<Rightarrow> bw_op \<Rightarrow> 'w BufWriter
    \<Rightarrow> (byte list \<times> go_error option \<times> 'w BufWriter) go option" where
  "bw_step wr sw op bw = (case op of
      OpWrite p \<Rightarrow> map_option (map_sum id (\<lambda>(n, e, bw'). (take (nat n) p, e, bw'))) (BufWriter_Write wr bw p)
    | OpWriteString s \<Rightarrow>
        map_option (map_sum id (\<lambda>(n, e, bw'). (take (nat n) s, e, bw'))) (BufWriter_WriteString wr sw bw s)
    | OpWriteByte c \<Rightarrow>
        map_option (map_sum id (\<lambda>(e, bw'). (if e = None then [c] else [], e, bw'))) (BufWriter_WriteByte wr bw c)
    | OpFlush \<Rightarrow> map_option (map_sum id (\<lambda>(e, bw'). ([], e, bw'))) (Flush wr bw))"

fun bw_run :: "'w write_fn \<Rightarrow> 'w write_fn option \<Rightarrow> bw_op list \<Rightarrow> 'w BufWriter
    \<Rightarrow> (byte list \<times> 'w BufWriter) go option" where
  "bw_run wr sw [] bw = Some (Inr ([], bw))"
| "bw_run wr sw (op # ops) bw = (case bw_step wr sw op bw of
      None \<Rightarrow> None
    | Some (Inl q) \<Rightarrow> Some (Inl q)
    | Some (Inr (ds, _, bw')) \<Rightarrow> (case bw_run wr sw ops bw' of
          None \<Rightarrow> None
        | Some (Inl q) \<Rightarrow> Some (Inl q)
        | Some (Inr (es, bw'')) \<Rightarrow> Some (Inr (ds @ es, bw''))))"

text \<open>Strings short enough that \<open>w + len(s)\<close> does not wrap.\<close>

fun op_fits :: "int \<Rightarrow> bw_op \<Rightarrow> bool" where
  "op_fits sz (OpWriteString s) = (sz + int (length s) \<le> max_int)"
| "op_fits sz _ = True"

context io_sink_writer begin

lemma bw_step_spec:
  assumes ok: "bw_ok winv bw" and sw: "sw = None \<or> sw = Some wr" and fits: "op_fits (bsize (wbuf bw)) op"
  shows "\<exists>ds e bw'. bw_step wr sw op bw = Some (Inr (ds, e, bw')) \<and> bw_ok winv bw'
    \<and> bw_sink sink bw' = bw_sink sink bw @ ds \<and> bsize (wbuf bw') = bsize (wbuf bw)"
proof (cases op)
  case (OpWrite p)
  then show ?thesis using BufWriter_Write_spec [OF ok, of p] by (auto simp: bw_step_def)
next
  case (OpWriteString s)
  then show ?thesis using BufWriter_WriteString_spec [OF ok sw, of s] fits by (auto simp: bw_step_def)
next
  case (OpWriteByte c)
  obtain e bw' where "BufWriter_WriteByte wr bw c = Some (Inr (e, bw'))" "bw_ok winv bw'"
    "bw_sink sink bw' = bw_sink sink bw @ (if e = None then [c] else [])" "bsize (wbuf bw') = bsize (wbuf bw)"
    using BufWriter_WriteByte_spec [OF ok, of c] by blast
  then show ?thesis using OpWriteByte by (simp add: bw_step_def)
next
  case OpFlush
  then show ?thesis using Flush_spec [OF ok] by (auto simp: bw_step_def)
qed

lemma bw_run_spec:
  assumes "sw = None \<or> sw = Some wr"
  shows "bw_ok winv bw \<Longrightarrow> list_all (op_fits (bsize (wbuf bw))) ops \<Longrightarrow>
    \<exists>ds bw'. bw_run wr sw ops bw = Some (Inr (ds, bw')) \<and> bw_ok winv bw' \<and> bw_sink sink bw' = bw_sink sink bw @ ds"
proof (induction ops arbitrary: bw)
  case Nil
  then show ?case by simp
next
  case (Cons op ops)
  obtain ds e bw1 where st: "bw_step wr sw op bw = Some (Inr (ds, e, bw1))" "bw_ok winv bw1"
    "bw_sink sink bw1 = bw_sink sink bw @ ds" "bsize (wbuf bw1) = bsize (wbuf bw)"
    using bw_step_spec [OF Cons.prems(1) assms, of op] Cons.prems(2) by auto
  obtain es bw2 where "bw_run wr sw ops bw1 = Some (Inr (es, bw2))" "bw_ok winv bw2"
    "bw_sink sink bw2 = bw_sink sink bw1 @ es"
    using Cons.IH [OF st(2)] Cons.prems(2) st(4) by auto
  then show ?case using st by simp
qed

end

subsection \<open>Properties\<close>

text \<open>
  Over any writer that reports counts in range, \<open>BufWriter.Write\<close> returns, reports a count in
  range, and what reached the writer followed by what is still buffered grows by exactly the
  bytes it reported: none is lost, doubled or reordered by the buffering, on the error paths
  too. If the writer beneath never returns a short count without an error, neither does it.
\<close>

theorem BufWriter_Write_correct:
  assumes "io_sink_writer wr winv sink" and "bw_ok winv bw"
  shows "\<exists>n err bw'. BufWriter_Write wr bw p = Some (Inr (n, err, bw')) \<and> bw_ok winv bw'
    \<and> 0 \<le> n \<and> n \<le> int (length p) \<and> bw_sink sink bw' = bw_sink sink bw @ take (nat n) p
    \<and> ((\<forall>ws q m ws'. winv ws \<longrightarrow> wr ws q = Inr (m, None, ws') \<longrightarrow> m = int (length q)) \<longrightarrow> err = None
        \<longrightarrow> n = int (length p))"
  using io_sink_writer.BufWriter_Write_spec [OF assms, of p] by blast

theorem BufWriter_Write_correct_witness:
  "\<exists>n err bw'. BufWriter_Write Write_Buffer \<lparr>underlay = As (Slice 0 [9, 9] 2)\<lparr>wpos := 0\<rparr>, wbuf = As (Slice 7 [4, 5] 2)\<rparr> [1, 2, 3]
      = Some (Inr (n, err, bw')) \<and> contents (underlay bw') @ contents (wbuf bw') = [4, 5] @ take (nat n) [1, 2, 3]"
proof -
  have "buf_wf (As (Slice 0 [9, 9] 2)\<lparr>wpos := 0\<rparr>)" "buf_wf (As (Slice 7 [4, 5] 2))"
    and c: "contents (As (Slice 0 [9, 9] 2)\<lparr>wpos := 0\<rparr>) = []" "contents (As (Slice 7 [4, 5] 2)) = [4, 5]"
    by (simp_all add: buf_wf_def As_def zero_Buffer_def slice_cap_def contents_def slice_of_def)
  then have "bw_ok buf_wf \<lparr>underlay = As (Slice 0 [9, 9] 2)\<lparr>wpos := 0\<rparr>, wbuf = As (Slice 7 [4, 5] 2)\<rparr>"
    by (simp add: bw_ok_def)
  from BufWriter_Write_correct [OF buffer_writer.io_sink_writer_axioms this, of "[1, 2, 3]"] show ?thesis
    by (auto simp: bw_sink_def c)
qed

text \<open>
  C4: any sequence of \<open>Write\<close>, \<open>WriteString\<close>, \<open>WriteByte\<close> and \<open>Flush\<close> on a buffered writer runs to
  its end, and the stream of bytes behind it (delivered, then buffered) has grown by the bytes
  the calls reported as taken, in order; a flush without error at the end leaves them all with
  the writer beneath.
\<close>

theorem BufWriter_stream:
  assumes "io_sink_writer wr winv sink" and "bw_ok winv bw" and "sw = None \<or> sw = Some wr"
    and "list_all (op_fits (bsize (wbuf bw))) ops"
  shows "\<exists>ds bw'. bw_run wr sw ops bw = Some (Inr (ds, bw')) \<and> bw_ok winv bw'
    \<and> bw_sink sink bw' = bw_sink sink bw @ ds
    \<and> (\<exists>err bw''. Flush wr bw' = Some (Inr (err, bw'')) \<and> bw_sink sink bw'' = bw_sink sink bw'
        \<and> (err = None \<longrightarrow> sink (underlay bw'') = bw_sink sink bw @ ds))"
proof -
  obtain ds bw' where run: "bw_run wr sw ops bw = Some (Inr (ds, bw'))" "bw_ok winv bw'"
    "bw_sink sink bw' = bw_sink sink bw @ ds"
    using io_sink_writer.bw_run_spec [OF assms(1,3,2,4)] by blast
  obtain err bw'' where fl: "Flush wr bw' = Some (Inr (err, bw''))" "bw_sink sink bw'' = bw_sink sink bw'"
    "err = None \<longrightarrow> contents (wbuf bw'') = []"
    using io_sink_writer.Flush_spec [OF assms(1) run(2)] by blast
  have "err = None \<longrightarrow> sink (underlay bw'') = bw_sink sink bw @ ds"
    using fl run(3) by (cases err) (auto simp: bw_sink_def)
  with run fl(1,2) show ?thesis by blast
qed

theorem BufWriter_stream_witness:
  "\<exists>ds bw'. bw_run Write_Buffer None [OpWriteByte 1, OpWrite [2, 3], OpFlush]
      \<lparr>underlay = As (Slice 0 [9, 9] 2)\<lparr>wpos := 0\<rparr>, wbuf = As (Slice 7 [4, 5] 2)\<rparr> = Some (Inr (ds, bw'))
    \<and> contents (underlay bw') @ contents (wbuf bw') = [4, 5] @ ds"
proof -
  have "buf_wf (As (Slice 0 [9, 9] 2)\<lparr>wpos := 0\<rparr>)" "buf_wf (As (Slice 7 [4, 5] 2))"
    and c: "contents (As (Slice 0 [9, 9] 2)\<lparr>wpos := 0\<rparr>) = []" "contents (As (Slice 7 [4, 5] 2)) = [4, 5]"
    by (simp_all add: buf_wf_def As_def zero_Buffer_def slice_cap_def contents_def slice_of_def)
  then have "bw_ok buf_wf \<lparr>underlay = As (Slice 0 [9, 9] 2)\<lparr>wpos := 0\<rparr>, wbuf = As (Slice 7 [4, 5] 2)\<rparr>"
    by (simp add: bw_ok_def)
  from BufWriter_stream [OF buffer_writer.io_sink_writer_axioms this,
      of None "[OpWriteByte 1, OpWrite [2, 3], OpFlush]"] show ?thesis
    by (auto simp: bw_sink_def c simp del: bw_run.simps)
qed

text \<open>
  C5: without a \<open>ReadFrom\<close> method beneath, \<open>BufWriter.ReadFrom\<close> copies a finite stream and returns,
  provided the reader makes progress (a read into a non-empty slice stores a byte or reports an
  error): what it took from the reader is what the stream behind the writer grew by, the count
  is its length, and when no error is reported nothing is left in the buffer.
\<close>

theorem BufWriter_ReadFrom_copies:
  assumes "io_sink_writer wr winv sink" and "bw_ok winv bw"
    and "io_stream_reader rd rinv pending" and "rinv rs"
    and "\<forall>rs k bs n rs'. rinv rs \<longrightarrow> 0 < k \<longrightarrow> rd rs k = Inr (bs, n, None, rs') \<longrightarrow> 0 < n"
    and "int (length (pending rs)) \<le> max_int"
  shows "\<exists>n err bw' rs' ds. BufWriter_ReadFrom wr None rd bw rs = Some (Inr (n, err, bw', rs'))
    \<and> bw_ok winv bw' \<and> rinv rs' \<and> pending rs = ds @ pending rs' \<and> bw_sink sink bw' = bw_sink sink bw @ ds
    \<and> n = int (length ds) \<and> (err = None \<longrightarrow> contents (wbuf bw') = [])"
proof -
  obtain fe bw1 where fl: "Flush wr bw = Some (Inr (fe, bw1))" "bw_ok winv bw1" "bw_sink sink bw1 = bw_sink sink bw"
    using io_sink_writer.Flush_spec [OF assms(1,2)] by blast
  show ?thesis
  proof (cases "fe = None")
    case False
    then have "BufWriter_ReadFrom wr None rd bw rs = Some (Inr (0, Some (Cause fe ''flush''), bw1, rs))"
      using fl(1) by (simp add: BufWriter_ReadFrom_def)
    with fl(2,3) assms(4) show ?thesis by fastforce
  next
    case True
    then have "BufWriter_ReadFrom wr None rd bw rs = BufWriter_ReadFrom_loop wr rd bw1 rs 0"
      using fl(1) by (simp add: BufWriter_ReadFrom_def)
    with io_sink_writer.ReadFrom_loop_copies [OF assms(1,3) _ fl(2) assms(4), of 0] assms(5,6) fl(3)
    show ?thesis by simp
  qed
qed

lemma Read_progress:
  assumes "buf_wf b" and "0 < k" and "Read b k = Inr (bs, n, None, b')"
  shows "0 < n"
  using assms by (auto simp: Read_eq Let_def split: if_splits)

theorem BufWriter_ReadFrom_copies_witness:
  "\<exists>n err bw' src'. BufWriter_ReadFrom Write_Buffer None Read
      \<lparr>underlay = As (Slice 0 [9, 9] 2)\<lparr>wpos := 0\<rparr>, wbuf = As (Slice 7 [4, 5] 2)\<rparr> (As (Slice 3 [6, 7] 2))
      = Some (Inr (n, err, bw', src'))
    \<and> contents (underlay bw') @ contents (wbuf bw') @ contents src' = [4, 5, 6, 7]"
proof -
  have "buf_wf (As (Slice 0 [9, 9] 2)\<lparr>wpos := 0\<rparr>)" "buf_wf (As (Slice 7 [4, 5] 2))"
    and src: "buf_wf (As (Slice 3 [6, 7] 2))"
    and c: "contents (As (Slice 0 [9, 9] 2)\<lparr>wpos := 0\<rparr>) = []" "contents (As (Slice 7 [4, 5] 2)) = [4, 5]"
      "contents (As (Slice 3 [6, 7] 2)) = [6, 7]"
    by (simp_all add: buf_wf_def As_def zero_Buffer_def slice_cap_def contents_def slice_of_def)
  then have ok: "bw_ok buf_wf \<lparr>underlay = As (Slice 0 [9, 9] 2)\<lparr>wpos := 0\<rparr>, wbuf = As (Slice 7 [4, 5] 2)\<rparr>"
    by (simp add: bw_ok_def)
  have "int (length (contents (As (Slice 3 [6, 7] 2)))) \<le> max_int" by (simp add: c)
  with BufWriter_ReadFrom_copies [OF buffer_writer.io_sink_writer_axioms ok
      buffer_reader.io_stream_reader_axioms src] Read_progress
  obtain n err bw' src' ds where r: "BufWriter_ReadFrom Write_Buffer None Read
      \<lparr>underlay = As (Slice 0 [9, 9] 2)\<lparr>wpos := 0\<rparr>, wbuf = As (Slice 7 [4, 5] 2)\<rparr> (As (Slice 3 [6, 7] 2))
      = Some (Inr (n, err, bw', src'))"
    "[6, 7] = ds @ contents src'" "contents (underlay bw') @ contents (wbuf bw') = [4, 5] @ ds"
    by (auto simp: bw_sink_def c)
  then have "contents (underlay bw') @ contents (wbuf bw') @ contents src' = [4, 5, 6, 7]" by simp
  with r(1) show ?thesis by blast
qed

text \<open>
  \<open>Close\<close> does not flush. When it succeeds the bytes still buffered are gone: the writer
  beneath is exactly as its own \<open>Close\<close> left it, whatever the buffer held.
\<close>

theorem BufWriter_Close_drops:
  assumes "ref (wbuf bw) \<le> 0" and "managed (wbuf bw) = False" and "close (underlay bw) = Inr (err, w')"
  shows "\<exists>bw'. BufWriter_Close close bw al = Inr (err, bw', al) \<and> underlay bw' = w'
    \<and> data (wbuf bw') = NilSlice"
  using assms by (auto simp: BufWriter_Close_def Free_Buffer_def)

theorem BufWriter_Close_drops_witness:
  "\<exists>bw'. BufWriter_Close (\<lambda>w. Inr (None, w)) \<lparr>underlay = [], wbuf = As (Slice 7 [4, 5] 2)\<rparr> newDefaultAllocator
      = Inr (None, bw', newDefaultAllocator) \<and> underlay bw' = ([] :: byte list)"
proof -
  have "ref (As (Slice 7 [4, 5] 2)) \<le> 0" "managed (As (Slice 7 [4, 5] 2)) = False"
    by (simp_all add: As_def zero_Buffer_def)
  with BufWriter_Close_drops [of "\<lparr>underlay = [], wbuf = As (Slice 7 [4, 5] 2)\<rparr>" "\<lambda>w. Inr (None, w)"]
  show ?thesis by auto
qed

text \<open>
  A flush that moved every byte but reported an error leaves the positions at the end of
  the buffer; from then on \<open>WriteByte\<close> fails with \<open>ErrShortBuffer\<close> for ever and changes nothing,
  although nothing is pending, because a flush with nothing pending does not reset the positions.
\<close>

theorem WriteByte_stuck:
  assumes "buf_wf (wbuf bw)" and "contents (wbuf bw) = []" and "wpos (wbuf bw) = bsize (wbuf bw)"
  shows "BufWriter_WriteByte wr bw c = Some (Inr (Some io_ErrShortBuffer, bw))"
proof -
  have r: "room (wbuf bw) = 0" using assms(3) by (simp add: room_def)
  obtain fr where fr: "FreeBytes (wbuf bw) = Inr fr" "length fr = 0" using FreeBytes_eq [OF assms(1)] r by auto
  have "Flush wr bw = Some (Inr (None, bw))" using assms Len_zero_iff by (simp add: Flush_def)
  with fr r WriteByte_eq [OF assms(1)] show ?thesis by (simp add: BufWriter_WriteByte_def)
qed

theorem WriteByte_stuck_witness:
  "BufWriter_WriteByte Write_Buffer \<lparr>underlay = zero_Buffer, wbuf = As (Slice 7 [4, 5] 2)\<lparr>rpos := 2\<rparr>\<rparr> 1
    = Some (Inr (Some io_ErrShortBuffer, \<lparr>underlay = zero_Buffer, wbuf = As (Slice 7 [4, 5] 2)\<lparr>rpos := 2\<rparr>\<rparr>))"
  by (rule WriteByte_stuck) (simp_all add: buf_wf_def As_def zero_Buffer_def slice_cap_def contents_def slice_of_def)

end
