(* ===== verification/Objects.thy ===== *)
theory Objects
  imports BufWriter
begin

text \<open>
  \<^verbatim>\<open>enhancements/iolib/underlay\<close>, \<^verbatim>\<open>enhancements/iolib/close.go\<close> and \<^verbatim>\<open>enhancements/iolib/counter\<close>:
  the wrappers around readers and writers. The library finds out what a value can do by type
  assertion, so a value is modelled with its dynamic type: a wrapper of the library, or an
  external object with the list of the optional methods it has. Values form trees (what a wrapper
  holds is inside it), so a wrapper never wraps itself.
\<close>

subsection \<open>Values seen through interfaces\<close>

text \<open>A counter function, by its identity. What it counts is logged by the world.\<close>

type_synonym Func = nat

text \<open>The optional methods of an external object that return no further object.\<close>

record ext_iface =
  is_Reader :: bool
  is_Writer :: bool
  is_Closer :: bool
  is_WriterTo :: bool
  is_ReaderFrom :: bool
  is_SyscallConn :: bool

text \<open>
  \<open>Ext x i ur uw rc wc\<close>: an external object of identity \<open>x\<close>; \<open>ur\<close> and \<open>uw\<close> are what its
  \<open>UnderlayReader\<close> and \<open>UnderlayWriter\<close> return and \<open>rc\<close>, \<open>wc\<close> what its \<open>ReadCounters\<close> and
  \<open>WriteCounters\<close> return, \<open>None\<close> where it has no such method. \<open>ReadCloserOf r c\<close> and \<open>WriteCloserOf\<close> are the
  anonymous structs of \<open>readCloser\<close> and \<open>writeCloser\<close>; \<open>Nil\<close> is the nil interface value.
\<close>

datatype obj =
    NilObj
  | Ext nat ext_iface "obj option" "obj option" "Func list option" "Func list option"
  | CountWriter obj "Func list"
  | CountReader obj "Func list"
  | BufCachedReader obj "Buffer option"
  | NopReadCloser_obj obj
  | NopReadWriteToCloser obj
  | ReadCloserOf obj obj
  | NopWriteCloser_obj obj
  | NopWriteReadFromCloser obj
  | WriteCloserOf obj obj

text \<open>The methods \<open>UnderlayReader\<close> and \<open>UnderlayWriter\<close>; \<open>None\<close>: not an \<^verbatim>\<open>underlay.Reader\<close>
  (\<^verbatim>\<open>underlay.Writer\<close>). The cached reader has none on purpose.\<close>

fun UnderlayReader :: "obj \<Rightarrow> obj option" where
  "UnderlayReader (Ext _ _ ur _ _ _) = ur"
| "UnderlayReader (CountReader r _) = Some r"
| "UnderlayReader (NopReadCloser_obj r) = Some r"
| "UnderlayReader (NopReadWriteToCloser r) = Some r"
| "UnderlayReader _ = None"

fun UnderlayWriter :: "obj \<Rightarrow> obj option" where
  "UnderlayWriter (Ext _ _ _ uw _ _) = uw"
| "UnderlayWriter (CountWriter w _) = Some w"
| "UnderlayWriter (NopWriteCloser_obj w) = Some w"
| "UnderlayWriter (NopWriteReadFromCloser w) = Some w"
| "UnderlayWriter _ = None"

fun ReadCounters :: "obj \<Rightarrow> Func list option" where
  "ReadCounters (Ext _ _ _ _ rc _) = rc"
| "ReadCounters (CountReader _ fs) = Some fs"
| "ReadCounters _ = None"

fun WriteCounters :: "obj \<Rightarrow> Func list option" where
  "WriteCounters (Ext _ _ _ _ _ wc) = wc"
| "WriteCounters (CountWriter _ fs) = Some fs"
| "WriteCounters _ = None"

fun as_Reader :: "obj \<Rightarrow> bool" where
  "as_Reader (Ext _ i _ _ _ _) = is_Reader i"
| "as_Reader (CountReader _ _) = True"
| "as_Reader (BufCachedReader _ _) = True"
| "as_Reader (NopReadCloser_obj _) = True"
| "as_Reader (NopReadWriteToCloser _) = True"
| "as_Reader (ReadCloserOf _ _) = True"
| "as_Reader _ = False"

fun as_Writer :: "obj \<Rightarrow> bool" where
  "as_Writer (Ext _ i _ _ _ _) = is_Writer i"
| "as_Writer (CountWriter _ _) = True"
| "as_Writer (NopWriteCloser_obj _) = True"
| "as_Writer (NopWriteReadFromCloser _) = True"
| "as_Writer (WriteCloserOf _ _) = True"
| "as_Writer _ = False"

fun as_Closer :: "obj \<Rightarrow> bool" where
  "as_Closer (Ext _ i _ _ _ _) = is_Closer i"
| "as_Closer (NopReadCloser_obj _) = True"
| "as_Closer (NopReadWriteToCloser _) = True"
| "as_Closer (ReadCloserOf _ _) = True"
| "as_Closer (NopWriteCloser_obj _) = True"
| "as_Closer (NopWriteReadFromCloser _) = True"
| "as_Closer (WriteCloserOf _ _) = True"
| "as_Closer _ = False"

fun as_WriterTo :: "obj \<Rightarrow> bool" where
  "as_WriterTo (Ext _ i _ _ _ _) = is_WriterTo i"
| "as_WriterTo (NopReadWriteToCloser _) = True"
| "as_WriterTo _ = False"

fun as_ReaderFrom :: "obj \<Rightarrow> bool" where
  "as_ReaderFrom (Ext _ i _ _ _ _) = is_ReaderFrom i"
| "as_ReaderFrom (NopWriteReadFromCloser _) = True"
| "as_ReaderFrom _ = False"

lemma UnderlayReader_size [termination_simp]: "UnderlayReader v = Some u \<Longrightarrow> size u < size v"
  by (cases v) auto

lemma UnderlayWriter_size [termination_simp]: "UnderlayWriter v = Some u \<Longrightarrow> size u < size v"
  by (cases v) auto

subsection \<open>underlay\<close>

function FindUnderlayReaderDeep :: "obj \<Rightarrow> obj" where
  "FindUnderlayReaderDeep v = (case UnderlayReader v of
      Some u \<Rightarrow> FindUnderlayReaderDeep u
    | None \<Rightarrow> if as_Reader v then v else NilObj)"
  by pat_completeness auto
termination by (relation "measure size") (auto simp: UnderlayReader_size)

function FindUnderlayWriterDeep :: "obj \<Rightarrow> obj" where
  "FindUnderlayWriterDeep v = (case UnderlayWriter v of
      Some u \<Rightarrow> FindUnderlayWriterDeep u
    | None \<Rightarrow> if as_Writer v then v else NilObj)"
  by pat_completeness auto
termination by (relation "measure size") (auto simp: UnderlayWriter_size)

declare FindUnderlayReaderDeep.simps [simp del] FindUnderlayWriterDeep.simps [simp del]

subsection \<open>close\<close>

definition NopReadCloser :: "obj \<Rightarrow> obj" where
  "NopReadCloser r = (if as_WriterTo r then NopReadWriteToCloser r else NopReadCloser_obj r)"

definition NopWriteCloser :: "obj \<Rightarrow> obj" where
  "NopWriteCloser w = (if as_ReaderFrom w then NopWriteReadFromCloser w else NopWriteCloser_obj w)"

function readCloser :: "obj \<Rightarrow> obj \<Rightarrow> obj" where
  "readCloser original r =
     (if as_Closer r then ReadCloserOf original r
      else case UnderlayReader r of
        Some rr \<Rightarrow> readCloser original rr
      | None \<Rightarrow> NopReadCloser original)"
  by pat_completeness auto
termination by (relation "measure (size \<circ> snd)") (auto simp: UnderlayReader_size)

function writeCloser :: "obj \<Rightarrow> obj \<Rightarrow> obj" where
  "writeCloser original w =
     (if as_Closer w then WriteCloserOf original w
      else case UnderlayWriter w of
        Some ww \<Rightarrow> writeCloser original ww
      | None \<Rightarrow> NopWriteCloser original)"
  by pat_completeness auto
termination by (relation "measure (size \<circ> snd)") (auto simp: UnderlayWriter_size)

declare readCloser.simps [simp del] writeCloser.simps [simp del]

definition ReadCloser :: "obj \<Rightarrow> obj" where
  "ReadCloser r = (if as_Reader r \<and> as_Closer r then r else readCloser r r)"

definition WriteCloser :: "obj \<Rightarrow> obj" where
  "WriteCloser w = (if as_Writer w \<and> as_Closer w then w else writeCloser w w)"

text \<open>
  The method \<open>Close\<close> of a value. \<open>close\<close> is the \<open>Close\<close> of the external objects, by identity, on
  their state; calling it on a value that has none dereferences nil.
\<close>

fun obj_Close :: "(nat \<Rightarrow> 's \<Rightarrow> (go_error option \<times> 's) go) \<Rightarrow> obj \<Rightarrow> 's \<Rightarrow> (go_error option \<times> 's) go" where
  "obj_Close close (Ext x _ _ _ _ _) s = close x s"
| "obj_Close close (NopReadCloser_obj _) s = Inr (None, s)"
| "obj_Close close (NopReadWriteToCloser _) s = Inr (None, s)"
| "obj_Close close (ReadCloserOf _ c) s = obj_Close close c s"
| "obj_Close close (NopWriteCloser_obj _) s = Inr (None, s)"
| "obj_Close close (NopWriteReadFromCloser _) s = Inr (None, s)"
| "obj_Close close (WriteCloserOf _ c) s = obj_Close close c s"
| "obj_Close close _ s = Inl NilDereference"

function Close :: "(nat \<Rightarrow> 's \<Rightarrow> (go_error option \<times> 's) go) \<Rightarrow> obj \<Rightarrow> 's \<Rightarrow> (go_error option \<times> 's) go" where
  "Close close v s =
     (if as_Closer v then obj_Close close v s
      else case UnderlayWriter v of
        Some w \<Rightarrow> Close close w s
      | None \<Rightarrow> (case UnderlayReader v of
            Some r \<Rightarrow> Close close r s
          | None \<Rightarrow> Inr (None, s)))"
  by pat_completeness auto
termination by (relation "measure (size \<circ> fst \<circ> snd)") (auto simp: UnderlayReader_size UnderlayWriter_size)

declare Close.simps [simp del]

subsection \<open>counter\<close>

text \<open>\<open>UnwrapReadCounter\<close> stops at the first value that is no counter or has no reader beneath.\<close>

function UnwrapReadCounter_loop :: "obj \<Rightarrow> Func list \<Rightarrow> obj \<times> Func list" where
  "UnwrapReadCounter_loop current ans =
     (case ReadCounters current of
        Some fs \<Rightarrow> (case UnderlayReader current of
            Some u \<Rightarrow> UnwrapReadCounter_loop u (ans @ fs)
          | None \<Rightarrow> (current, ans @ fs))
      | None \<Rightarrow> (current, ans))"
  by pat_completeness auto
termination by (relation "measure (size \<circ> fst)") (auto simp: UnderlayReader_size)

declare UnwrapReadCounter_loop.simps [simp del]

definition UnwrapReadCounter :: "obj \<Rightarrow> obj \<times> Func list" where
  "UnwrapReadCounter current = UnwrapReadCounter_loop current []"

text \<open>\<open>UnwrapWriterCounter\<close> goes round again on every counter, also when there is nothing beneath it.\<close>

partial_function (option) UnwrapWriterCounter_loop :: "obj \<Rightarrow> Func list \<Rightarrow> (obj \<times> Func list) option" where
  "UnwrapWriterCounter_loop current ans =
     (case WriteCounters current of
        Some fs \<Rightarrow> (case UnderlayWriter current of
            Some u \<Rightarrow> UnwrapWriterCounter_loop u (ans @ fs)
          | None \<Rightarrow> UnwrapWriterCounter_loop current (ans @ fs))
      | None \<Rightarrow> Some (current, ans))"

definition UnwrapWriterCounter :: "obj \<Rightarrow> (obj \<times> Func list) option" where
  "UnwrapWriterCounter current = UnwrapWriterCounter_loop current []"

definition NewReader :: "obj \<Rightarrow> Func list \<Rightarrow> obj" where
  "NewReader r counters =
     (if r = NilObj \<or> length counters = 0 then r
      else case r of
        CountReader rr fs \<Rightarrow> CountReader rr (fs @ counters)
      | _ \<Rightarrow> (case UnwrapReadCounter r of (r', extra) \<Rightarrow>
               CountReader r' (if length extra > 0 then extra @ counters else counters)))"

definition NewWriter :: "obj \<Rightarrow> Func list \<Rightarrow> obj option" where
  "NewWriter w counters =
     (if w = NilObj \<or> length counters = 0 then Some w
      else case w of
        CountWriter ww fs \<Rightarrow> Some (CountWriter ww (fs @ counters))
      | _ \<Rightarrow> (case UnwrapWriterCounter w of
               None \<Rightarrow> None
             | Some (w', extra) \<Rightarrow>
                 Some (CountWriter w' (if length extra > 0 then extra @ counters else counters))))"

subsection \<open>Chains of wrappers\<close>

text \<open>One and many steps down a chain, on the reader and on the writer side.\<close>

inductive reads_through :: "obj \<Rightarrow> obj \<Rightarrow> bool" where
  reads_here: "reads_through v v"
| reads_below: "UnderlayReader v = Some u \<Longrightarrow> reads_through u b \<Longrightarrow> reads_through v b"

inductive writes_through :: "obj \<Rightarrow> obj \<Rightarrow> bool" where
  writes_here: "writes_through v v"
| writes_below: "UnderlayWriter v = Some u \<Longrightarrow> writes_through u b \<Longrightarrow> writes_through v b"

inductive_cases reads_throughE: "reads_through v b"

lemma FindUnderlayReaderDeep_bottom:
  "\<exists>b. reads_through v b \<and> UnderlayReader b = None \<and> FindUnderlayReaderDeep v = (if as_Reader b then b else NilObj)"
proof (induction v rule: FindUnderlayReaderDeep.induct)
  case (1 v)
  show ?case
  proof (cases "UnderlayReader v")
    case None
    then show ?thesis by (auto simp: FindUnderlayReaderDeep.simps [of v] intro: reads_here)
  next
    case (Some u)
    obtain b where "reads_through u b" "UnderlayReader b = None"
      "FindUnderlayReaderDeep u = (if as_Reader b then b else NilObj)" using 1 [OF Some] by blast
    then show ?thesis using Some reads_below [OF Some]
      by (intro exI [of _ b]) (simp add: FindUnderlayReaderDeep.simps [of v])
  qed
qed

lemma FindUnderlayWriterDeep_bottom:
  "\<exists>b. writes_through v b \<and> UnderlayWriter b = None \<and> FindUnderlayWriterDeep v = (if as_Writer b then b else NilObj)"
proof (induction v rule: FindUnderlayWriterDeep.induct)
  case (1 v)
  show ?case
  proof (cases "UnderlayWriter v")
    case None
    then show ?thesis by (auto simp: FindUnderlayWriterDeep.simps [of v] intro: writes_here)
  next
    case (Some u)
    obtain b where "writes_through u b" "UnderlayWriter b = None"
      "FindUnderlayWriterDeep u = (if as_Writer b then b else NilObj)" using 1 [OF Some] by blast
    then show ?thesis using Some writes_below [OF Some]
      by (intro exI [of _ b]) (simp add: FindUnderlayWriterDeep.simps [of v])
  qed
qed

text \<open>The wrappers of \<open>readCloser\<close> and \<open>writeCloser\<close> only ever hold closers.\<close>

fun closers_ok :: "obj \<Rightarrow> bool" where
  "closers_ok (ReadCloserOf r c) = (as_Closer c \<and> closers_ok r \<and> closers_ok c)"
| "closers_ok (WriteCloserOf w c) = (as_Closer c \<and> closers_ok w \<and> closers_ok c)"
| "closers_ok (Ext _ _ ur uw _ _) = (pred_option closers_ok ur \<and> pred_option closers_ok uw)"
| "closers_ok (CountReader r _) = closers_ok r"
| "closers_ok (CountWriter w _) = closers_ok w"
| "closers_ok (BufCachedReader r _) = closers_ok r"
| "closers_ok (NopReadCloser_obj r) = closers_ok r"
| "closers_ok (NopReadWriteToCloser r) = closers_ok r"
| "closers_ok (NopWriteCloser_obj w) = closers_ok w"
| "closers_ok (NopWriteReadFromCloser w) = closers_ok w"
| "closers_ok NilObj = True"

lemma closers_ok_below:
  "UnderlayReader v = Some u \<Longrightarrow> closers_ok v \<Longrightarrow> closers_ok u"
  "UnderlayWriter v = Some u \<Longrightarrow> closers_ok v \<Longrightarrow> closers_ok u"
  by (cases v; auto)+

lemma readCloser_ok: "closers_ok original \<Longrightarrow> closers_ok r \<Longrightarrow> closers_ok (readCloser original r)"
proof (induction original r rule: readCloser.induct)
  case (1 original r)
  then show ?case
    using closers_ok_below(1) [of r]
    by (auto simp: readCloser.simps [of original r] NopReadCloser_def split: option.split)
qed

lemma writeCloser_ok: "closers_ok original \<Longrightarrow> closers_ok w \<Longrightarrow> closers_ok (writeCloser original w)"
proof (induction original w rule: writeCloser.induct)
  case (1 original w)
  then show ?case
    using closers_ok_below(2) [of w]
    by (auto simp: writeCloser.simps [of original w] NopWriteCloser_def split: option.split)
qed

lemma obj_Close_returns:
  assumes ext: "\<forall>x s. \<exists>e s'. close x s = Inr (e, s')"
  shows "closers_ok v \<Longrightarrow> as_Closer v \<Longrightarrow> \<exists>e s'. obj_Close close v s = Inr (e, s')"
  by (induction v) (auto simp: ext)

lemma Close_returns:
  "\<forall>x s. \<exists>e s'. close x s = Inr (e, s') \<Longrightarrow> closers_ok v \<Longrightarrow> \<exists>e s'. Close close v s = Inr (e, s')"
proof (induction close v s rule: Close.induct)
  case (1 close v s)
  then show ?case
    using closers_ok_below [of v] obj_Close_returns [OF 1(3,4), of s]
    by (auto simp: Close.simps [of close v s] split: option.split)
qed

text \<open>A pure reader chain has no writer beneath any of its values; a pure writer chain no reader.\<close>

function reader_chain :: "obj \<Rightarrow> bool" where
  "reader_chain v = (UnderlayWriter v = None \<and> (case UnderlayReader v of None \<Rightarrow> True | Some u \<Rightarrow> reader_chain u))"
  by pat_completeness auto
termination by (relation "measure size") (auto simp: UnderlayReader_size)

function writer_chain :: "obj \<Rightarrow> bool" where
  "writer_chain v = (UnderlayReader v = None \<and> (case UnderlayWriter v of None \<Rightarrow> True | Some u \<Rightarrow> writer_chain u))"
  by pat_completeness auto
termination by (relation "measure size") (auto simp: UnderlayWriter_size)

declare reader_chain.simps [simp del] writer_chain.simps [simp del]

lemma NopReadCloser_Close [simp]: "obj_Close close (NopReadCloser r) s = Inr (None, s)"
  by (simp add: NopReadCloser_def)

lemma NopWriteCloser_Close [simp]: "obj_Close close (NopWriteCloser r) s = Inr (None, s)"
  by (simp add: NopWriteCloser_def)

lemma as_Closer_Nop [simp]: "as_Closer (NopReadCloser r)" "as_Closer (NopWriteCloser r)"
  by (simp_all add: NopReadCloser_def NopWriteCloser_def)

lemma readCloser_Close:
  "reader_chain r \<Longrightarrow> as_Closer (readCloser orig r) \<and> obj_Close close (readCloser orig r) s = Close close r s"
proof (induction orig r rule: readCloser.induct)
  case (1 orig r)
  then show ?case
    using reader_chain.simps [of r]
    by (auto simp: readCloser.simps [of orig r] Close.simps [of close r s] split: option.split)
qed

lemma writeCloser_Close:
  "writer_chain w \<Longrightarrow> as_Closer (writeCloser orig w) \<and> obj_Close close (writeCloser orig w) s = Close close w s"
proof (induction orig w rule: writeCloser.induct)
  case (1 orig w)
  then show ?case
    using writer_chain.simps [of w]
    by (auto simp: writeCloser.simps [of orig w] Close.simps [of close w s] split: option.split)
qed

subsection \<open>Unwrapping counters\<close>

text \<open>The counters of a chain from the outside in, and the first value that is not unwrapped.\<close>

lemma UnwrapReadCounter_loop_append:
  "UnwrapReadCounter_loop v ans = (fst (UnwrapReadCounter v), ans @ snd (UnwrapReadCounter v))"
proof -
  have "UnwrapReadCounter_loop v ans = (fst (UnwrapReadCounter_loop v bs), ans @ drop (length bs) (snd (UnwrapReadCounter_loop v bs)))
      \<and> take (length bs) (snd (UnwrapReadCounter_loop v bs)) = bs" for bs
  proof (induction v ans arbitrary: bs rule: UnwrapReadCounter_loop.induct)
    case (1 v ans)
    show ?case
    proof (cases "ReadCounters v = None \<or> UnderlayReader v = None")
      case True
      then show ?thesis
        by (auto simp: UnwrapReadCounter_loop.simps [of v] split: option.splits)
    next
      case False
      then obtain fs u where fu: "ReadCounters v = Some fs" "UnderlayReader v = Some u" by auto
      from 1 [OF fu, of "bs @ fs"] have
        "UnwrapReadCounter_loop u (ans @ fs) = (fst (UnwrapReadCounter_loop u (bs @ fs)),
            (ans @ fs) @ drop (length (bs @ fs)) (snd (UnwrapReadCounter_loop u (bs @ fs))))"
        and t: "take (length (bs @ fs)) (snd (UnwrapReadCounter_loop u (bs @ fs))) = bs @ fs" by blast+
      moreover have "drop (length bs) (snd (UnwrapReadCounter_loop u (bs @ fs)))
          = fs @ drop (length (bs @ fs)) (snd (UnwrapReadCounter_loop u (bs @ fs)))"
        using t by (metis append_eq_conv_conj append_take_drop_id append_assoc)
      moreover have "take (length bs) (snd (UnwrapReadCounter_loop u (bs @ fs))) = bs"
        using t by (metis append_eq_conv_conj append_take_drop_id append_assoc)
      ultimately show ?thesis using fu by (simp add: UnwrapReadCounter_loop.simps [of v])
    qed
  qed
  from this [of "[]"] show ?thesis by (simp add: UnwrapReadCounter_def)
qed

lemma UnwrapReadCounter_step:
  "UnwrapReadCounter v = (case ReadCounters v of
      None \<Rightarrow> (v, [])
    | Some fs \<Rightarrow> (case UnderlayReader v of
          None \<Rightarrow> (v, fs)
        | Some u \<Rightarrow> (fst (UnwrapReadCounter u), fs @ snd (UnwrapReadCounter u))))"
proof (cases "ReadCounters v")
  case None
  then show ?thesis by (simp add: UnwrapReadCounter_def UnwrapReadCounter_loop.simps [of v])
next
  case (Some fs)
  show ?thesis
  proof (cases "UnderlayReader v")
    case None
    with Some show ?thesis by (simp add: UnwrapReadCounter_def UnwrapReadCounter_loop.simps [of v])
  next
    case (Some u)
    then have "UnwrapReadCounter v = UnwrapReadCounter_loop u fs"
      using \<open>ReadCounters v = Some fs\<close> by (simp add: UnwrapReadCounter_def UnwrapReadCounter_loop.simps [of v])
    then show ?thesis using Some \<open>ReadCounters v = Some fs\<close> UnwrapReadCounter_loop_append [of u fs] by simp
  qed
qed

text \<open>Unwrapping the counters of a writer ends when every counter on the way has a writer beneath.\<close>

function counters_end :: "obj \<Rightarrow> bool" where
  "counters_end v = (case WriteCounters v of
      None \<Rightarrow> True
    | Some _ \<Rightarrow> (case UnderlayWriter v of None \<Rightarrow> False | Some u \<Rightarrow> counters_end u))"
  by pat_completeness auto
termination by (relation "measure size") (auto simp: UnderlayWriter_size)

declare counters_end.simps [simp del]

lemma UnwrapWriterCounter_loop_returns:
  "counters_end v \<Longrightarrow> UnwrapWriterCounter_loop v ans \<noteq> None"
proof (induction v arbitrary: ans rule: counters_end.induct)
  case (1 v)
  then show ?case
    using counters_end.simps [of v] by (subst UnwrapWriterCounter_loop.simps) (auto split: option.splits)
qed

lemma UnwrapWriterCounter_loop_spins:
  assumes "UnwrapWriterCounter_loop v ans = Some r"
  shows "counters_end v"
proof (rule UnwrapWriterCounter_loop.raw_induct [of "\<lambda>v ans r. counters_end v", OF _ assms])
  fix f v ans r
  assume IH: "\<And>v ans r. f v ans = Some r \<Longrightarrow> counters_end v"
    and body: "(case WriteCounters v of
        Some fs \<Rightarrow> (case UnderlayWriter v of
            Some u \<Rightarrow> f u (ans @ fs)
          | None \<Rightarrow> f v (ans @ fs))
      | None \<Rightarrow> Some (v, ans)) = Some r"
  show "counters_end v"
  proof (cases "WriteCounters v")
    case None
    then show ?thesis by (simp add: counters_end.simps [of v])
  next
    case (Some fs)
    show ?thesis
    proof (cases "UnderlayWriter v")
      case None
      then have "f v (ans @ fs) = Some r" using body Some by simp
      then show ?thesis by (rule IH)
    next
      case u: (Some u)
      then have "f u (ans @ fs) = Some r" using body Some by simp
      then have "counters_end u" by (rule IH)
      then show ?thesis using Some u by (simp add: counters_end.simps [of v])
    qed
  qed
qed

subsection \<open>Properties\<close>

text \<open>
  \<open>FindUnderlayReaderDeep\<close> and \<open>FindUnderlayWriterDeep\<close> go down to the end of the chain, past
  every wrapper, and return what is there if it is a reader (a writer), nil otherwise.
\<close>

theorem FindUnderlay_bottom:
  "(\<exists>b. reads_through v b \<and> UnderlayReader b = None \<and> FindUnderlayReaderDeep v = (if as_Reader b then b else NilObj))
   \<and> (\<exists>b. writes_through v b \<and> UnderlayWriter b = None \<and> FindUnderlayWriterDeep v = (if as_Writer b then b else NilObj))"
  using FindUnderlayReaderDeep_bottom FindUnderlayWriterDeep_bottom by blast

text \<open>
  \<open>ReadCloser\<close> of a reader chain and \<open>WriteCloser\<close> of a writer chain return closers, and closing
  them is closing what \<^verbatim>\<open>iolib.Close\<close> closes for the value itself: the outermost closer of the chain,
  or nothing when there is none.
\<close>

theorem closers_agree:
  "(reader_chain r \<longrightarrow> as_Closer (ReadCloser r) \<and> obj_Close close (ReadCloser r) s = Close close r s)
   \<and> (writer_chain w \<longrightarrow> as_Closer (WriteCloser w) \<and> obj_Close close (WriteCloser w) s = Close close w s)"
  using readCloser_Close [of r r close s] writeCloser_Close [of w w close s]
  by (auto simp: ReadCloser_def WriteCloser_def Close.simps [of close r s] Close.simps [of close w s])

theorem closers_agree_witness:
  "as_Closer (ReadCloser (CountReader (Ext 3 \<lparr>is_Reader = True, is_Writer = False, is_Closer = True,
      is_WriterTo = False, is_ReaderFrom = False, is_SyscallConn = False\<rparr> None None None None) [1]))"
proof -
  let ?x = "Ext 3 \<lparr>is_Reader = True, is_Writer = False, is_Closer = True,
      is_WriterTo = False, is_ReaderFrom = False, is_SyscallConn = False\<rparr> None None None None"
  have "reader_chain (CountReader ?x [1])" by (simp add: reader_chain.simps)
  with closers_agree [of "CountReader ?x [1]" "\<lambda>x s. Inr (None, s)" "()" NilObj] show ?thesis by simp
qed

text \<open>
  \<^verbatim>\<open>iolib.Close\<close> never panics on a value built by the library's own constructors, whatever it
  wraps, as long as the \<open>Close\<close> of the external objects does not; and what the constructors build
  from such values is such a value.
\<close>

theorem Close_never_panics:
  assumes "closers_ok v" and "\<forall>x s. \<exists>e s'. close x s = Inr (e, s')"
  shows "(\<exists>e s'. Close close v s = Inr (e, s')) \<and> closers_ok (ReadCloser v) \<and> closers_ok (WriteCloser v)
    \<and> (\<exists>e s'. Close close (ReadCloser v) s = Inr (e, s')) \<and> (\<exists>e s'. Close close (WriteCloser v) s = Inr (e, s'))"
proof -
  have r: "closers_ok (ReadCloser v)" using assms(1) readCloser_ok [of v v] by (simp add: ReadCloser_def)
  have w: "closers_ok (WriteCloser v)" using assms(1) writeCloser_ok [of v v] by (simp add: WriteCloser_def)
  show ?thesis using r w Close_returns [OF assms(2)] assms(1) by blast
qed

theorem Close_never_panics_witness:
  "\<exists>e s'. Close (\<lambda>x s. Inr (None, x # s)) (CountReader (NopReadCloser NilObj) [7]) [] = Inr (e, s')"
  using Close_never_panics [of "CountReader (NopReadCloser NilObj) [7]" "\<lambda>x s. Inr (None, x # s)" "[]"]
  by (simp add: NopReadCloser_def)

text \<open>
  Unwrapping the counters of a writer returns exactly when every counter on the way has a
  writer beneath; on a counter without one it goes round for ever. (The reader's version always
  returns: it is a total function.)
\<close>

theorem UnwrapWriterCounter_returns_iff:
  "UnwrapWriterCounter w \<noteq> None \<longleftrightarrow> counters_end w"
  using UnwrapWriterCounter_loop_returns [of w "[]"] UnwrapWriterCounter_loop_spins [of w "[]"]
  by (auto simp: UnwrapWriterCounter_def)

end
