(* ===== verification/Cache.thy ===== *)
theory Cache
  imports Objects Lifecycle
begin

text \<open>
  \<^verbatim>\<open>enhancements/iolib/cache.go\<close> and the \<open>Read\<close> and \<open>Write\<close> methods of the wrappers of
  \<^verbatim>\<open>close.go\<close> and \<^verbatim>\<open>counter/rw.go\<close>: reading and writing through a tree of wrappers. External
  objects live in a shared state, reached by their identity, so two wrappers of one object see
  each other's effects; calls of counter functions are logged in order.
\<close>

subsection \<open>The world\<close>

record 's world =
  exts :: 's
  calls :: "(Func \<times> int) list"
  heap :: allocator

subsection \<open>Reading through wrappers\<close>

text \<open>
  The first half of \<open>BufCachedReader.Read\<close>: what comes out of the cached buffer. The last
  component tells whether \<open>Read\<close> returns here.
\<close>

definition cached_bytes :: "bool \<Rightarrow> Buffer option \<Rightarrow> nat \<Rightarrow> allocator
    \<Rightarrow> (byte list \<times> int \<times> go_error option \<times> Buffer option \<times> allocator \<times> bool) go" where
  "cached_bytes DebugEnabled ob k al =
     (case ob of
        None \<Rightarrow> Inr ([], 0, None, None, al, False)
      | Some b \<Rightarrow>
          (if Empty b then Inr ([], 0, None, Some b, al, False)
           else case Read b k of
             Inl p \<Rightarrow> Inl p
           | Inr (bs, offset, err, b1) \<Rightarrow>
               (if DebugEnabled \<and> err \<noteq> None
                then Inl (PanicMsg ''Buffer.Read returned an error when buffer not empty'')
                else case (if Empty b1 then Free_Buffer (DecRef b1) al else Inr (b1, al)) of
                  Inl p \<Rightarrow> Inl p
                | Inr (b2, al') \<Rightarrow> Inr (bs, offset, err, Some b2, al', offset = int k \<or> err \<noteq> None))))"

text \<open>The calls a counting wrapper makes after a transfer of \<open>n\<close> bytes.\<close>

definition call_counters :: "nat list \<Rightarrow> int \<Rightarrow> 's world \<Rightarrow> 's world" where
  [simp]: "call_counters fs n w = (if n > 0 then w\<lparr>calls := calls w @ map (\<lambda>f. (f, n)) fs\<rparr> else w)"

text \<open>\<open>rd\<close> is the \<open>Read\<close> of the external objects; calling \<open>Read\<close> on a value without one
  dereferences nil.\<close>

fun obj_Read :: "bool \<Rightarrow> (nat \<Rightarrow> 's read_fn) \<Rightarrow> obj \<Rightarrow> nat \<Rightarrow> 's world
    \<Rightarrow> (byte list \<times> int \<times> go_error option \<times> obj \<times> 's world) go" where
  "obj_Read dbg rd (Ext x i ur uw rc wc) k w =
     (case rd x (exts w) k of
        Inl p \<Rightarrow> Inl p
      | Inr (bs, n, err, s') \<Rightarrow> Inr (bs, n, err, Ext x i ur uw rc wc, w\<lparr>exts := s'\<rparr>))"
| "obj_Read dbg rd (CountReader r fs) k w =
     (case obj_Read dbg rd r k w of
        Inl p \<Rightarrow> Inl p
      | Inr (bs, n, err, r', w') \<Rightarrow>
          Inr (bs, n, err, CountReader r' fs, call_counters fs n w'))"
| "obj_Read dbg rd (BufCachedReader r ob) k w =
     (case cached_bytes dbg ob k (heap w) of
        Inl p \<Rightarrow> Inl p
      | Inr (bs, offset, err, ob', al', done) \<Rightarrow>
          (let w1 = w\<lparr>heap := al'\<rparr>
           in if done then Inr (bs, offset, err, BufCachedReader r ob', w1)
              else if r = NilObj then Inr (bs, 0, Some io_EOF, BufCachedReader r ob', w1)
              else case obj_Read dbg rd r (k - nat offset) w1 of
                Inl p \<Rightarrow> Inl p
              | Inr (bs', n, err', r', w') \<Rightarrow>
                  Inr (bs @ bs', wrap64 (n + offset), err', BufCachedReader r' ob', w')))"
| "obj_Read dbg rd (NopReadCloser_obj r) k w =
     map_sum id (\<lambda>(bs, n, err, r', w'). (bs, n, err, NopReadCloser_obj r', w')) (obj_Read dbg rd r k w)"
| "obj_Read dbg rd (NopReadWriteToCloser r) k w =
     map_sum id (\<lambda>(bs, n, err, r', w'). (bs, n, err, NopReadWriteToCloser r', w')) (obj_Read dbg rd r k w)"
| "obj_Read dbg rd (ReadCloserOf r c) k w =
     map_sum id (\<lambda>(bs, n, err, r', w'). (bs, n, err, ReadCloserOf r' c, w')) (obj_Read dbg rd r k w)"
| "obj_Read dbg rd _ k w = Inl NilDereference"

fun obj_Write :: "(nat \<Rightarrow> 's write_fn) \<Rightarrow> obj \<Rightarrow> byte list \<Rightarrow> 's world \<Rightarrow> (int \<times> go_error option \<times> obj \<times> 's world) go" where
  "obj_Write wr (Ext x i ur uw rc wc) p w =
     (case wr x (exts w) p of
        Inl q \<Rightarrow> Inl q
      | Inr (n, err, s') \<Rightarrow> Inr (n, err, Ext x i ur uw rc wc, w\<lparr>exts := s'\<rparr>))"
| "obj_Write wr (CountWriter u fs) p w =
     (case obj_Write wr u p w of
        Inl q \<Rightarrow> Inl q
      | Inr (n, err, u', w') \<Rightarrow>
          Inr (n, err, CountWriter u' fs, call_counters fs n w'))"
| "obj_Write wr (NopWriteCloser_obj u) p w =
     map_sum id (\<lambda>(n, err, u', w'). (n, err, NopWriteCloser_obj u', w')) (obj_Write wr u p w)"
| "obj_Write wr (NopWriteReadFromCloser u) p w =
     map_sum id (\<lambda>(n, err, u', w'). (n, err, NopWriteReadFromCloser u', w')) (obj_Write wr u p w)"
| "obj_Write wr (WriteCloserOf u c) p w =
     map_sum id (\<lambda>(n, err, u', w'). (n, err, WriteCloserOf u' c, w')) (obj_Write wr u p w)"
| "obj_Write wr _ p w = Inl NilDereference"

subsection \<open>Cached readers\<close>

text \<open>\<open>ReadCache\<close> gives up the buffer and the reader beneath.\<close>

fun ReadCache :: "obj \<Rightarrow> (obj \<times> Buffer option \<times> obj) option" where
  "ReadCache (BufCachedReader r ob) = Some (r, map_option DecRef ob, BufCachedReader r None)"
| "ReadCache _ = None"

definition PickReaderCache :: "obj \<Rightarrow> obj \<times> Buffer option" where
  "PickReaderCache r = (case ReadCache r of Some (rr, buffer, _) \<Rightarrow> (rr, buffer) | None \<Rightarrow> (r, None))"

lemma PickReaderCache_size: "PickReaderCache r = (r', Some b) \<Longrightarrow> size r' < size r"
  by (cases r) (auto simp: PickReaderCache_def)

function PickReaderCacheList_loop :: "obj \<Rightarrow> Buffer list \<Rightarrow> obj \<times> Buffer list" where
  "PickReaderCacheList_loop r bufs =
     (case PickReaderCache r of
        (r', None) \<Rightarrow> (r', bufs)
      | (r', Some buffer) \<Rightarrow>
          (if Empty buffer then PickReaderCacheList_loop r' bufs
           else PickReaderCacheList_loop r' (bufs @ [buffer])))"
  by pat_completeness auto
termination by (relation "measure (size \<circ> fst)") (auto dest: PickReaderCache_size sym)

declare PickReaderCacheList_loop.simps [simp del]

definition PickReaderCacheList :: "obj \<Rightarrow> obj \<times> Buffer list" where
  "PickReaderCacheList r = PickReaderCacheList_loop r []"

definition NewCacheReader :: "obj \<Rightarrow> Buffer \<Rightarrow> obj" where
  "NewCacheReader r buffer = (if Empty buffer then r else BufCachedReader r (Some (IncRef buffer)))"

definition NewCacheReaderList :: "obj \<Rightarrow> Buffer list \<Rightarrow> obj" where
  "NewCacheReaderList r bufs = foldl NewCacheReader r (rev bufs)"

subsection \<open>The stream behind a reader\<close>

text \<open>
  The bytes a reader will deliver: for a cached reader the buffered ones, then those beneath.
  \<open>pend\<close> is the stream of an external object.
\<close>

definition cached :: "Buffer option \<Rightarrow> byte list" where
  "cached ob = (case ob of None \<Rightarrow> [] | Some b \<Rightarrow> contents b)"

fun obj_pending :: "(nat \<Rightarrow> 's \<Rightarrow> byte list) \<Rightarrow> obj \<Rightarrow> 's \<Rightarrow> byte list" where
  "obj_pending pend (Ext x _ _ _ _ _) s = pend x s"
| "obj_pending pend (CountReader r _) s = obj_pending pend r s"
| "obj_pending pend (BufCachedReader r ob) s = cached ob @ obj_pending pend r s"
| "obj_pending pend (NopReadCloser_obj r) s = obj_pending pend r s"
| "obj_pending pend (NopReadWriteToCloser r) s = obj_pending pend r s"
| "obj_pending pend (ReadCloserOf r _) s = obj_pending pend r s"
| "obj_pending pend _ s = []"

text \<open>
  Readers whose \<open>Read\<close> is safe to call: there is a reader at the bottom, and a cached buffer that
  still holds something is well formed and can be given back.
\<close>

definition cache_ok :: "Buffer option \<Rightarrow> bool" where
  "cache_ok ob = (case ob of None \<Rightarrow> True | Some b \<Rightarrow> Empty b \<or> buf_wf b \<and> returnable b)"

fun readable :: "obj \<Rightarrow> bool" where
  "readable (Ext _ i _ _ _ _) = is_Reader i"
| "readable (CountReader r _) = readable r"
| "readable (BufCachedReader r ob) = (readable r \<and> cache_ok ob)"
| "readable (NopReadCloser_obj r) = readable r"
| "readable (NopReadWriteToCloser r) = readable r"
| "readable (ReadCloserOf r _) = readable r"
| "readable _ = False"

lemma readable_not_nil [simp]: "\<not> readable NilObj" by simp

lemma contents_Empty: "Empty b \<Longrightarrow> contents b = []"
  by (simp add: Empty_def contents_def slice_of_def)

lemma cached_bytes_spec:
  assumes ok: "cache_ok ob" and heap: "heap_ok al"
  shows "\<exists>bs n ob' al' fin. cached_bytes dbg ob k al = Inr (bs, n, None, ob', al', fin)
    \<and> n = int (length bs) \<and> length bs \<le> k \<and> cache_ok ob' \<and> heap_ok al'
    \<and> cached ob = bs @ cached ob' \<and> (\<not> fin \<longrightarrow> cached ob' = [] \<and> (length bs < k \<or> cached ob = []))
    \<and> (fin \<longrightarrow> n = int k \<and> cached ob \<noteq> [])"
proof (cases "\<exists>b. ob = Some b \<and> \<not> Empty b")
  case False
  then show ?thesis using ok heap contents_Empty
    by (cases ob) (auto simp: cached_bytes_def cached_def cache_ok_def)
next
  case True
  then obtain b where b: "ob = Some b" "\<not> Empty b" by blast
  then have wf: "buf_wf b" and ret: "returnable b" using ok by (auto simp: cache_ok_def)
  have ne: "contents b \<noteq> []" using b(2) contents_Nil_iff [OF wf] by simp
  define m where "m = min k (length (contents b))"
  define b1 where "b1 = consumed b (int m)"
  have rd: "Read b k = Inr (take m (contents b), int m, None, b1)"
    using ne by (simp add: Read_eq [OF wf] Let_def m_def b1_def)
  have co: "buf_wf b1" "contents b1 = drop m (contents b)"
    using consumed_facts [OF wf, of "int m"] by (simp_all add: m_def b1_def)
  have ret1: "returnable b1" using ret by (simp add: b1_def returnable_def)
  have "\<exists>b2 al'. (if Empty b1 then Free_Buffer (DecRef b1) al else Inr (b1, al)) = Inr (b2, al')
      \<and> heap_ok al' \<and> cache_ok (Some b2) \<and> contents b2 = contents b1"
  proof (cases "Empty b1")
    case False
    with heap co ret1 show ?thesis by (simp add: cache_ok_def)
  next
    case e: True
    have "returnable (DecRef b1)" using ret1 by (simp add: DecRef_def returnable_def)
    from Free_Buffer_returns [OF heap this] obtain b2 al' where
      f: "Free_Buffer (DecRef b1) al = Inr (b2, al')" "heap_ok al'" "rpos b2 = rpos b1" "wpos b2 = wpos b1"
      by (auto simp: DecRef_def)
    then have "Empty b2" using e by (simp add: Empty_def)
    with e f contents_Empty [of b1] contents_Empty [of b2] show ?thesis by (simp add: cache_ok_def)
  qed
  then obtain b2 al' where f: "(if Empty b1 then Free_Buffer (DecRef b1) al else Inr (b1, al)) = Inr (b2, al')"
    "heap_ok al'" "cache_ok (Some b2)" "contents b2 = contents b1" by blast
  have "cached_bytes dbg ob k al = Inr (take m (contents b), int m, None, Some b2, al', int m = int k)"
    using b rd f(1) by (simp add: cached_bytes_def)
  moreover have "contents b = take m (contents b) @ contents b2" using co(2) f(4) by simp
  moreover have "m \<noteq> k \<longrightarrow> m < k \<and> contents b2 = []" using co(2) f(4) by (auto simp: m_def)
  moreover have "length (take m (contents b)) = m" by (simp add: m_def)
  ultimately show ?thesis using f(2,3) b(1) ne
    by (intro exI [of _ "take m (contents b)"] exI [of _ "int m"] exI [of _ "Some b2"] exI [of _ al']
        exI [of _ "int m = int k"]) (auto simp: cached_def)
qed

text \<open>
  The reader contract for the external objects, with their streams.
\<close>

locale ext_readers =
  fixes rd :: "nat \<Rightarrow> 's read_fn" and sinv :: "'s \<Rightarrow> bool" and pend :: "nat \<Rightarrow> 's \<Rightarrow> byte list"
  assumes ext_read: "sinv s \<Longrightarrow> int k \<le> max_int \<Longrightarrow> \<exists>bs n err s'. rd x s k = Inr (bs, n, err, s')
      \<and> 0 \<le> n \<and> n \<le> int (length bs) \<and> length bs \<le> k \<and> sinv s' \<and> pend x s = take (nat n) bs @ pend x s'"

context ext_readers begin

lemma obj_Read_spec:
  "readable v \<Longrightarrow> sinv (exts w) \<Longrightarrow> heap_ok (heap w) \<Longrightarrow> int k \<le> max_int \<Longrightarrow>
    \<exists>bs n err v' w'. obj_Read dbg rd v k w = Inr (bs, n, err, v', w') \<and> 0 \<le> n \<and> n \<le> int (length bs)
      \<and> length bs \<le> k \<and> readable v' \<and> sinv (exts w') \<and> heap_ok (heap w')
      \<and> obj_pending pend v (exts w) = take (nat n) bs @ obj_pending pend v' (exts w')"
proof (induction v arbitrary: k w)
  case (Ext x i ur uw rc wc)
  then show ?case using ext_read [of "exts w" k x] by auto
next
  case (CountReader r fs)
  from CountReader.IH [OF _ CountReader.prems(2-4)] CountReader.prems(1) obtain bs n err r' w' where
    "obj_Read dbg rd r k w = Inr (bs, n, err, r', w')" "0 \<le> n" "n \<le> int (length bs)" "length bs \<le> k"
    "readable r'" "sinv (exts w')" "heap_ok (heap w')"
    "obj_pending pend r (exts w) = take (nat n) bs @ obj_pending pend r' (exts w')" by auto
  then show ?case by simp
next
  case (BufCachedReader r ob)
  then have ok: "cache_ok ob" and r: "readable r" by auto
  obtain bs m ob' al' fin where c: "cached_bytes dbg ob k (heap w) = Inr (bs, m, None, ob', al', fin)"
    "m = int (length bs)" "length bs \<le> k" "cache_ok ob'" "heap_ok al'" "cached ob = bs @ cached ob'"
    "\<not> fin \<longrightarrow> cached ob' = []"
    using cached_bytes_spec [OF ok BufCachedReader.prems(3), of dbg k] by blast
  show ?case
  proof (cases fin)
    case True
    then show ?thesis using c r BufCachedReader.prems by (simp add: Let_def)
  next
    case False
    define w1 where "w1 = w\<lparr>heap := al'\<rparr>"
    have w1: "sinv (exts w1)" "heap_ok (heap w1)" "int (k - length bs) \<le> max_int"
      using BufCachedReader.prems(2,4) c(5) by (simp_all add: w1_def)
    from BufCachedReader.IH(1) [OF r w1] obtain bs' n err r' w' where
      h: "obj_Read dbg rd r (k - length bs) w1 = Inr (bs', n, err, r', w')" "0 \<le> n" "n \<le> int (length bs')"
      "length bs' \<le> k - length bs" "readable r'" "sinv (exts w')" "heap_ok (heap w')"
      "obj_pending pend r (exts w1) = take (nat n) bs' @ obj_pending pend r' (exts w')" by blast
    have nn: "wrap64 (n + m) = n + m"
      using h(2-4) c(2,3) BufCachedReader.prems(4) by (intro wrap64_nonneg) auto
    have "r \<noteq> NilObj" using r by auto
    then have run: "obj_Read dbg rd (BufCachedReader r ob) k w
        = Inr (bs @ bs', n + m, err, BufCachedReader r' ob', w')"
      using False c(1,2) h(1) nn by (simp add: Let_def w1_def)
    have "take (nat (n + m)) (bs @ bs') = bs @ take (nat n) bs'"
      using h(2) c(2) by (simp add: nat_add_distrib)
    moreover have "obj_pending pend r (exts w) = obj_pending pend r (exts w1)" by (simp add: w1_def)
    ultimately show ?thesis using run h c False
      by (simp add: w1_def)
  qed
next
  case (NopReadCloser_obj r)
  from NopReadCloser_obj.IH [OF _ NopReadCloser_obj.prems(2-4)] NopReadCloser_obj.prems(1)
  show ?case by auto
next
  case (NopReadWriteToCloser r)
  from NopReadWriteToCloser.IH [OF _ NopReadWriteToCloser.prems(2-4)] NopReadWriteToCloser.prems(1)
  show ?case by auto
next
  case (ReadCloserOf r c)
  from ReadCloserOf.IH(1) [OF _ ReadCloserOf.prems(2-4)] ReadCloserOf.prems(1)
  show ?case by auto
qed simp_all

end

text \<open>
  A reader with all its wrappers, together with the world, is again a stream reader: whatever
  takes an \<^verbatim>\<open>io.Reader\<close> can be handed one.
\<close>

definition obj_read_fn :: "bool \<Rightarrow> (nat \<Rightarrow> 's read_fn) \<Rightarrow> (obj \<times> 's world) read_fn" where
  "obj_read_fn dbg rd = (\<lambda>(v, w) k. map_sum id (\<lambda>(bs, n, err, v', w'). (bs, n, err, (v', w'))) (obj_Read dbg rd v k w))"

sublocale ext_readers \<subseteq> objr: io_stream_reader "obj_read_fn dbg rd"
  "\<lambda>(v, w :: 's world). readable v \<and> sinv (exts w) \<and> heap_ok (heap w)" "\<lambda>(v, w :: 's world). obj_pending pend v (exts w)" for dbg
proof unfold_locales
  fix rs :: "obj \<times> 's world" and k
  assume "(\<lambda>(v, w :: 's world). readable v \<and> sinv (exts w) \<and> heap_ok (heap w)) rs" and "int k \<le> max_int"
  then show "\<exists>bs n err rs'. obj_read_fn dbg rd rs k = Inr (bs, n, err, rs') \<and> 0 \<le> n \<and> n \<le> int (length bs)
      \<and> length bs \<le> k \<and> (\<lambda>(v, w :: 's world). readable v \<and> sinv (exts w) \<and> heap_ok (heap w)) rs'"
    using obj_Read_spec [of "fst rs" "snd rs" k dbg] by (auto simp: obj_read_fn_def case_prod_beta)
next
  fix rs :: "obj \<times> 's world" and k bs n err and rs' :: "obj \<times> 's world"
  assume "(\<lambda>(v, w :: 's world). readable v \<and> sinv (exts w) \<and> heap_ok (heap w)) rs" and "int k \<le> max_int"
    and "obj_read_fn dbg rd rs k = Inr (bs, n, err, rs')"
  then show "(\<lambda>(v, w :: 's world). obj_pending pend v (exts w)) rs = take (nat n) bs @ (\<lambda>(v, w :: 's world). obj_pending pend v (exts w)) rs'"
    using obj_Read_spec [of "fst rs" "snd rs" k dbg] by (auto simp: obj_read_fn_def case_prod_beta)
qed

text \<open>External objects that are buffers: a store of them, by identity.\<close>

definition store_Read :: "nat \<Rightarrow> (nat \<Rightarrow> Buffer) read_fn" where
  "store_Read x st k = map_sum id (\<lambda>(bs, n, err, b'). (bs, n, err, st(x := b'))) (Read (st x) k)"

definition store_Write :: "nat \<Rightarrow> (nat \<Rightarrow> Buffer) write_fn" where
  "store_Write x st p = map_sum id (\<lambda>(n, err, b'). (n, err, st(x := b'))) (Write_Buffer (st x) p)"

interpretation store_readers: ext_readers store_Read "\<lambda>st. \<forall>x. buf_wf (st x)" "\<lambda>x st. contents (st x)"
proof
  fix st :: "nat \<Rightarrow> Buffer" and k x
  assume wf: "\<forall>x. buf_wf (st x)"
  obtain bs n err b' where "Read (st x) k = Inr (bs, n, err, b')" "0 \<le> n" "n \<le> int (length bs)"
    "length bs \<le> k" "buf_wf b'" using Buffer_Read_contract [of "st x" k] wf by blast
  with wf Buffer_Read_stream [of "st x" k bs n err b'] show "\<exists>bs n err s'. store_Read x st k = Inr (bs, n, err, s')
      \<and> 0 \<le> n \<and> n \<le> int (length bs) \<and> length bs \<le> k \<and> (\<forall>x. buf_wf (s' x))
      \<and> contents (st x) = take (nat n) bs @ contents (s' x)"
    by (simp add: store_Read_def)
qed

subsection \<open>Building and taking apart cached readers\<close>

lemma Empty_IncRef [simp]: "Empty (IncRef b) = Empty b" and Empty_DecRef [simp]: "Empty (DecRef b) = Empty b"
  by (simp_all add: IncRef_def DecRef_def Empty_def)

lemma NewCacheReaderList_Cons:
  "NewCacheReaderList r (b # bs) = NewCacheReader (NewCacheReaderList r bs) b"
  by (simp add: NewCacheReaderList_def)

lemma NewCacheReaderList_Nil [simp]: "NewCacheReaderList r [] = r"
  by (simp add: NewCacheReaderList_def)

lemma PickReaderCacheList_loop_built:
  assumes "ReadCache r = None"
  shows "PickReaderCacheList_loop (NewCacheReaderList r bs) acc
    = (r, acc @ map (\<lambda>b. DecRef (IncRef b)) (filter (\<lambda>b. \<not> Empty b) bs))"
proof (induction bs arbitrary: acc)
  case Nil
  then show ?case using assms by (simp add: PickReaderCacheList_loop.simps PickReaderCache_def)
next
  case (Cons b bs)
  then show ?case
    by (simp add: NewCacheReaderList_Cons NewCacheReader_def
        PickReaderCacheList_loop.simps [of "BufCachedReader _ _"] PickReaderCache_def)
qed

lemma DecRef_IncRef: "is_int (ref b) \<Longrightarrow> DecRef (IncRef b) = b"
  by (simp add: DecRef_def IncRef_def wrap64_diff wrap64_id)

lemma contents_IncRef [simp]: "contents (IncRef b) = contents b"
  by (simp add: IncRef_def contents_def)

lemma NewCacheReaderList_pending:
  "obj_pending pend (NewCacheReaderList r bs) s = concat (map contents bs) @ obj_pending pend r s"
  by (induction bs) (auto simp: NewCacheReaderList_Cons NewCacheReader_def cached_def contents_Empty)

lemma NewCacheReaderList_readable:
  "readable r \<Longrightarrow> \<forall>b\<in>set bs. buf_wf b \<and> returnable b \<Longrightarrow> readable (NewCacheReaderList r bs)"
proof (induction bs)
  case (Cons b bs)
  then have "cache_ok (Some (IncRef b))" by (simp add: cache_ok_def IncRef_def buf_wf_def returnable_def)
  with Cons show ?case by (simp add: NewCacheReaderList_Cons NewCacheReader_def)
qed simp

subsection \<open>Properties\<close>

text \<open>
  C19: reading through any tree of the library's reader wrappers (counters, cached buffers, nop
  closers, the structs of \<open>readCloser\<close>) delivers the cached bytes, outermost first, and then the
  stream of the external reader, byte for byte: a read neither panics nor loses, repeats or
  reorders a byte, and it reports a count within the slice it was given.
\<close>

theorem obj_Read_stream:
  assumes "ext_readers rd sinv pend" and "readable v" and "sinv (exts w)" and "heap_ok (heap w)"
    and "int k \<le> max_int"
  shows "\<exists>bs n err v' w'. obj_Read dbg rd v k w = Inr (bs, n, err, v', w') \<and> 0 \<le> n \<and> n \<le> int (length bs)
      \<and> length bs \<le> k \<and> readable v' \<and> sinv (exts w') \<and> heap_ok (heap w')
      \<and> obj_pending pend v (exts w) = take (nat n) bs @ obj_pending pend v' (exts w')"
  using ext_readers.obj_Read_spec [OF assms] .

abbreviation reader_only :: ext_iface where
  "reader_only \<equiv> \<lparr>is_Reader = True, is_Writer = False, is_Closer = False, is_WriterTo = False,
     is_ReaderFrom = False, is_SyscallConn = False\<rparr>"

theorem obj_Read_stream_witness:
  "\<exists>bs n err v' w'. obj_Read True store_Read
      (CountReader (BufCachedReader (Ext 0 reader_only None None None None) (Some (As (Slice 7 [4, 5] 2)))) [1]) 3
      \<lparr>exts = \<lambda>_. As (Slice 3 [6, 7] 2), calls = [], heap = newDefaultAllocator\<rparr> = Inr (bs, n, err, v', w')
    \<and> [4, 5, 6, 7] = take (nat n) bs @ obj_pending (\<lambda>x st. contents (st x)) v' (exts w')"
proof -
  have "buf_wf (As (Slice 7 [4, 5] 2))" "returnable (As (Slice 7 [4, 5] 2))"
    and wf: "buf_wf (As (Slice 3 [6, 7] 2))"
    and c: "contents (As (Slice 7 [4, 5] 2)) = [4, 5]" "contents (As (Slice 3 [6, 7] 2)) = [6, 7]"
    by (simp_all add: buf_wf_def returnable_def As_def zero_Buffer_def slice_cap_def contents_def slice_of_def)
  define v where "v = CountReader (BufCachedReader (Ext 0 reader_only None None None None)
      (Some (As (Slice 7 [4, 5] 2)))) [1]"
  define w where "w = \<lparr>exts = \<lambda>_::nat. As (Slice 3 [6, 7] 2), calls = [], heap = newDefaultAllocator\<rparr>"
  have r: "readable v"
    using \<open>buf_wf (As (Slice 7 [4, 5] 2))\<close> \<open>returnable (As (Slice 7 [4, 5] 2))\<close>
    by (simp add: v_def cache_ok_def)
  have p: "obj_pending (\<lambda>x st. contents (st x)) v (exts w) = [4, 5, 6, 7]" by (simp add: v_def w_def cached_def c)
  have "\<forall>x. buf_wf (exts w x)" "heap_ok (heap w)"
    using wf alloc_wf_heap [OF alloc_wf_new] by (simp_all add: w_def)
  then obtain bs n err v' w' where h: "obj_Read True store_Read v 3 w = Inr (bs, n, err, v', w')"
    "obj_pending (\<lambda>x st. contents (st x)) v (exts w)
      = take (nat n) bs @ obj_pending (\<lambda>x st. contents (st x)) v' (exts w')"
    using obj_Read_stream [OF store_readers.ext_readers_axioms r, of w 3 True] by fastforce
  have "[4, 5, 6, 7] = take (nat n) bs @ obj_pending (\<lambda>x st. contents (st x)) v' (exts w')"
    using p h(2) by simp
  with h(1) show ?thesis unfolding v_def w_def by blast
qed

text \<open>
  C20: \<open>NewCacheReaderList\<close> puts the buffers, in order, in front of the reader's stream, and
  \<open>PickReaderCacheList\<close> takes the result apart again into the reader and exactly the buffers that
  were not empty, in the same order and with their reference counts as before.
\<close>

theorem cache_list_roundtrip:
  assumes "ReadCache r = None" and "\<forall>b\<in>set bs. is_int (ref b)"
  shows "PickReaderCacheList (NewCacheReaderList r bs) = (r, filter (\<lambda>b. \<not> Empty b) bs)
    \<and> obj_pending pend (NewCacheReaderList r bs) s = concat (map contents bs) @ obj_pending pend r s"
proof -
  have "map (\<lambda>b. DecRef (IncRef b)) (filter (\<lambda>b. \<not> Empty b) bs) = filter (\<lambda>b. \<not> Empty b) bs"
    using assms(2) by (intro map_idI) (simp add: DecRef_IncRef)
  then show ?thesis
    using PickReaderCacheList_loop_built [OF assms(1), of bs "[]"] NewCacheReaderList_pending
    by (simp add: PickReaderCacheList_def)
qed

theorem cache_list_roundtrip_witness:
  "PickReaderCacheList (NewCacheReaderList NilObj [As (Slice 7 [4, 5] 2), zero_Buffer, As (Slice 3 [6] 2)])
    = (NilObj, [As (Slice 7 [4, 5] 2), As (Slice 3 [6] 2)])"
  using cache_list_roundtrip [of NilObj "[As (Slice 7 [4, 5] 2), zero_Buffer, As (Slice 3 [6] 2)]" "\<lambda>x s. []" "()"]
  by (simp add: As_def zero_Buffer_def is_int_def Empty_def)

text \<open>
  With a nil reader beneath, a read that empties the cache and has room left over hands its
  caller no byte: the count is 0 and the error \<^verbatim>\<open>io.EOF\<close>, while the cached bytes are gone.
\<close>

theorem nil_reader_loses:
  assumes "buf_wf b" and "returnable b" and "contents b \<noteq> []" and "length (contents b) < k"
    and "heap_ok (heap w)"
  shows "\<exists>ob' w'. obj_Read dbg rd (BufCachedReader NilObj (Some b)) k w
      = Inr (contents b, 0, Some io_EOF, BufCachedReader NilObj ob', w') \<and> cached ob' = []"
proof -
  have ok: "cache_ok (Some b)" using assms by (simp add: cache_ok_def)
  have cb: "cached (Some b) = contents b" by (simp add: cached_def)
  obtain bs n ob' al' fin where c: "cached_bytes dbg (Some b) k (heap w) = Inr (bs, n, None, ob', al', fin)"
    "n = int (length bs)" "length bs \<le> k" "contents b = bs @ cached ob'"
    "\<not> fin \<longrightarrow> cached ob' = []" "fin \<longrightarrow> n = int k"
    using cached_bytes_spec [OF ok assms(5), of dbg k] unfolding cb by blast
  then have "\<not> fin" using assms(4) by auto
  with c show ?thesis by (simp add: Let_def)
qed

theorem nil_reader_loses_witness:
  "\<exists>ob' w'. obj_Read False store_Read (BufCachedReader NilObj (Some (As (Slice 7 [4, 5] 2)))) 3
      \<lparr>exts = \<lambda>_. zero_Buffer, calls = [], heap = newDefaultAllocator\<rparr>
    = Inr ([4, 5], 0, Some io_EOF, BufCachedReader NilObj ob', w')"
proof -
  have "buf_wf (As (Slice 7 [4, 5] 2))" "returnable (As (Slice 7 [4, 5] 2))"
    and c: "contents (As (Slice 7 [4, 5] 2)) = [4, 5]"
    by (simp_all add: buf_wf_def returnable_def As_def zero_Buffer_def slice_cap_def contents_def slice_of_def)
  then have "\<exists>ob' w'. obj_Read False store_Read (BufCachedReader NilObj (Some (As (Slice 7 [4, 5] 2)))) 3
      \<lparr>exts = \<lambda>_. zero_Buffer, calls = [], heap = newDefaultAllocator\<rparr>
    = Inr (contents (As (Slice 7 [4, 5] 2)), 0, Some io_EOF, BufCachedReader NilObj ob', w') \<and> cached ob' = []"
    using alloc_wf_heap [OF alloc_wf_new] by (intro nil_reader_loses) simp_all
  then show ?thesis unfolding c by blast
qed

end
