(* ===== verification/Copy.thy ===== *)
theory Copy
  imports Cache
begin

text \<open>
  \<^verbatim>\<open>enhancements/iolib/copy.go\<close> and \<^verbatim>\<open>handshake.go\<close>: \<open>Copy\<close> in its three stages (the handshake and
  the cached bytes, then splicing or the generic copy), with \<^verbatim>\<open>io.CopyBuffer\<close> of the standard
  library. What lies outside the library is gathered in an environment: the methods of the
  external objects, the handshake of the destination, \<open>splice\<close>. \<open>None\<close> is "does not return".
\<close>

subsection \<open>The environment\<close>

text \<open>
  What a destination that needs a handshake can do: \<open>HandshakeBuffer\<close> (send the first bytes
  along), \<open>Handshaker\<close>, or neither, in which case the type assertion panics.
\<close>

datatype 's handshaker =
    BufferHandshaker "byte list \<Rightarrow> 's world \<Rightarrow> (int \<times> go_error option \<times> obj \<times> 's world) go"
  | PlainHandshaker "'s world \<Rightarrow> (go_error option \<times> obj \<times> 's world) go"
  | NoHandshaker

record 's env =
  DebugEnabled :: bool
  pool_choice :: nat
  ext_Read :: "nat \<Rightarrow> 's read_fn"
  ext_Write :: "nat \<Rightarrow> 's write_fn"
  ext_WriteTo :: "obj \<Rightarrow> obj \<Rightarrow> 's world \<Rightarrow> (int \<times> go_error option \<times> obj \<times> obj \<times> 's world) go option"
  ext_ReadFrom :: "obj \<Rightarrow> obj \<Rightarrow> 's world \<Rightarrow> (int \<times> go_error option \<times> obj \<times> obj \<times> 's world) go option"
  NeedHandshake :: "obj \<Rightarrow> 's world \<Rightarrow> 's handshaker option"
  SyscallConn_fails :: "obj \<Rightarrow> 's world \<Rightarrow> bool"
  splice :: "obj \<Rightarrow> obj \<Rightarrow> Func list \<Rightarrow> Func list \<Rightarrow> 's world
    \<Rightarrow> (bool \<times> int \<times> go_error option \<times> obj \<times> obj \<times> 's world) go option"

definition obj_write_fn :: "(nat \<Rightarrow> 's write_fn) \<Rightarrow> (obj \<times> 's world) write_fn" where
  "obj_write_fn wr = (\<lambda>(v, w) p. map_sum id (\<lambda>(n, err, v', w'). (n, err, (v', w'))) (obj_Write wr v p w))"

text \<open>Calling every counter of a list with a count.\<close>

definition count :: "Func list \<Rightarrow> int \<Rightarrow> 's world \<Rightarrow> 's world" where
  "count fs n w = w\<lparr>calls := calls w @ map (\<lambda>f. (f, n)) fs\<rparr>"

fun as_SyscallConn :: "obj \<Rightarrow> bool" where
  "as_SyscallConn (Ext _ i _ _ _ _) = is_SyscallConn i"
| "as_SyscallConn _ = False"

text \<open>Deferred calls of \<open>Free\<close>; only a panic of theirs is seen.\<close>

fun free_all :: "Buffer list \<Rightarrow> 's world \<Rightarrow> 's world go" where
  "free_all [] w = Inr w"
| "free_all (b # bs) w = (case Free_Buffer b (heap w) of
      Inl p \<Rightarrow> Inl p
    | Inr (_, al) \<Rightarrow> free_all bs (w\<lparr>heap := al\<rparr>))"

subsection \<open>copyEarly\<close>

text \<open>
  The handshake. The buffer it leaves to be freed on return comes first; then the count, the
  error of an early return, the source, the destination and the world.
\<close>

definition handshake :: "'s env \<Rightarrow> obj \<Rightarrow> obj \<Rightarrow> Func list \<Rightarrow> Func list \<Rightarrow> 's world
    \<Rightarrow> (Buffer list \<times> int \<times> go_error option \<times> obj \<times> obj \<times> 's world) go" where
  "handshake env dst src writeCounter readCounter w =
     (case NeedHandshake env dst w of
        None \<Rightarrow> Inr ([], 0, None, src, dst, w)
      | Some NoHandshaker \<Rightarrow> Inl TypeAssertion
      | Some (PlainHandshaker hs) \<Rightarrow>
          (case hs w of
             Inl p \<Rightarrow> Inl p
           | Inr (err, dst', w') \<Rightarrow>
               Inr ([], 0, if err \<noteq> None then Some (Cause err ''handshake'') else None, src, dst', w'))
      | Some (BufferHandshaker hs) \<Rightarrow>
          (case New (pool_choice env) (heap w) of
             Inl p \<Rightarrow> Inl p
           | Inr (b, al) \<Rightarrow>
               (case ReadFromOnce (obj_read_fn (DebugEnabled env) (ext_Read env)) b (src, w\<lparr>heap := al\<rparr>) of
                  Inl p \<Rightarrow> Inl p
                | Inr (rn, rerr, b', (src', w1)) \<Rightarrow>
                    (let w2 = count readCounter rn w1
                     in if rerr \<noteq> None then Inr ([b'], rn, Some (Cause rerr ''handshake: read''), src', dst, w2)
                        else case Bytes b' of
                          Inl p \<Rightarrow> Inl p
                        | Inr bs \<Rightarrow>
                            (case hs bs w2 of
                               Inl p \<Rightarrow> Inl p
                             | Inr (wn, werr, dst', w3) \<Rightarrow>
                                 (let w4 = count writeCounter wn w3
                                  in Inr ([b'], wn,
                                       if werr \<noteq> None then Some (Cause werr ''handshake: write'') else None,
                                       src', dst', w4)))))))"

text \<open>The loop over the cached buffers; those left when it stops are freed on return.\<close>

fun write_caches :: "'s env \<Rightarrow> obj \<Rightarrow> Func list \<Rightarrow> Func list \<Rightarrow> Buffer list \<Rightarrow> int \<Rightarrow> 's world
    \<Rightarrow> (Buffer list \<times> int \<times> go_error option \<times> obj \<times> 's world) go option" where
  "write_caches env dst writeCounter readCounter [] n w = Some (Inr ([], n, None, dst, w))"
| "write_caches env dst writeCounter readCounter (b # bs) n w =
     (case WriteTo (obj_write_fn (ext_Write env)) b (dst, w) of
        None \<Rightarrow> None
      | Some (Inl p) \<Rightarrow> Some (Inl p)
      | Some (Inr (to, err, b', (dst', w1))) \<Rightarrow>
          (let n' = wrap64 (n + to)
           in if err \<noteq> None
              then (case Free_Buffer b' (heap w1) of
                      Inl p \<Rightarrow> Some (Inl p)
                    | Inr (b'', al) \<Rightarrow>
                        Some (Inr (b'' # bs, n', Some (Cause err ''writeCache''), dst', w1\<lparr>heap := al\<rparr>)))
              else let w2 = count writeCounter to (count readCounter to w1)
                in if DebugEnabled env \<and> \<not> Empty b' then Some (Inl (PanicMsg ''buffer not WriteTo fully''))
                   else case Free_Buffer b' (heap w2) of
                     Inl p \<Rightarrow> Some (Inl p)
                   | Inr (_, al) \<Rightarrow> write_caches env dst' writeCounter readCounter bs n' (w2\<lparr>heap := al\<rparr>)))"

definition copyEarly :: "'s env \<Rightarrow> obj \<Rightarrow> obj \<Rightarrow> Func list \<Rightarrow> Func list \<Rightarrow> 's world
    \<Rightarrow> (int \<times> obj \<times> go_error option \<times> obj \<times> 's world) go option" where
  "copyEarly env dst src writeCounter readCounter w =
     (case handshake env dst src writeCounter readCounter w of
        Inl p \<Rightarrow> Some (Inl p)
      | Inr (hbuf, n, Some err, src', dst', w') \<Rightarrow>
          Some (map_sum id (\<lambda>w''. (n, src', Some err, dst', w'')) (free_all hbuf w'))
      | Inr (hbuf, n, None, src', dst', w') \<Rightarrow>
          (case PickReaderCacheList src' of
             (src'', bufs) \<Rightarrow>
               (case write_caches env dst' writeCounter readCounter bufs n w' of
                  None \<Rightarrow> None
                | Some (Inl p) \<Rightarrow> Some (Inl p)
                | Some (Inr (left, n', err, dst'', w'')) \<Rightarrow>
                    Some (map_sum id (\<lambda>w3. (n', src'', err, dst'', w3)) (free_all (left @ hbuf) w'')))))"

subsection \<open>The generic copy\<close>

abbreviation ErrInvalidWrite :: go_error where
  "ErrInvalidWrite \<equiv> Sentinel ''io.errInvalidWrite'' ''invalid write result''"

text \<open>
  The loop of \<^verbatim>\<open>io.CopyBuffer\<close>; \<open>buf\<close> is what the buffer holds (a reader may report more than it
  stored).
\<close>

partial_function (option) CopyBuffer_loop :: "(obj \<times> 's world) read_fn \<Rightarrow> (obj \<times> 's world) write_fn \<Rightarrow> obj \<Rightarrow> obj
    \<Rightarrow> 's world \<Rightarrow> byte list \<Rightarrow> int \<Rightarrow> (int \<times> go_error option \<times> obj \<times> obj \<times> 's world) go option" where
  "CopyBuffer_loop rd wr dst src w buf written =
     (case rd (src, w) (length buf) of
        Inl p \<Rightarrow> Some (Inl p)
      | Inr (bs, nr, er, (src', w1)) \<Rightarrow>
          (let buf' = overwrite buf 0 (take (length buf) bs)
           in if nr > int (length buf) then Some (Inl SliceBounds)
              else if nr > 0
              then (case wr (dst, w1) (take (nat nr) buf') of
                      Inl p \<Rightarrow> Some (Inl p)
                    | Inr (nw0, ew0, (dst', w2)) \<Rightarrow>
                        (let bad = nw0 < 0 \<or> nr < nw0;
                             nw = (if bad then 0 else nw0);
                             ew = (if bad \<and> ew0 = None then Some ErrInvalidWrite else ew0);
                             written' = wrap64 (written + nw)
                         in if ew \<noteq> None then Some (Inr (written', ew, dst', src', w2))
                            else if nr \<noteq> nw then Some (Inr (written', Some io_ErrShortWrite, dst', src', w2))
                            else if er \<noteq> None
                              then Some (Inr (written', if er \<noteq> Some io_EOF then er else None, dst', src', w2))
                            else CopyBuffer_loop rd wr dst' src' w2 buf' written'))
              else if er \<noteq> None
                then Some (Inr (written, if er \<noteq> Some io_EOF then er else None, dst, src', w1))
              else CopyBuffer_loop rd wr dst src' w1 buf' written))"

text \<open>\<open>WriteTo\<close> and \<open>ReadFrom\<close> through the wrappers that pass them on.\<close>

fun obj_WriteTo :: "'s env \<Rightarrow> obj \<Rightarrow> obj \<Rightarrow> 's world \<Rightarrow> (int \<times> go_error option \<times> obj \<times> obj \<times> 's world) go option" where
  "obj_WriteTo env (NopReadWriteToCloser r) dst w =
     (if as_WriterTo r
      then map_option (map_sum id (\<lambda>(n, err, r', dst', w'). (n, err, NopReadWriteToCloser r', dst', w')))
             (obj_WriteTo env r dst w)
      else Some (Inl TypeAssertion))"
| "obj_WriteTo env r dst w = ext_WriteTo env r dst w"

fun obj_ReadFrom :: "'s env \<Rightarrow> obj \<Rightarrow> obj \<Rightarrow> 's world \<Rightarrow> (int \<times> go_error option \<times> obj \<times> obj \<times> 's world) go option" where
  "obj_ReadFrom env (NopWriteReadFromCloser u) src w =
     (if as_ReaderFrom u
      then map_option (map_sum id (\<lambda>(n, err, u', src', w'). (n, err, NopWriteReadFromCloser u', src', w')))
             (obj_ReadFrom env u src w)
      else Some (Inl TypeAssertion))"
| "obj_ReadFrom env u src w = ext_ReadFrom env u src w"

definition io_CopyBuffer :: "'s env \<Rightarrow> obj \<Rightarrow> obj \<Rightarrow> byte list \<Rightarrow> 's world
    \<Rightarrow> (int \<times> go_error option \<times> obj \<times> obj \<times> 's world) go option" where
  "io_CopyBuffer env dst src buf w =
     (if buf = [] then Some (Inl (PanicMsg ''empty buffer in CopyBuffer''))
      else if as_WriterTo src
        then map_option (map_sum id (\<lambda>(n, err, src', dst', w'). (n, err, dst', src', w'))) (obj_WriteTo env src dst w)
      else if as_ReaderFrom dst
        then map_option (map_sum id (\<lambda>(n, err, dst', src', w'). (n, err, dst', src', w'))) (obj_ReadFrom env dst src w)
      else CopyBuffer_loop (obj_read_fn (DebugEnabled env) (ext_Read env)) (obj_write_fn (ext_Write env)) dst src w buf 0)"

definition copyGeneric :: "'s env \<Rightarrow> obj \<Rightarrow> obj \<Rightarrow> Func list \<Rightarrow> Func list \<Rightarrow> 's world
    \<Rightarrow> (int \<times> go_error option \<times> obj \<times> obj \<times> 's world) go option" where
  "copyGeneric env dst src writeCounter readCounter w =
     (case NewHuge (pool_choice env) (heap w) of
        Inl p \<Rightarrow> Some (Inl p)
      | Inr (b, al) \<Rightarrow>
          (let src' = NewReader src readCounter
           in case NewWriter dst writeCounter of
                None \<Rightarrow> None
              | Some dst' \<Rightarrow>
                  (case FreeBytes b of
                     Inl p \<Rightarrow> Some (Inl p)
                   | Inr buf \<Rightarrow>
                       (case io_CopyBuffer env dst' src' buf (w\<lparr>heap := al\<rparr>) of
                          None \<Rightarrow> None
                        | Some (Inl p) \<Rightarrow> Some (Inl p)
                        | Some (Inr (n, err, dst'', src'', w')) \<Rightarrow>
                            Some (map_sum id (\<lambda>w''. (n, err, dst'', src'', w'')) (free_all [b] w'))))))"

definition copyPure :: "'s env \<Rightarrow> obj \<Rightarrow> obj \<Rightarrow> Func list \<Rightarrow> Func list \<Rightarrow> 's world
    \<Rightarrow> (int \<times> go_error option \<times> obj \<times> obj \<times> 's world) go option" where
  "copyPure env dst src writeCounters readCounters w =
     (if as_SyscallConn src \<and> as_SyscallConn dst
         \<and> \<not> SyscallConn_fails env src w \<and> \<not> SyscallConn_fails env dst w
      then (case splice env src dst readCounters writeCounters w of
              None \<Rightarrow> None
            | Some (Inl p) \<Rightarrow> Some (Inl p)
            | Some (Inr (handed, n, err, dst', src', w')) \<Rightarrow>
                (if handed then Some (Inr (n, err, dst', src', w'))
                 else copyGeneric env dst' src' writeCounters readCounters w'))
      else copyGeneric env dst src writeCounters readCounters w)"

definition CopyCounters :: "'s env \<Rightarrow> obj \<Rightarrow> obj \<Rightarrow> Func list \<Rightarrow> Func list \<Rightarrow> 's world
    \<Rightarrow> (int \<times> go_error option \<times> obj \<times> obj \<times> 's world) go option" where
  "CopyCounters env dst src writeCounters readCounters w =
     (case copyEarly env dst src writeCounters readCounters w of
        None \<Rightarrow> None
      | Some (Inl p) \<Rightarrow> Some (Inl p)
      | Some (Inr (earlyCopied, src', err, dst', w')) \<Rightarrow>
          (if err \<noteq> None then Some (Inr (earlyCopied, Some (Cause err ''copyEarly''), dst', src', w'))
           else case copyPure env dst' src' writeCounters readCounters w' of
             None \<Rightarrow> None
           | Some (Inl p) \<Rightarrow> Some (Inl p)
           | Some (Inr (pureCopied, err2, dst'', src'', w'')) \<Rightarrow>
               (let n = wrap64 (earlyCopied + pureCopied)
                in if err2 \<noteq> None \<and> \<not> IsMulti err2 [''io.EOF'']
                   then Some (Inr (n, Some (Cause err2 ''copyPure''), dst'', src'', w''))
                   else Some (Inr (n, None, dst'', src'', w'')))))"

definition Copy :: "'s env \<Rightarrow> obj \<Rightarrow> obj \<Rightarrow> 's world
    \<Rightarrow> (int \<times> go_error option \<times> obj \<times> obj \<times> 's world) go option" where
  "Copy env destination source w =
     (case UnwrapReadCounter source of
        (source', readCounter) \<Rightarrow>
          (case UnwrapWriterCounter destination of
             None \<Rightarrow> None
           | Some (destination', writeCounter) \<Rightarrow>
               CopyCounters env destination' source' writeCounter readCounter w))"

subsection \<open>Where the bytes come from and go to\<close>

fun source_id :: "obj \<Rightarrow> nat option" where
  "source_id (Ext x _ _ _ _ _) = Some x"
| "source_id (CountReader r _) = source_id r"
| "source_id (BufCachedReader r _) = source_id r"
| "source_id (NopReadCloser_obj r) = source_id r"
| "source_id (NopReadWriteToCloser r) = source_id r"
| "source_id (ReadCloserOf r _) = source_id r"
| "source_id _ = None"

fun sink_id :: "obj \<Rightarrow> nat option" where
  "sink_id (Ext x _ _ _ _ _) = Some x"
| "sink_id (CountWriter u _) = sink_id u"
| "sink_id (NopWriteCloser_obj u) = sink_id u"
| "sink_id (NopWriteReadFromCloser u) = sink_id u"
| "sink_id (WriteCloserOf u _) = sink_id u"
| "sink_id _ = None"

text \<open>Writers whose \<open>Write\<close> is safe to call.\<close>

fun writable :: "obj \<Rightarrow> bool" where
  "writable (Ext _ i _ _ _ _) = is_Writer i"
| "writable (CountWriter u _) = writable u"
| "writable (NopWriteCloser_obj u) = writable u"
| "writable (NopWriteReadFromCloser u) = writable u"
| "writable (WriteCloserOf u _) = writable u"
| "writable _ = False"

text \<open>
  No fast path: the external object at the end of the chain has none of the methods the copy looks
  for to do better (\<open>WriteTo\<close>, \<open>ReadFrom\<close>, \<open>SyscallConn\<close>) and is no counter of its own.
\<close>

fun generic :: "obj \<Rightarrow> bool" where
  "generic (Ext _ i _ _ rc wc) =
     (\<not> is_WriterTo i \<and> \<not> is_ReaderFrom i \<and> \<not> is_SyscallConn i \<and> rc = None \<and> wc = None)"
| "generic (CountReader r _) = generic r"
| "generic (CountWriter u _) = generic u"
| "generic (BufCachedReader r _) = generic r"
| "generic (NopReadCloser_obj r) = generic r"
| "generic (ReadCloserOf r _) = generic r"
| "generic (NopWriteCloser_obj u) = generic u"
| "generic (WriteCloserOf u _) = generic u"
| "generic _ = False"

lemma generic_slow: "generic v \<Longrightarrow> \<not> as_WriterTo v \<and> \<not> as_ReaderFrom v \<and> \<not> as_SyscallConn v"
  by (cases v) auto

definition obj_sink :: "(nat \<Rightarrow> 's \<Rightarrow> byte list) \<Rightarrow> obj \<Rightarrow> 's \<Rightarrow> byte list" where
  "obj_sink sink v s = (case sink_id v of Some d \<Rightarrow> sink d s | None \<Rightarrow> [])"

lemma obj_sink_simps [simp]:
  "obj_sink sink (CountWriter u fs) s = obj_sink sink u s"
  "obj_sink sink (NopWriteCloser_obj u) s = obj_sink sink u s"
  "obj_sink sink (NopWriteReadFromCloser u) s = obj_sink sink u s"
  "obj_sink sink (WriteCloserOf u c) s = obj_sink sink u s"
  by (simp_all add: obj_sink_def)

lemma readable_source: "readable v \<Longrightarrow> source_id v \<noteq> None"
  by (induction v) auto

lemma writable_sink: "writable v \<Longrightarrow> sink_id v \<noteq> None"
  by (induction v) auto

lemma obj_pending_cong:
  "(\<And>x. source_id v = Some x \<Longrightarrow> pend x s = pend x s') \<Longrightarrow> obj_pending pend v s = obj_pending pend v s'"
  by (induction v) auto

text \<open>A buffer as \<open>PickReaderCacheList\<close> collects it.\<close>

definition cacheable :: "Buffer \<Rightarrow> bool" where
  "cacheable b \<longleftrightarrow> buf_wf b \<and> returnable b \<and> contents b \<noteq> []"

text \<open>The last call of the writer returned an error that is \<^verbatim>\<open>io.EOF\<close>; it left the state \<open>s'\<close>.\<close>

definition sink_eof :: "(nat \<Rightarrow> 's write_fn) \<Rightarrow> obj \<Rightarrow> 's \<Rightarrow> bool" where
  "sink_eof wr v s' \<longleftrightarrow> (\<exists>x s p n err. sink_id v = Some x \<and> wr x s p = Inr (n, err, s') \<and> errors_Is err ''io.EOF'')"

lemma sink_eof_cong: "sink_id v = sink_id v' \<Longrightarrow> sink_eof wr v s = sink_eof wr v' s"
  by (simp add: sink_eof_def)

text \<open>
  What is asked of a handshake: it keeps the destination and the other objects' streams; one that
  sends the first bytes along reports how many of them it sent, with an error if not all. The bytes
  of the handshake itself do not count as sent.
\<close>

fun handshake_ok :: "('s \<Rightarrow> bool) \<Rightarrow> (nat \<Rightarrow> 's \<Rightarrow> byte list) \<Rightarrow> (nat \<Rightarrow> 's \<Rightarrow> byte list) \<Rightarrow> obj \<Rightarrow> 's handshaker option \<Rightarrow> bool" where
  "handshake_ok sinv pend sink v None = True"
| "handshake_ok sinv pend sink v (Some NoHandshaker) = False"
| "handshake_ok sinv pend sink v (Some (PlainHandshaker hs)) = (\<forall>w. sinv (exts w) \<longrightarrow> heap_ok (heap w) \<longrightarrow>
     (\<exists>err w'. hs w = Inr (err, v, w') \<and> sinv (exts w') \<and> heap_ok (heap w')
       \<and> (\<forall>x. sink_id v \<noteq> Some x \<longrightarrow> pend x (exts w') = pend x (exts w)) \<and> obj_sink sink v (exts w') = obj_sink sink v (exts w)))"
| "handshake_ok sinv pend sink v (Some (BufferHandshaker hs)) = (\<forall>bs w. sinv (exts w) \<longrightarrow> heap_ok (heap w) \<longrightarrow>
     (\<exists>n err w'. hs bs w = Inr (n, err, v, w') \<and> sinv (exts w') \<and> heap_ok (heap w')
       \<and> 0 \<le> n \<and> n \<le> int (length bs) \<and> (err = None \<longrightarrow> n = int (length bs))
       \<and> (\<forall>x. sink_id v \<noteq> Some x \<longrightarrow> pend x (exts w') = pend x (exts w))
       \<and> obj_sink sink v (exts w') = obj_sink sink v (exts w) @ take (nat n) bs))"

definition sends_first_bytes :: "'s env \<Rightarrow> obj \<Rightarrow> 's world \<Rightarrow> bool" where
  "sends_first_bytes env v w \<longleftrightarrow> (\<exists>hs. NeedHandshake env v w = Some (BufferHandshaker hs))"

text \<open>
  External objects that are streams: as readers they make progress, and say end of file only at the
  end; as writers they report counts in range, with any error; and reading one object
  does not write to another, nor the other way round.
\<close>

locale ext_streams = ext_readers rd sinv pend
  for rd :: "nat \<Rightarrow> 's read_fn" and sinv :: "'s \<Rightarrow> bool" and pend :: "nat \<Rightarrow> 's \<Rightarrow> byte list" +
  fixes wr :: "nat \<Rightarrow> 's write_fn" and sink :: "nat \<Rightarrow> 's \<Rightarrow> byte list"
  assumes ext_progress: "sinv s \<Longrightarrow> 0 < k \<Longrightarrow> int k \<le> max_int \<Longrightarrow> rd x s k = Inr (bs, n, None, s') \<Longrightarrow> 0 < n"
    and ext_eof: "sinv s \<Longrightarrow> rd x s k = Inr (bs, n, err, s') \<Longrightarrow> errors_Is err ''io.EOF'' \<Longrightarrow> pend x s' = []"
    and ext_write: "sinv s \<Longrightarrow> \<exists>n err s'. wr x s p = Inr (n, err, s') \<and> 0 \<le> n \<and> n \<le> int (length p)
      \<and> sinv s' \<and> sink x s' = sink x s @ take (nat n) p"
    and read_frame: "rd x s k = Inr (bs, n, err, s') \<Longrightarrow> y \<noteq> x \<Longrightarrow> sink y s' = sink y s"
    and write_frame: "wr x s p = Inr (n, err, s') \<Longrightarrow> y \<noteq> x \<Longrightarrow> pend y s' = pend y s"

context ext_streams begin

lemma obj_Read_frame:
  "obj_Read dbg rd v k w = Inr (bs, n, err, v', w') \<Longrightarrow>
    source_id v' = source_id v \<and> (\<forall>y. source_id v \<noteq> Some y \<longrightarrow> sink y (exts w') = sink y (exts w))"
proof (induction v arbitrary: k w bs n err v' w')
  case (Ext x i ur uw rc wc)
  then show ?case using read_frame [of x "exts w" k] by (auto split: sum.splits)
next
  case (BufCachedReader r ob)
  then show ?case
    by (fastforce simp: Let_def split: sum.splits if_splits)
qed (fastforce simp: map_sum_Inr_iff split: sum.splits if_splits)+

lemma obj_Read_generic: "obj_Read dbg rd v k w = Inr (bs, n, err, v', w') \<Longrightarrow> generic v' = generic v"
proof (induction v arbitrary: k w bs n err v' w')
  case (BufCachedReader r ob)
  then show ?case by (fastforce simp: Let_def split: sum.splits if_splits)
qed (fastforce simp: map_sum_Inr_iff split: sum.splits if_splits)+

lemma obj_Read_end:
  "readable v \<Longrightarrow> sinv (exts w) \<Longrightarrow> heap_ok (heap w) \<Longrightarrow> int k \<le> max_int \<Longrightarrow>
    obj_Read dbg rd v k w = Inr (bs, n, err, v', w') \<Longrightarrow>
    (0 < k \<longrightarrow> err = None \<longrightarrow> 0 < n) \<and> (errors_Is err ''io.EOF'' \<longrightarrow> obj_pending pend v' (exts w') = [])"
proof (induction v arbitrary: k w bs n err v' w')
  case (Ext x i ur uw rc wc)
  then show ?case using ext_progress [of "exts w" k x] ext_eof [of "exts w" x k] by (auto split: sum.splits)
next
  case (CountReader r fs)
  then show ?case by (auto split: sum.splits)
next
  case (BufCachedReader r ob)
  then have ok: "cache_ok ob" and r: "readable r" by auto
  then have nil: "r \<noteq> NilObj" by auto
  obtain cs m ob' al' fin where c: "cached_bytes dbg ob k (heap w) = Inr (cs, m, None, ob', al', fin)"
    "m = int (length cs)" "length cs \<le> k" "heap_ok al'" "cached ob = cs @ cached ob'"
    "\<not> fin \<longrightarrow> cached ob' = [] \<and> (length cs < k \<or> cached ob = [])" "fin \<longrightarrow> m = int k \<and> cached ob \<noteq> []"
    using cached_bytes_spec [OF ok BufCachedReader.prems(3), of dbg k] by blast
  show ?case
  proof (cases fin)
    case True
    then have "n = m" "err = None" using c(1) BufCachedReader.prems(5) by (auto simp: Let_def)
    then show ?thesis using True c(7) by (simp add: errors_Is_def)
  next
    case False
    define w1 where "w1 = w\<lparr>heap := al'\<rparr>"
    obtain bs' n' r' where h: "obj_Read dbg rd r (k - length cs) w1 = Inr (bs', n', err, r', w')"
      "n = wrap64 (n' + m)" "v' = BufCachedReader r' ob'"
      using False c(1,2) nil BufCachedReader.prems(5) by (auto simp: Let_def w1_def split: sum.splits)
    have w1: "sinv (exts w1)" "heap_ok (heap w1)" "int (k - length cs) \<le> max_int"
      using BufCachedReader.prems(2,4) c(4) by (simp_all add: w1_def)
    have IH: "(0 < k - length cs \<longrightarrow> err = None \<longrightarrow> 0 < n') \<and> (errors_Is err ''io.EOF'' \<longrightarrow> obj_pending pend r' (exts w') = [])"
      using BufCachedReader.IH(1) [OF r w1 h(1)] .
    have "0 \<le> n' \<and> n' \<le> int (length bs') \<and> length bs' \<le> k - length cs"
      using obj_Read_spec [OF r w1, of dbg] h(1) by auto
    then have "wrap64 (n' + m) = n' + m" using c(2,3) BufCachedReader.prems(4) by (intro wrap64_nonneg) auto
    moreover have "0 < k - length cs \<or> cs = [] \<and> k = 0" using False c(5,6) by auto
    ultimately show ?thesis using IH h(2,3) False c(2,6) by auto
  qed
next
  case (NopReadCloser_obj r)
  then show ?case by (auto simp: map_sum_Inr_iff)
next
  case (NopReadWriteToCloser r)
  then show ?case by (auto simp: map_sum_Inr_iff)
next
  case (ReadCloserOf r c)
  then show ?case by (auto simp: map_sum_Inr_iff)
qed simp_all

lemma obj_Write_same: "obj_Write wr v p w = Inr (n, err, v', w') \<Longrightarrow> v' = v"
  by (induction v arbitrary: n err v' w') (auto simp: map_sum_Inr_iff split: sum.splits)

lemma obj_Write_spec:
  "writable v \<Longrightarrow> sinv (exts w) \<Longrightarrow>
    \<exists>n err v' w'. obj_Write wr v p w = Inr (n, err, v', w') \<and> 0 \<le> n \<and> n \<le> int (length p)
      \<and> writable v' \<and> sink_id v' = sink_id v \<and> sinv (exts w') \<and> heap w' = heap w
      \<and> obj_sink sink v (exts w') = obj_sink sink v (exts w) @ take (nat n) p
      \<and> (errors_Is err ''io.EOF'' \<longrightarrow> sink_eof wr v (exts w')) \<and> (\<forall>x. sink_id v \<noteq> Some x \<longrightarrow> pend x (exts w') = pend x (exts w))"
proof (induction v)
  case (Ext x i ur uw rc wc)
  then obtain n err s' where h: "wr x (exts w) p = Inr (n, err, s')" "0 \<le> n" "n \<le> int (length p)" "sinv s'"
    "sink x s' = sink x (exts w) @ take (nat n) p"
    using ext_write [of "exts w" x p] by blast
  have "\<forall>y. x \<noteq> y \<longrightarrow> pend y s' = pend y (exts w)" using write_frame [OF h(1)] by metis
  moreover have "errors_Is err ''io.EOF'' \<longrightarrow> sink_eof wr (Ext x i ur uw rc wc) s'"
    using h(1) by (auto simp: sink_eof_def)
  ultimately show ?case using Ext.prems h by (simp add: obj_sink_def)
next
  case (CountWriter u fs)
  then obtain n err u' w' where "obj_Write wr u p w = Inr (n, err, u', w')" "0 \<le> n" "n \<le> int (length p)"
    "writable u'" "sink_id u' = sink_id u" "sinv (exts w')" "heap w' = heap w"
    "obj_sink sink u (exts w') = obj_sink sink u (exts w) @ take (nat n) p"
    "errors_Is err ''io.EOF'' \<longrightarrow> sink_eof wr u (exts w')" "\<forall>x. sink_id u \<noteq> Some x \<longrightarrow> pend x (exts w') = pend x (exts w)" by auto
  then show ?case using sink_eof_cong [of "CountWriter u fs" u wr "exts w'"] by simp
next
  case (NopWriteCloser_obj u)
  then obtain n err u' w' where "obj_Write wr u p w = Inr (n, err, u', w')" "0 \<le> n" "n \<le> int (length p)"
    "writable u'" "sink_id u' = sink_id u" "sinv (exts w')" "heap w' = heap w"
    "obj_sink sink u (exts w') = obj_sink sink u (exts w) @ take (nat n) p"
    "errors_Is err ''io.EOF'' \<longrightarrow> sink_eof wr u (exts w')" "\<forall>x. sink_id u \<noteq> Some x \<longrightarrow> pend x (exts w') = pend x (exts w)" by auto
  then show ?case using sink_eof_cong [of "NopWriteCloser_obj u" u wr "exts w'"] by simp
next
  case (NopWriteReadFromCloser u)
  then obtain n err u' w' where "obj_Write wr u p w = Inr (n, err, u', w')" "0 \<le> n" "n \<le> int (length p)"
    "writable u'" "sink_id u' = sink_id u" "sinv (exts w')" "heap w' = heap w"
    "obj_sink sink u (exts w') = obj_sink sink u (exts w) @ take (nat n) p"
    "errors_Is err ''io.EOF'' \<longrightarrow> sink_eof wr u (exts w')" "\<forall>x. sink_id u \<noteq> Some x \<longrightarrow> pend x (exts w') = pend x (exts w)" by auto
  then show ?case using sink_eof_cong [of "NopWriteReadFromCloser u" u wr "exts w'"] by simp
next
  case (WriteCloserOf u c)
  then obtain n err u' w' where "obj_Write wr u p w = Inr (n, err, u', w')" "0 \<le> n" "n \<le> int (length p)"
    "writable u'" "sink_id u' = sink_id u" "sinv (exts w')" "heap w' = heap w"
    "obj_sink sink u (exts w') = obj_sink sink u (exts w) @ take (nat n) p"
    "errors_Is err ''io.EOF'' \<longrightarrow> sink_eof wr u (exts w')" "\<forall>x. sink_id u \<noteq> Some x \<longrightarrow> pend x (exts w') = pend x (exts w)" by auto
  then show ?case using sink_eof_cong [of "WriteCloserOf u c" u wr "exts w'"] by simp
qed simp_all

text \<open>
  A pair the copy can work on: a readable source, a writable destination, not the same object.
\<close>

definition good :: "obj \<Rightarrow> obj \<Rightarrow> 's world \<Rightarrow> bool" where
  "good dst src w \<longleftrightarrow> readable src \<and> writable dst \<and> source_id src \<noteq> sink_id dst \<and> sinv (exts w) \<and> heap_ok (heap w)"

lemma good_Write:
  assumes g: "good dst src w"
  shows "\<exists>n err dst' w'. obj_Write wr dst p w = Inr (n, err, dst', w') \<and> 0 \<le> n \<and> n \<le> int (length p)
    \<and> good dst' src w' \<and> obj_sink sink dst' (exts w') = obj_sink sink dst (exts w) @ take (nat n) p
    \<and> obj_pending pend src (exts w') = obj_pending pend src (exts w) \<and> (errors_Is err ''io.EOF'' \<longrightarrow> sink_eof wr dst (exts w'))
    \<and> dst' = dst"
proof -
  obtain n err v' w' where h: "obj_Write wr dst p w = Inr (n, err, v', w')" "0 \<le> n" "n \<le> int (length p)"
    "writable v'" "sink_id v' = sink_id dst" "sinv (exts w')" "heap w' = heap w"
    "obj_sink sink dst (exts w') = obj_sink sink dst (exts w) @ take (nat n) p" "errors_Is err ''io.EOF'' \<longrightarrow> sink_eof wr dst (exts w')"
    "\<forall>x. sink_id dst \<noteq> Some x \<longrightarrow> pend x (exts w') = pend x (exts w)"
    using obj_Write_spec [of dst w p] g unfolding good_def by blast
  have "obj_pending pend src (exts w') = obj_pending pend src (exts w)"
    using h(10) g by (intro obj_pending_cong) (auto simp: good_def)
  moreover have "v' = dst" using h(1) by (rule obj_Write_same)
  ultimately show ?thesis using h g by (simp add: good_def)
qed

lemma good_Read:
  assumes g: "good dst src w" and k: "int k \<le> max_int"
  shows "\<exists>bs n err src' w'. obj_Read dbg rd src k w = Inr (bs, n, err, src', w') \<and> 0 \<le> n \<and> n \<le> int (length bs)
    \<and> length bs \<le> k \<and> good dst src' w' \<and> obj_pending pend src (exts w) = take (nat n) bs @ obj_pending pend src' (exts w')
    \<and> obj_sink sink dst (exts w') = obj_sink sink dst (exts w)
    \<and> (0 < k \<longrightarrow> err = None \<longrightarrow> 0 < n) \<and> (errors_Is err ''io.EOF'' \<longrightarrow> obj_pending pend src' (exts w') = [])"
proof -
  have p: "readable src" "sinv (exts w)" "heap_ok (heap w)" using g by (auto simp: good_def)
  obtain bs n err src' w' where h: "obj_Read dbg rd src k w = Inr (bs, n, err, src', w')" "0 \<le> n" "n \<le> int (length bs)"
    "length bs \<le> k" "readable src'" "sinv (exts w')" "heap_ok (heap w')"
    "obj_pending pend src (exts w) = take (nat n) bs @ obj_pending pend src' (exts w')"
    using obj_Read_spec [OF p k, of dbg] by blast
  note e = obj_Read_end [OF p k h(1)] and f = obj_Read_frame [OF h(1)]
  have "obj_sink sink dst (exts w') = obj_sink sink dst (exts w)"
    using f g by (auto simp: good_def obj_sink_def split: option.split)
  with h e f g show ?thesis by (simp add: good_def)
qed

text \<open>
  The loop of the generic copy: what it took from the source has reached the destination, save
  the last piece when the destination failed.
\<close>

abbreviation copied :: "obj \<Rightarrow> obj \<Rightarrow> 's world \<Rightarrow> int \<Rightarrow> int \<times> go_error option \<times> obj \<times> obj \<times> 's world \<Rightarrow> bool" where
  "copied dst src w n0 r \<equiv> (case r of (n, err, dst', src', w') \<Rightarrow> good dst' src' w'
    \<and> (\<exists>ds lost. obj_pending pend src (exts w) = ds @ lost @ obj_pending pend src' (exts w')
        \<and> obj_sink sink dst' (exts w') = obj_sink sink dst (exts w) @ ds \<and> n = n0 + int (length ds)
        \<and> (err = None \<or> errors_Is err ''io.EOF'' \<longrightarrow>
             lost = [] \<and> obj_pending pend src' (exts w') = [] \<or> sink_eof wr dst (exts w'))))"

lemma CopyBuffer_loop_copies:
  "good dst src w \<Longrightarrow> 0 < length buf \<Longrightarrow> int (length buf) \<le> max_int \<Longrightarrow> 0 \<le> n0 \<Longrightarrow>
    n0 + int (length (obj_pending pend src (exts w))) \<le> max_int \<Longrightarrow>
    \<exists>r. CopyBuffer_loop (obj_read_fn dbg rd) (obj_write_fn wr) dst src w buf n0 = Some (Inr r) \<and> copied dst src w n0 r"
proof (induction "length (obj_pending pend src (exts w))" arbitrary: dst src w buf n0 rule: less_induct)
  case less
  let ?loop = "CopyBuffer_loop (obj_read_fn dbg rd) (obj_write_fn wr)"
  define P where "P = (\<lambda>v (w :: 's world). obj_pending pend v (exts w))"
  define S where "S = (\<lambda>v (w :: 's world). obj_sink sink v (exts w))"
  obtain bs nr er src1 w1 where rd: "obj_Read dbg rd src (length buf) w = Inr (bs, nr, er, src1, w1)"
    and r: "0 \<le> nr" "nr \<le> int (length bs)" "length bs \<le> length buf" "good dst src1 w1"
      "P src w = take (nat nr) bs @ P src1 w1" "S dst w1 = S dst w"
      "er = None \<longrightarrow> 0 < nr" "errors_Is er ''io.EOF'' \<longrightarrow> P src1 w1 = []"
    using good_Read [OF less.prems(1,3), of dbg] less.prems(2) by (auto simp: P_def S_def)
  define buf1 where "buf1 = overwrite buf 0 (take (length buf) bs)"
  define ds where "ds = take (nat nr) bs"
  have buf1: "length buf1 = length buf" and tk: "take (nat nr) buf1 = ds" and nds: "int (length ds) = nr"
    using r(1-3) by (simp_all add: buf1_def ds_def overwrite_def nat_le_iff)
  have readfn: "obj_read_fn dbg rd (src, w) (length buf) = Inr (bs, nr, er, (src1, w1))"
    using rd by (simp add: obj_read_fn_def)
  have nle: "\<not> nr > int (length buf)" using r(2,3) by simp
  show ?case
  proof (cases "nr = 0")
    case True
    then have er: "er \<noteq> None" using r(7) by auto
    then have "?loop dst src w buf n0 = Some (Inr (n0, if er \<noteq> Some io_EOF then er else None, dst, src1, w1))"
      using readfn nle True by (subst CopyBuffer_loop.simps) (simp add: Let_def)
    moreover have "copied dst src w n0 (n0, if er \<noteq> Some io_EOF then er else None, dst, src1, w1)"
      using r(4-6,8) er True unfolding prod.case P_def S_def
      by (intro conjI exI [of _ "[]"]) (auto simp: errors_Is_def split: if_splits)
    ultimately show ?thesis by blast
  next
    case False
    then have pos: "nr > 0" using r(1) by simp
    obtain nw ew dst1 w2 where wr: "obj_Write wr dst ds w1 = Inr (nw, ew, dst1, w2)"
      and v: "0 \<le> nw" "nw \<le> nr" "good dst1 src1 w2" "S dst1 w2 = S dst w1 @ take (nat nw) ds"
        "P src1 w2 = P src1 w1" "errors_Is ew ''io.EOF'' \<longrightarrow> sink_eof wr dst (exts w2)" "dst1 = dst"
      using good_Write [OF r(4), of ds] nds by (auto simp: P_def S_def)
    have len: "int (length (P src w)) = nr + int (length (P src1 w2))"
      using r(5) v(5) nds by (simp add: ds_def)
    have fits: "n0 + nr + int (length (P src1 w2)) \<le> max_int" using less.prems(5) len unfolding P_def by linarith
    have nn: "wrap64 (n0 + nw) = n0 + nw" using less.prems(4) v(1,2) fits by (intro wrap64_nonneg) auto
    have writefn: "obj_write_fn wr (dst, w1) ds = Inr (nw, ew, (dst1, w2))" using wr by (simp add: obj_write_fn_def)
    have step: "?loop dst src w buf n0
        = (if ew \<noteq> None then Some (Inr (n0 + nw, ew, dst1, src1, w2))
           else if nr \<noteq> nw then Some (Inr (n0 + nw, Some io_ErrShortWrite, dst1, src1, w2))
           else if er \<noteq> None then Some (Inr (n0 + nw, if er \<noteq> Some io_EOF then er else None, dst1, src1, w2))
           else ?loop dst1 src1 w2 buf1 (n0 + nw))"
      using readfn nle pos writefn v(1,2) nn
      by (subst CopyBuffer_loop.simps) (simp add: Let_def buf1_def [symmetric] tk)
    have split: "P src w = take (nat nw) ds @ drop (nat nw) ds @ P src1 w2"
      using r(5) v(5) unfolding ds_def [symmetric] by simp
    have S1: "S dst1 w2 = S dst w @ take (nat nw) ds" using v(4) r(6) by simp
    have l1: "n0 + nw = n0 + int (length (take (nat nw) ds))" using v(1,2) nds by simp
    have stop: "copied dst src w n0 (n0 + nw, e, dst1, src1, w2)"
      if "e = None \<or> errors_Is e ''io.EOF'' \<Longrightarrow> drop (nat nw) ds = [] \<and> P src1 w2 = [] \<or> sink_eof wr dst (exts w2)" for e
      using v(3) split S1 l1 that unfolding prod.case P_def S_def by blast
    consider (ew) "ew \<noteq> None" | (short) "ew = None" "nr \<noteq> nw" | (er) "ew = None" "nr = nw" "er \<noteq> None"
      | (on) "ew = None" "nr = nw" "er = None" by blast
    then show ?thesis
    proof cases
      case ew
      then show ?thesis using step stop [of ew] v(6) by auto
    next
      case short
      then show ?thesis using step stop [of "Some io_ErrShortWrite"] by (auto simp: errors_Is_def)
    next
      case er
      have "drop (nat nw) ds = []" using er(2) nds by simp
      moreover have "errors_Is er ''io.EOF'' \<or> er = Some io_EOF \<Longrightarrow> P src1 w2 = []"
        using r(8) v(5) by (auto simp: errors_Is_def)
      ultimately show ?thesis
        using step er stop [of "if er \<noteq> Some io_EOF then er else None"] by (auto simp: errors_Is_def split: if_splits)
    next
      case on
      have small: "length (obj_pending pend src1 (exts w2)) < length (obj_pending pend src (exts w))"
        using len pos by (simp add: P_def)
      obtain r' where r': "?loop dst1 src1 w2 buf1 (n0 + nw) = Some (Inr r')" "copied dst1 src1 w2 (n0 + nw) r'"
        using less.hyps [OF small v(3), of buf1 "n0 + nw"] less.prems(2-4) v(1) fits on buf1 by (auto simp: P_def)
      obtain n err dst' src' w' where rr: "r' = (n, err, dst', src', w')" by (cases r')
      obtain es lost where e: "P src1 w2 = es @ lost @ P src' w'" "S dst' w' = S dst1 w2 @ es"
        "n = n0 + nw + int (length es)"
        "err = None \<or> errors_Is err ''io.EOF'' \<longrightarrow> lost = [] \<and> P src' w' = [] \<or> sink_eof wr dst (exts w')" "good dst' src' w'"
        using r'(2) v(7) unfolding rr prod.case P_def S_def by blast
      have "P src w = (ds @ es) @ lost @ P src' w'" "S dst' w' = S dst w @ (ds @ es)"
        "n = n0 + int (length (ds @ es))"
        using split e S1 on nds by simp_all
      with e(4,5) have "copied dst src w n0 r'" unfolding rr prod.case P_def S_def by blast
      with step on r'(1) show ?thesis by auto
    qed
  qed
qed

text \<open>The cached buffers.\<close>

lemma good_cong: "good dst src w \<Longrightarrow> exts w' = exts w \<Longrightarrow> heap_ok (heap w') \<Longrightarrow> good dst src w'"
  by (simp add: good_def)

lemma cache_writer:
  "io_sink_writer (obj_write_fn wr)
     (\<lambda>(v, w). good v src w \<and> v = d \<and> obj_pending pend src (exts w) = q) (\<lambda>(v, w). obj_sink sink v (exts w))"
proof unfold_locales
  fix ws p assume inv: "(\<lambda>(v, w). good v src w \<and> v = d \<and> obj_pending pend src (exts w) = q) ws"
  then show "\<exists>n err ws'. obj_write_fn wr ws p = Inr (n, err, ws') \<and> 0 \<le> n \<and> n \<le> int (length p)
      \<and> (\<lambda>(v, w). good v src w \<and> v = d \<and> obj_pending pend src (exts w) = q) ws'"
    using good_Write [of "fst ws" src "snd ws" p] by (auto simp: obj_write_fn_def case_prod_beta)
next
  fix ws p n err ws' assume inv: "(\<lambda>(v, w). good v src w \<and> v = d \<and> obj_pending pend src (exts w) = q) ws"
    and wr: "obj_write_fn wr ws p = Inr (n, err, ws')"
  then show "(\<lambda>(v, w). obj_sink sink v (exts w)) ws' = (\<lambda>(v, w). obj_sink sink v (exts w)) ws @ take (nat n) p"
    using good_Write [of "fst ws" src "snd ws" p] by (auto simp: obj_write_fn_def case_prod_beta)
qed

lemma WriteTo_cached:
  assumes b: "cacheable b" and g: "good dst src w"
  shows "\<exists>to err b' dst' w1 ds. WriteTo (obj_write_fn wr) b (dst, w) = Some (Inr (to, err, b', (dst', w1)))
    \<and> buf_wf b' \<and> returnable b' \<and> contents b = ds @ contents b' \<and> to = int (length ds)
    \<and> (err = None \<longrightarrow> contents b' = []) \<and> good dst' src w1 \<and> dst' = dst
    \<and> obj_pending pend src (exts w1) = obj_pending pend src (exts w)
    \<and> obj_sink sink dst' (exts w1) = obj_sink sink dst (exts w) @ ds"
proof -
  have "buf_wf b" "contents b \<noteq> []" using b by (auto simp: cacheable_def)
  from WriteTo_total [OF cache_writer [of src dst "obj_pending pend src (exts w)"], of b "(dst, w)"] this g
  obtain to err b' v' ds where h: "WriteTo (obj_write_fn wr) b (dst, w) = Some (Inr (to, err, b', v'))" "buf_wf b'"
    "(\<lambda>(v, w'). good v src w' \<and> v = dst
        \<and> obj_pending pend src (exts w') = obj_pending pend src (exts w)) v'"
    "contents b = ds @ contents b'" "(\<lambda>(v, w). obj_sink sink v (exts w)) v' = obj_sink sink dst (exts w) @ ds"
    "to = int (length ds)" "err = None \<longrightarrow> contents b' = []" "data b' = data b" "managed b' = managed b"
    by auto
  have "returnable b'" using b h(8,9) by (simp add: cacheable_def returnable_def)
  with h show ?thesis by (cases v') auto
qed

lemma write_caches_spec:
  assumes env: "ext_Write env = wr"
  shows "good dst src w \<Longrightarrow> list_all cacheable bs \<Longrightarrow> 0 \<le> n \<Longrightarrow>
    n + int (length (concat (map contents bs))) \<le> max_int \<Longrightarrow>
    \<exists>rest n' err dst' w' ds lost. write_caches env dst wc rc bs n w = Some (Inr (rest, n', err, dst', w'))
      \<and> good dst' src w' \<and> concat (map contents bs) = ds @ lost
      \<and> obj_sink sink dst' (exts w') = obj_sink sink dst (exts w) @ ds \<and> n' = n + int (length ds)
      \<and> (err = None \<longrightarrow> lost = []) \<and> list_all returnable rest \<and> dst' = dst
      \<and> obj_pending pend src (exts w') = obj_pending pend src (exts w)"
proof (induction bs arbitrary: dst n w)
  case Nil
  then show ?case by simp
next
  case (Cons b bs)
  have b: "cacheable b" and bs: "list_all cacheable bs" using Cons.prems(2) by auto
  obtain to err b' dst1 w1 ds where h: "WriteTo (obj_write_fn wr) b (dst, w) = Some (Inr (to, err, b', (dst1, w1)))"
    "buf_wf b'" "returnable b'" "contents b = ds @ contents b'" "to = int (length ds)"
    "err = None \<longrightarrow> contents b' = []" "good dst1 src w1" "dst1 = dst"
    "obj_pending pend src (exts w1) = obj_pending pend src (exts w)"
    "obj_sink sink dst1 (exts w1) = obj_sink sink dst (exts w) @ ds"
    using WriteTo_cached [OF b Cons.prems(1)] by blast
  have nn: "wrap64 (n + to) = n + to" using Cons.prems(3,4) h(4,5) by (intro wrap64_nonneg) auto
  show ?case
  proof (cases "err = None")
    case False
    have "heap_ok (heap w1)" using h(7) by (simp add: good_def)
    from Free_Buffer_returns [OF this h(3)] obtain b2 al
      where f: "Free_Buffer b' (heap w1) = Inr (b2, al)" "heap_ok al" "returnable b2" by blast
    have g2: "good dst1 src (w1\<lparr>heap := al\<rparr>)" using h(7) f(2) by (intro good_cong [OF h(7)]) simp_all
    have "list_all returnable (b2 # bs)" using f(3) bs by (auto simp: cacheable_def list_all_iff)
    then show ?thesis using False f h nn env g2 by (simp add: Let_def)
  next
    case True
    then have nil: "contents b' = []" using h(6) by blast
    then have emp: "Empty b'" using contents_Nil_iff [OF h(2)] by blast
    define w2 where "w2 = count wc to (count rc to w1)"
    have w2: "exts w2 = exts w1" "heap w2 = heap w1" by (simp_all add: w2_def count_def)
    have "heap_ok (heap w2)" using h(7) w2 by (simp add: good_def)
    from Free_Buffer_returns [OF this h(3)] obtain b2 al
      where f: "Free_Buffer b' (heap w2) = Inr (b2, al)" "heap_ok al" by blast
    define w3 where "w3 = w2\<lparr>heap := al\<rparr>"
    have w3: "exts w3 = exts w1" and g3: "good dst1 src w3"
      using w2 f(2) good_cong [OF h(7), of w3] by (simp_all add: w3_def)
    have step: "write_caches env dst wc rc (b # bs) n w = write_caches env dst1 wc rc bs (n + to) w3"
      using True h(1) emp nn env f(1) by (simp add: Let_def w2_def [symmetric] w3_def)
    have fits: "0 \<le> n + to" "n + to + int (length (concat (map contents bs))) \<le> max_int"
      using Cons.prems(3,4) h(4,5) nil by auto
    obtain rest n' err' dst' w' es lost where r: "write_caches env dst1 wc rc bs (n + to) w3 = Some (Inr (rest, n', err', dst', w'))"
      "good dst' src w'" "concat (map contents bs) = es @ lost"
      "obj_sink sink dst' (exts w') = obj_sink sink dst1 (exts w3) @ es" "n' = n + to + int (length es)"
      "err' = None \<longrightarrow> lost = []" "list_all returnable rest" "dst' = dst1"
      "obj_pending pend src (exts w') = obj_pending pend src (exts w3)"
      using Cons.IH [OF g3 bs fits] by blast
    have "concat (map contents (b # bs)) = (ds @ es) @ lost" using h(4) nil r(3) by simp
    moreover have "obj_sink sink dst' (exts w') = obj_sink sink dst (exts w) @ (ds @ es)" using r(4) w3 h(10) by simp
    moreover have "n' = n + int (length (ds @ es))" using r(5) h(5) by simp
    moreover have "dst' = dst" "obj_pending pend src (exts w') = obj_pending pend src (exts w)"
      using r(8,9) h(8,9) w3 by simp_all
    ultimately show ?thesis using step r(1,2,6,7)
      by (intro exI [of _ rest] exI [of _ n'] exI [of _ err'] exI [of _ dst'] exI [of _ w']
          exI [of _ "ds @ es"] exI [of _ lost]) (simp del: write_caches.simps)
  qed
qed

end

lemma free_all_returns:
  "heap_ok (heap w) \<Longrightarrow> list_all returnable bs \<Longrightarrow>
    \<exists>w'. free_all bs w = Inr w' \<and> exts w' = exts w \<and> calls w' = calls w \<and> heap_ok (heap w')"
proof (induction bs arbitrary: w)
  case (Cons b bs)
  then obtain b' al where "Free_Buffer b (heap w) = Inr (b', al)" "heap_ok al"
    using Free_Buffer_returns [of "heap w" b] by auto
  with Cons.IH [of "w\<lparr>heap := al\<rparr>"] Cons.prems show ?case by simp
qed simp

lemma PickReaderCacheList_loop_facts:
  "readable r \<Longrightarrow> PickReaderCacheList_loop r acc = (r', bufs) \<Longrightarrow> readable r' \<and> source_id r' = source_id r
    \<and> (generic r \<longrightarrow> generic r') \<and> (\<exists>bs. bufs = acc @ bs \<and> list_all cacheable bs
        \<and> (\<forall>s. obj_pending pend r s = concat (map contents bs) @ obj_pending pend r' s))"
proof (induction r acc rule: PickReaderCacheList_loop.induct)
  case (1 r acc)
  show ?case
  proof (cases "\<exists>u ob. r = BufCachedReader u ob")
    case False
    then have "PickReaderCache r = (r, None)" by (cases r) (auto simp: PickReaderCache_def)
    with 1(3,4) show ?thesis by (auto simp: PickReaderCacheList_loop.simps [of r])
  next
    case True
    then obtain u ob where r: "r = BufCachedReader u ob" by blast
    show ?thesis
    proof (cases ob)
      case None
      with 1(3,4) r show ?thesis
        by (auto simp: PickReaderCacheList_loop.simps [of "BufCachedReader u None"] PickReaderCache_def cached_def)
    next
      case (Some b)
      then have pick: "PickReaderCache r = (u, Some (DecRef b))" using r by (simp add: PickReaderCache_def)
      have u: "readable u" using 1(3) r by simp
      show ?thesis
      proof (cases "Empty b")
        case True
        then have "PickReaderCacheList_loop u acc = (r', bufs)"
          using 1(4) pick by (simp add: PickReaderCacheList_loop.simps [of r])
        moreover have "Empty (DecRef b)" using True by simp
        ultimately show ?thesis using 1(1) [OF pick [symmetric] refl _ u] r Some True
          by (simp add: cached_def contents_Empty)
      next
        case False
        have c: "contents (DecRef b) = contents b" by (simp add: DecRef_def contents_def)
        have "buf_wf b" "returnable b" using False 1(3) r Some by (auto simp: cache_ok_def)
        then have "buf_wf (DecRef b)" "returnable (DecRef b)" "contents b \<noteq> []"
          using False contents_Nil_iff [of b] by (simp_all add: DecRef_def buf_wf_def returnable_def)
        then have cb: "cacheable (DecRef b)" by (simp add: cacheable_def c)
        have "PickReaderCacheList_loop u (acc @ [DecRef b]) = (r', bufs)"
          using False 1(4) pick by (simp add: PickReaderCacheList_loop.simps [of r])
        moreover have "\<not> Empty (DecRef b)" using False by simp
        ultimately obtain bs where "readable r'" "source_id r' = source_id u" "generic u \<longrightarrow> generic r'" "bufs = (acc @ [DecRef b]) @ bs" "list_all cacheable bs"
          "\<forall>s. obj_pending pend u s = concat (map contents bs) @ obj_pending pend r' s"
          using 1(2) [OF pick [symmetric] refl _ u] by blast
        then show ?thesis using r Some cb c
          by (intro conjI exI [of _ "DecRef b # bs"]) (simp_all add: cached_def)
      qed
    qed
  qed
qed

lemma returnable_stored: "returnable b \<Longrightarrow> returnable (stored b bs n)"
  by (cases "data b") (auto simp: returnable_def)

context ext_streams begin

text \<open>
  The early stage: what it took from the source has reached the destination, save what is lost with
  an error. Its count is the number of bytes sent, except when the read of the first bytes fails:
  then it is the number of the bytes read, which are lost.
\<close>

abbreviation early_count :: "'s env \<Rightarrow> obj \<Rightarrow> 's world \<Rightarrow> int \<Rightarrow> go_error option \<Rightarrow> byte list \<Rightarrow> byte list \<Rightarrow> bool" where
  "early_count env dst w n err ds lost \<equiv> n = int (length ds)
     \<or> sends_first_bytes env dst w \<and> err \<noteq> None \<and> ds = [] \<and> n = int (length lost)"

lemma handshake_spec:
  assumes env: "ext_Read env = rd" and hs: "handshake_ok sinv pend sink dst (NeedHandshake env dst w)"
    and g: "good dst src w"
  shows "\<exists>hbuf n err src' w' ds lost. handshake env dst src wc rc w = Inr (hbuf, n, err, src', dst, w')
    \<and> list_all returnable hbuf \<and> good dst src' w'
    \<and> obj_pending pend src (exts w) = ds @ lost @ obj_pending pend src' (exts w')
    \<and> obj_sink sink dst (exts w') = obj_sink sink dst (exts w) @ ds \<and> early_count env dst w n err ds lost
    \<and> (err = None \<longrightarrow> lost = [] \<and> n = int (length ds)) \<and> (generic src \<longrightarrow> generic src')"
proof -
  have gw: "sinv (exts w)" "heap_ok (heap w)" "source_id src \<noteq> sink_id dst" using g by (auto simp: good_def)
  have apart: "obj_pending pend v (exts w2) = obj_pending pend v (exts w1)"
    if "\<forall>x. sink_id dst \<noteq> Some x \<longrightarrow> pend x (exts w2) = pend x (exts w1)" "good dst v w1" for v and w1 w2 :: "'s world"
    using that by (intro obj_pending_cong) (auto simp: good_def)
  consider (no) "NeedHandshake env dst w = None" | (plain) hs where "NeedHandshake env dst w = Some (PlainHandshaker hs)"
    | (buf) hs where "NeedHandshake env dst w = Some (BufferHandshaker hs)"
    using assms(2) by (metis handshaker.exhaust handshake_ok.simps(2) option.exhaust)
  then show ?thesis
  proof cases
    case no
    then show ?thesis using g by (simp add: handshake_def)
  next
    case plain
    then obtain err w' where h: "hs w = Inr (err, dst, w')" "sinv (exts w')" "heap_ok (heap w')"
      "\<forall>x. sink_id dst \<noteq> Some x \<longrightarrow> pend x (exts w') = pend x (exts w)"
      "obj_sink sink dst (exts w') = obj_sink sink dst (exts w)"
      using assms(2) gw by auto
    have "good dst src w'" using g h(2,3) by (simp add: good_def)
    with plain h(1,5) apart [OF h(4) g] show ?thesis by (simp add: handshake_def)
  next
    case buf
    have sends: "sends_first_bytes env dst w" using buf by (simp add: sends_first_bytes_def)
    have "0 < BufferDefaultSize" "BufferDefaultSize \<le> 65535" by (simp_all add: BufferDefaultSize_def)
    from NewSize_heap [OF gw(2) this, of "pool_choice env"] obtain b al where
      b: "New (pool_choice env) (heap w) = Inr (b, al)" "heap_ok al" "returnable b" "buf_wf b" "contents b = []"
        "room b = nat BufferDefaultSize" unfolding New_def by blast
    obtain fb where fb: "FreeBytes b = Inr fb" "length fb = room b" using FreeBytes_eq [OF b(4)] by blast
    have full: "\<not> Full b" using b(6) Full_iff_room [OF b(4)] by (simp add: BufferDefaultSize_def)
    define w0 where "w0 = w\<lparr>heap := al\<rparr>"
    have g0: "good dst src w0" "exts w0 = exts w" using good_cong [OF g, of w0] b(2) by (simp_all add: w0_def)
    obtain bs rn rerr src1 w1 where r: "obj_Read (DebugEnabled env) rd src (room b) w0 = Inr (bs, rn, rerr, src1, w1)"
      "0 \<le> rn" "rn \<le> int (length bs)" "length bs \<le> room b" "good dst src1 w1"
      "obj_pending pend src (exts w0) = take (nat rn) bs @ obj_pending pend src1 (exts w1)"
      "obj_sink sink dst (exts w1) = obj_sink sink dst (exts w0)"
      using good_Read [OF g0(1) room_max [OF b(4)]] by blast
    define b1 where "b1 = stored b bs rn"
    have rb: "rn \<le> int (room b)" using r(3,4) by linarith
    note st = stored_facts [OF b(4) r(2) rb r(3,4), folded b1_def]
    have once: "ReadFromOnce (obj_read_fn (DebugEnabled env) rd) b (src, w0) = Inr (rn, rerr, b1, (src1, w1))"
      using full fb r(1,4) by (simp add: ReadFromOnce_def obj_read_fn_def b1_def)
    have bytes: "Bytes b1 = Inr (take (nat rn) bs)" using Bytes_eq [OF st(1)] st(2) b(5) by simp
    have ret: "returnable b1" using b(3) by (simp add: b1_def returnable_stored)
    define w2 where "w2 = count rc rn w1"
    have w2: "exts w2 = exts w1" "heap w2 = heap w1" by (simp_all add: w2_def count_def)
    have g2: "good dst src1 w2" using good_cong [OF r(5) w2(1)] r(5) w2(2) by (simp add: good_def)
    have gen: "generic src \<longrightarrow> generic src1" using obj_Read_generic [OF r(1)] by simp
    note run = buf b(1) once [unfolded w0_def, folded env]
    show ?thesis
    proof (cases "rerr = None")
      case False
      then have "handshake env dst src wc rc w = Inr ([b1], rn, Some (Cause rerr ''handshake: read''), src1, dst, w2)"
        using run env by (simp add: handshake_def w2_def)
      moreover have "rn = int (length (take (nat rn) bs))" using r(2,3) by simp
      ultimately show ?thesis using ret g2 r(6,7) w2(1) g0(2) sends gen
        by (intro exI [of _ "[b1]"] exI [of _ rn] exI [of _ "Some (Cause rerr ''handshake: read'')"] exI [of _ src1]
            exI [of _ w2] exI [of _ "[]"] exI [of _ "take (nat rn) bs"]) simp
    next
      case True
      have "sinv (exts w2)" "heap_ok (heap w2)" using g2 by (auto simp: good_def)
      then obtain wn werr w3 where h: "hs (take (nat rn) bs) w2 = Inr (wn, werr, dst, w3)" "sinv (exts w3)" "heap_ok (heap w3)"
        "0 \<le> wn" "wn \<le> int (length (take (nat rn) bs))" "werr = None \<longrightarrow> wn = int (length (take (nat rn) bs))"
        "\<forall>x. sink_id dst \<noteq> Some x \<longrightarrow> pend x (exts w3) = pend x (exts w2)"
        "obj_sink sink dst (exts w3) = obj_sink sink dst (exts w2) @ take (nat wn) (take (nat rn) bs)"
        using assms(2) unfolding buf handshake_ok.simps by blast
      define w4 where "w4 = count wc wn w3"
      have w4: "exts w4 = exts w3" "heap w4 = heap w3" by (simp_all add: w4_def count_def)
      have g4: "good dst src1 w4" using g2 h(2,3) w4 by (simp add: good_def)
      have hsrun: "handshake env dst src wc rc w
          = Inr ([b1], wn, if werr \<noteq> None then Some (Cause werr ''handshake: write'') else None, src1, dst, w4)"
        using run True env bytes h(1) by (simp add: handshake_def Let_def w2_def [symmetric] w4_def)
      define ds where "ds = take (nat wn) (take (nat rn) bs)"
      define lost where "lost = drop (nat wn) (take (nat rn) bs)"
      have "obj_pending pend src (exts w) = ds @ lost @ obj_pending pend src1 (exts w4)"
        using r(6) apart [OF h(7) g2] w2(1) w4(1) g0(2) append_take_drop_id [of "nat wn" "take (nat rn) bs"]
        unfolding ds_def lost_def append_assoc [symmetric] by simp
      moreover have "obj_sink sink dst (exts w4) = obj_sink sink dst (exts w) @ ds"
        using h(8) r(7) w2(1) w4(1) g0(2) by (simp add: ds_def)
      moreover have "wn = int (length ds)" using h(4,5) by (simp add: ds_def)
      moreover have "werr = None \<longrightarrow> lost = []" using h(6) by (simp add: lost_def)
      ultimately show ?thesis using hsrun ret g4 gen
        by (intro exI [of _ "[b1]"] exI [of _ wn] exI [of _ "if werr \<noteq> None then Some (Cause werr ''handshake: write'') else None"]
            exI [of _ src1] exI [of _ w4] exI [of _ ds] exI [of _ lost]) simp
    qed
  qed
qed

lemma copyEarly_spec:
  assumes env: "ext_Read env = rd" "ext_Write env = wr" and hs: "handshake_ok sinv pend sink dst (NeedHandshake env dst w)"
    and g: "good dst src w" and fits: "int (length (obj_pending pend src (exts w))) \<le> max_int"
  shows "\<exists>n src' err w' ds lost. copyEarly env dst src wc rc w = Some (Inr (n, src', err, dst, w'))
    \<and> good dst src' w' \<and> obj_pending pend src (exts w) = ds @ lost @ obj_pending pend src' (exts w')
    \<and> obj_sink sink dst (exts w') = obj_sink sink dst (exts w) @ ds \<and> early_count env dst w n err ds lost
    \<and> (err = None \<longrightarrow> lost = [] \<and> n = int (length ds)) \<and> (generic src \<longrightarrow> generic src')"
proof -
  obtain hbuf n0 err0 src0 w0 ds0 lost0 where
    h0: "handshake env dst src wc rc w = Inr (hbuf, n0, err0, src0, dst, w0)"
    and r0: "list_all returnable hbuf" and g0: "good dst src0 w0"
    and p0: "obj_pending pend src (exts w) = ds0 @ lost0 @ obj_pending pend src0 (exts w0)"
    and k0: "obj_sink sink dst (exts w0) = obj_sink sink dst (exts w) @ ds0"
    and c0: "early_count env dst w n0 err0 ds0 lost0"
    and e0: "err0 = None \<longrightarrow> lost0 = [] \<and> n0 = int (length ds0)" and gen0: "generic src \<longrightarrow> generic src0"
    using handshake_spec [OF env(1) hs g, of wc rc] by blast
  show ?thesis
  proof (cases err0)
    case (Some e)
    have "heap_ok (heap w0)" using g0 by (simp add: good_def)
    from free_all_returns [OF this r0] obtain w2 where
      w2: "free_all hbuf w0 = Inr w2" "exts w2 = exts w0" "heap_ok (heap w2)" by blast
    have "copyEarly env dst src wc rc w = Some (Inr (n0, src0, err0, dst, w2))"
      using h0 Some w2(1) by (simp add: copyEarly_def)
    moreover have "good dst src0 w2" using good_cong [OF g0 w2(2,3)] .
    ultimately show ?thesis using p0 k0 c0 e0 gen0 unfolding w2(2) [symmetric] by blast
  next
    case None
    then have n0: "lost0 = []" "n0 = int (length ds0)" using e0 by auto
    obtain src1 bufs where pick: "PickReaderCacheList src0 = (src1, bufs)" by (cases "PickReaderCacheList src0")
    have rs: "readable src0" using g0 by (simp add: good_def)
    have f: "readable src1" "source_id src1 = source_id src0" "list_all cacheable bufs" "generic src0 \<longrightarrow> generic src1"
      "obj_pending pend src0 (exts w0) = concat (map contents bufs) @ obj_pending pend src1 (exts w0)"
      using PickReaderCacheList_loop_facts [OF rs, of "[]" src1 bufs pend] pick
      by (auto simp: PickReaderCacheList_def)
    have g1: "good dst src1 w0" using g0 f(1,2) by (simp add: good_def)
    have "0 \<le> n0" "n0 + int (length (concat (map contents bufs))) \<le> max_int" using fits p0 f(5) n0 by simp_all
    from write_caches_spec [OF env(2) g1 f(3) this, of wc rc] obtain rest n' err w1 ds lost where
      h: "write_caches env dst wc rc bufs n0 w0 = Some (Inr (rest, n', err, dst, w1))"
      "good dst src1 w1" "concat (map contents bufs) = ds @ lost"
      "obj_sink sink dst (exts w1) = obj_sink sink dst (exts w0) @ ds" "n' = n0 + int (length ds)"
      "err = None \<longrightarrow> lost = []" "list_all returnable rest"
      "obj_pending pend src1 (exts w1) = obj_pending pend src1 (exts w0)" by blast
    have "heap_ok (heap w1)" "list_all returnable (rest @ hbuf)" using h(2,7) r0 by (simp_all add: good_def)
    from free_all_returns [OF this] obtain w2 where
      w2: "free_all (rest @ hbuf) w1 = Inr w2" "exts w2 = exts w1" "heap_ok (heap w2)" by blast
    have "copyEarly env dst src wc rc w = Some (Inr (n', src1, err, dst, w2))"
      using None h0 pick h(1) w2(1) by (simp add: copyEarly_def)
    moreover have "good dst src1 w2" using good_cong [OF h(2) w2(2,3)] .
    moreover have "obj_pending pend src (exts w) = (ds0 @ ds) @ lost @ obj_pending pend src1 (exts w2)"
      using p0 n0(1) f(5) h(3,8) w2(2) by simp
    moreover have "obj_sink sink dst (exts w2) = obj_sink sink dst (exts w) @ (ds0 @ ds)" using k0 h(4) w2(2) by simp
    moreover have "n' = int (length (ds0 @ ds))" using n0(2) h(5) by simp
    moreover have "generic src \<longrightarrow> generic src1" using gen0 f(4) by blast
    ultimately show ?thesis using h(6) by blast
  qed
qed

end

subsection \<open>Counters do not change the stream\<close>

lemma UnwrapReadCounter_generic:
  "generic r \<Longrightarrow> readable r \<Longrightarrow> readable (fst (UnwrapReadCounter r)) \<and> source_id (fst (UnwrapReadCounter r)) = source_id r
    \<and> generic (fst (UnwrapReadCounter r))
    \<and> (\<forall>s. obj_pending pend (fst (UnwrapReadCounter r)) s = obj_pending pend r s)
    \<and> ReadCounters (fst (UnwrapReadCounter r)) = None"
  by (induction r) (simp_all add: UnwrapReadCounter_step)

lemma UnwrapWriterCounter_loop_generic:
  "generic v \<Longrightarrow> writable v \<Longrightarrow> \<exists>v' fs. UnwrapWriterCounter_loop v ans = Some (v', fs) \<and> writable v' \<and> generic v'
    \<and> sink_id v' = sink_id v \<and> WriteCounters v' = None"
  by (induction v arbitrary: ans) (subst UnwrapWriterCounter_loop.simps, simp)+

lemma NewReader_facts:
  assumes "generic r" and "readable r"
  shows "readable (NewReader r cs) \<and> source_id (NewReader r cs) = source_id r
    \<and> (\<forall>s. obj_pending pend (NewReader r cs) s = obj_pending pend r s)
    \<and> \<not> as_WriterTo (NewReader r cs)"
  using generic_slow [OF assms(1)] UnwrapReadCounter_generic [OF assms, of pend] assms
  by (cases r) (auto simp: NewReader_def split: prod.split)

lemma NewWriter_facts:
  assumes "generic v" and "writable v"
  shows "\<exists>v'. NewWriter v cs = Some v' \<and> writable v' \<and> sink_id v' = sink_id v
    \<and> \<not> as_ReaderFrom v'"
proof (cases "cs = [] \<or> (\<exists>u fs. v = CountWriter u fs)")
  case True
  then show ?thesis using assms generic_slow [OF assms(1)] by (auto simp: NewWriter_def)
next
  case False
  obtain v' fs where "UnwrapWriterCounter v = Some (v', fs)" "writable v'" "sink_id v' = sink_id v"
    using UnwrapWriterCounter_loop_generic [OF assms, of "[]"] by (auto simp: UnwrapWriterCounter_def)
  then show ?thesis using False assms by (cases v) (auto simp: NewWriter_def)
qed

context ext_streams begin

text \<open>The destination and the source once the counters are in place.\<close>

lemma copyGeneric_spec:
  assumes env: "ext_Read env = rd" "ext_Write env = wr"
    and g: "good dst src w" and p: "generic src" "generic dst"
    and fits: "int (length (obj_pending pend src (exts w))) \<le> max_int"
  shows "\<exists>r. copyGeneric env dst src wc rc w = Some (Inr r) \<and> copied dst src w 0 r"
proof -
  have heap: "heap_ok (heap w)" using g by (simp add: good_def)
  have "0 < BufferDefaultHugeSize" "BufferDefaultHugeSize \<le> 65535" by (simp_all add: BufferDefaultHugeSize_def)
  from NewSize_heap [OF heap this, of "pool_choice env"] obtain b al where
    b: "NewHuge (pool_choice env) (heap w) = Inr (b, al)" "heap_ok al" "returnable b" "buf_wf b"
      "room b = nat BufferDefaultHugeSize" unfolding NewHuge_def by blast
  obtain buf where buf: "FreeBytes b = Inr buf" "length buf = room b" using FreeBytes_eq [OF b(4)] by blast
  have lbuf: "0 < length buf" "int (length buf) \<le> max_int"
    using buf(2) b(5) by (simp_all add: BufferDefaultHugeSize_def)
  define w1 where "w1 = w\<lparr>heap := al\<rparr>"
  define src1 where "src1 = NewReader src rc"
  have rw: "readable src" "writable dst" using g by (auto simp: good_def)
  note s1 = NewReader_facts [OF p(1) rw(1), of rc pend, folded src1_def]
  obtain dst1 where d1: "NewWriter dst wc = Some dst1" "writable dst1" "sink_id dst1 = sink_id dst"
    "\<not> as_ReaderFrom dst1" using NewWriter_facts [OF p(2) rw(2)] by blast
  have g1: "good dst1 src1 w1" using g s1 d1 b(2) by (simp add: good_def w1_def)
  have pend1: "obj_pending pend src1 (exts w1) = obj_pending pend src (exts w)" using s1 by (simp add: w1_def)
  have sink1: "obj_sink sink dst1 (exts w1) = obj_sink sink dst (exts w)" by (simp add: w1_def obj_sink_def d1(3))
  have "0 + int (length (obj_pending pend src1 (exts w1))) \<le> max_int" using fits pend1 by simp
  from CopyBuffer_loop_copies [OF g1 lbuf order_refl this, of "DebugEnabled env"] obtain r where
    r: "CopyBuffer_loop (obj_read_fn (DebugEnabled env) rd) (obj_write_fn wr) dst1 src1 w1 buf 0 = Some (Inr r)"
      "copied dst1 src1 w1 0 r" by blast
  obtain n err dst' src' w' where rr: "r = (n, err, dst', src', w')" by (cases r)
  have g2: "good dst' src' w'" using r(2) unfolding rr by simp
  then have "heap_ok (heap w')" by (simp add: good_def)
  from free_all_returns [OF this, of "[b]"] b(3) obtain w2 where
    w2: "free_all [b] w' = Inr w2" "exts w2 = exts w'" "heap_ok (heap w2)" by auto
  have "io_CopyBuffer env dst1 src1 buf w1 = Some (Inr r)"
    using r(1) lbuf s1 d1(4) env by (auto simp: io_CopyBuffer_def)
  then have "copyGeneric env dst src wc rc w = Some (Inr (n, err, dst', src', w2))"
    using b(1) d1(1) buf(1) w2(1) by (simp add: copyGeneric_def Let_def rr src1_def w1_def [symmetric] del: free_all.simps)
  moreover have "good dst' src' w2" using good_cong [OF g2 w2(2,3)] .
  moreover have "copied dst src w 0 (n, err, dst', src', w2)"
    using r(2) \<open>good dst' src' w2\<close> unfolding rr pend1 sink1 prod.case w2(2) sink_eof_cong [OF d1(3)] by blast
  ultimately show ?thesis by blast
qed

text \<open>The destination keeps its shape through the early stage; that is all the generic stage asks.\<close>

lemma copied_trans:
  assumes "obj_pending pend src (exts w) = ds @ obj_pending pend src1 (exts w1)"
    and "obj_sink sink dst1 (exts w1) = obj_sink sink dst (exts w) @ ds" and "n1 = int (length ds)"
    and "copied dst1 src1 w1 0 (n, err, dst', src', w')" and "sink_id dst1 = sink_id dst"
  shows "copied dst src w 0 (n1 + n, err, dst', src', w')"
proof -
  define P where "P = (\<lambda>v (w :: 's world). obj_pending pend v (exts w))"
  define S where "S = (\<lambda>v (w :: 's world). obj_sink sink v (exts w))"
  obtain es lost where e: "good dst' src' w'" "P src1 w1 = es @ lost @ P src' w'" "S dst' w' = S dst1 w1 @ es"
    "n = int (length es)"
    "err = None \<or> errors_Is err ''io.EOF'' \<longrightarrow> lost = [] \<and> P src' w' = [] \<or> sink_eof wr dst (exts w')"
    using assms(4) [unfolded sink_eof_cong [OF assms(5)]] unfolding prod.case P_def S_def by auto
  have "P src w = ds @ P src1 w1" "S dst1 w1 = S dst w @ ds" using assms(1,2) by (simp_all add: P_def S_def)
  then have "P src w = (ds @ es) @ lost @ P src' w'" "S dst' w' = S dst w @ (ds @ es)"
    "n1 + n = 0 + int (length (ds @ es))"
    using assms(3) e(2-4) by simp_all
  with e(1,5) show ?thesis unfolding prod.case P_def S_def by blast
qed

end

context ext_streams begin

lemma CopyCounters_spec:
  assumes env: "ext_Read env = rd" "ext_Write env = wr" and hs: "handshake_ok sinv pend sink dst (NeedHandshake env dst w)"
    and g: "good dst src w" and p: "generic src" "generic dst"
    and fits: "int (length (obj_pending pend src (exts w))) \<le> max_int"
  shows "\<exists>n err dst' src' w' ds lost. CopyCounters env dst src wc rc w = Some (Inr (n, err, dst', src', w'))
    \<and> obj_pending pend src (exts w) = ds @ lost @ obj_pending pend src' (exts w')
    \<and> obj_sink sink dst' (exts w') = obj_sink sink dst (exts w) @ ds \<and> early_count env dst w n err ds lost
    \<and> (err = None \<longrightarrow> lost = [] \<and> obj_pending pend src' (exts w') = [] \<or> sink_eof wr dst (exts w'))"
proof -
  obtain n1 src1 err1 w1 ds1 lost1 where early: "copyEarly env dst src wc rc w = Some (Inr (n1, src1, err1, dst, w1))"
    "good dst src1 w1" "obj_pending pend src (exts w) = ds1 @ lost1 @ obj_pending pend src1 (exts w1)"
    "obj_sink sink dst (exts w1) = obj_sink sink dst (exts w) @ ds1" "early_count env dst w n1 err1 ds1 lost1"
    "err1 = None \<longrightarrow> lost1 = [] \<and> n1 = int (length ds1)" "generic src1"
    using copyEarly_spec [OF env hs g fits, of wc rc] p(1) by blast
  show ?thesis
  proof (cases "err1 = None")
    case False
    then have run: "CopyCounters env dst src wc rc w = Some (Inr (n1, Some (Cause err1 ''copyEarly''), dst, src1, w1))"
      using early(1) by (simp add: CopyCounters_def)
    have "early_count env dst w n1 (Some (Cause err1 ''copyEarly'')) ds1 lost1" using early(5) by blast
    with run early(3,4) show ?thesis by blast
  next
    case True
    have nil: "lost1 = []" and n1: "n1 = int (length ds1)" using early(6) True by blast+
    have "int (length (obj_pending pend src1 (exts w1))) \<le> max_int" using fits early(3) by simp
    from copyGeneric_spec [OF env early(2,7) p(2) this, of wc rc] obtain r where
      r: "copyGeneric env dst src1 wc rc w1 = Some (Inr r)" "copied dst src1 w1 0 r" by blast
    obtain n2 err2 dst2 src2 w2 where rr: "r = (n2, err2, dst2, src2, w2)" by (cases r)
    have pure: "copyPure env dst src1 wc rc w1 = Some (Inr (n2, err2, dst2, src2, w2))"
      using r(1) generic_slow [OF p(2)] by (simp add: copyPure_def rr)
    have "obj_pending pend src (exts w) = ds1 @ obj_pending pend src1 (exts w1)" using early(3) nil by simp
    from copied_trans [OF this early(4) n1 r(2) [unfolded rr] refl] obtain ds lost where
      c: "obj_pending pend src (exts w) = ds @ lost @ obj_pending pend src2 (exts w2)"
      "obj_sink sink dst2 (exts w2) = obj_sink sink dst (exts w) @ ds" "n1 + n2 = int (length ds)"
      "err2 = None \<or> errors_Is err2 ''io.EOF'' \<longrightarrow>
        lost = [] \<and> obj_pending pend src2 (exts w2) = [] \<or> sink_eof wr dst (exts w2)" by auto
    have "int (length ds) \<le> max_int" using fits c(1) by simp
    then have nn: "wrap64 (n1 + n2) = n1 + n2" using c(3) by (intro wrap64_nonneg) auto
    have run: "CopyCounters env dst src wc rc w = Some (Inr (n1 + n2,
        if err2 \<noteq> None \<and> \<not> IsMulti err2 [''io.EOF''] then Some (Cause err2 ''copyPure'') else None, dst2, src2, w2))"
      using early(1) True pure nn by (simp add: CopyCounters_def Let_def)
    have "err2 = None \<or> errors_Is err2 ''io.EOF''" if "\<not> (err2 \<noteq> None \<and> \<not> IsMulti err2 [''io.EOF''])"
      using that by (auto simp: IsMulti_iff)
    with c run show ?thesis
      by (intro exI [of _ "n1 + n2"] exI [of _ dst2] exI [of _ src2] exI [of _ w2] exI [of _ ds] exI [of _ lost])
        (auto split: if_splits)
  qed
qed

end

subsection \<open>Buffers as external streams\<close>

lemma store_Read_Inr:
  "store_Read x st k = Inr (bs, n, err, st') \<longleftrightarrow> (\<exists>b'. Read (st x) k = Inr (bs, n, err, b') \<and> st' = st(x := b'))"
  by (auto simp: store_Read_def map_sum_Inr_iff)

lemma store_Write_Inr:
  "store_Write x st p = Inr (n, err, st') \<longleftrightarrow> (\<exists>b'. Write_Buffer (st x) p = Inr (n, err, b') \<and> st' = st(x := b'))"
  by (auto simp: store_Write_def map_sum_Inr_iff)

lemma Read_eof:
  assumes "buf_wf b" and "Read b k = Inr (bs, n, err, b')" and "errors_Is err ''io.EOF''"
  shows "contents b' = []"
  using assms by (auto simp: Read_eq Let_def errors_Is_def split: if_splits)

interpretation store_streams: ext_streams store_Read "\<lambda>st. \<forall>x. buf_wf (st x)" "\<lambda>x st. contents (st x)"
  store_Write "\<lambda>x st. contents (st x)"
proof
  fix st :: "nat \<Rightarrow> Buffer" and k x bs n st' err
  show "\<forall>x. buf_wf (st x) \<Longrightarrow> 0 < k \<Longrightarrow> int k \<le> max_int \<Longrightarrow> store_Read x st k = Inr (bs, n, None, st') \<Longrightarrow> 0 < n"
    using Read_progress [of "st x" k] by (auto simp: store_Read_Inr)
  show "\<forall>x. buf_wf (st x) \<Longrightarrow> store_Read x st k = Inr (bs, n, err, st') \<Longrightarrow> errors_Is err ''io.EOF'' \<Longrightarrow> contents (st' x) = []"
    using Read_eof [of "st x" k] by (auto simp: store_Read_Inr)
next
  fix st :: "nat \<Rightarrow> Buffer" and x p
  assume wf: "\<forall>x. buf_wf (st x)"
  obtain n err b' where h: "Write_Buffer (st x) p = Inr (n, err, b')" "0 \<le> n" "n \<le> int (length p)" "buf_wf b'"
    "contents b' = contents (st x) @ take (nat n) p" using Buffer_Write_facts [of "st x" p] wf by blast
  then have "store_Write x st p = Inr (n, err, st(x := b'))" by (simp add: store_Write_Inr)
  then show "\<exists>n err s'. store_Write x st p = Inr (n, err, s') \<and> 0 \<le> n \<and> n \<le> int (length p)
      \<and> (\<forall>x. buf_wf (s' x)) \<and> contents (s' x) = contents (st x) @ take (nat n) p"
    using h wf by (intro exI [of _ n] exI [of _ err] exI [of _ "st(x := b')"]) simp
next
  fix st :: "nat \<Rightarrow> Buffer" and x y k bs n err st'
  show "store_Read x st k = Inr (bs, n, err, st') \<Longrightarrow> y \<noteq> x \<Longrightarrow> contents (st' y) = contents (st y)"
    by (auto simp: store_Read_Inr)
next
  fix st :: "nat \<Rightarrow> Buffer" and x y p n err st'
  show "store_Write x st p = Inr (n, err, st') \<Longrightarrow> y \<noteq> x \<Longrightarrow> contents (st' y) = contents (st y)"
    by (auto simp: store_Write_Inr)
qed

text \<open>An environment of buffers, for use in examples: no handshake, no splicing.\<close>

definition store_env :: "(nat \<Rightarrow> Buffer) env" where
  "store_env = \<lparr>DebugEnabled = True, pool_choice = 0, ext_Read = store_Read, ext_Write = store_Write,
     ext_WriteTo = (\<lambda>_ _ _. None), ext_ReadFrom = (\<lambda>_ _ _. None), NeedHandshake = (\<lambda>_ _. None),
     SyscallConn_fails = (\<lambda>_ _. True), splice = (\<lambda>_ _ _ _ _. None)\<rparr>"

subsection \<open>Properties\<close>

text \<open>
  C6: \<open>Copy\<close> delivers. From any tree of reader wrappers with its cached bytes to any tree of
  writer wrappers, over two different external streams without a fast path, for a source of no more bytes than an \<open>int\<close>
  can count, it returns; what reached
  the destination is the front of the source's stream, cached bytes first, and the count is its length;
  and when it reports no error the whole stream has been delivered, or the last write returned an
  error that is \<^verbatim>\<open>io.EOF\<close>, which \<open>Copy\<close> takes for the end of the source. The destination may need a
  handshake of either kind, if that keeps the streams and reports what it sent; only when the
  read of the bytes to send along fails is the count that of the bytes read, which are lost.
\<close>

theorem Copy_delivers:
  assumes ext: "ext_streams rd sinv pend wr sink" and env: "ext_Read env = rd" "ext_Write env = wr"
    and hs: "\<forall>v. handshake_ok sinv pend sink v (NeedHandshake env v w)"
    and src: "readable source" "generic source" and dst: "writable destination" "generic destination"
    and apart: "source_id source \<noteq> sink_id destination" and world: "sinv (exts w)" "heap_ok (heap w)"
    and fits: "int (length (obj_pending pend source (exts w))) \<le> max_int"
  shows "\<exists>n err dst' src' w' ds lost. Copy env destination source w = Some (Inr (n, err, dst', src', w'))
    \<and> obj_pending pend source (exts w) = ds @ lost @ obj_pending pend src' (exts w')
    \<and> obj_sink sink dst' (exts w') = obj_sink sink destination (exts w) @ ds
    \<and> (n = int (length ds) \<or> (\<exists>v. sends_first_bytes env v w) \<and> err \<noteq> None \<and> ds = [] \<and> n = int (length lost))
    \<and> (err = None \<longrightarrow> lost = [] \<and> obj_pending pend src' (exts w') = [] \<or> sink_eof wr destination (exts w'))"
proof -
  note s = UnwrapReadCounter_generic [OF src(2,1), of pend]
  obtain d fs where d: "UnwrapWriterCounter destination = Some (d, fs)" "writable d" "generic d"
    "sink_id d = sink_id destination"
    using UnwrapWriterCounter_loop_generic [OF dst(2,1), of "[]"] by (auto simp: UnwrapWriterCounter_def)
  obtain r gs where r: "UnwrapReadCounter source = (r, gs)" by (cases "UnwrapReadCounter source")
  have pend: "obj_pending pend r (exts w) = obj_pending pend source (exts w)" and r': "readable r" "generic r"
    "source_id r = source_id source" using s r by auto
  have sink: "obj_sink sink d (exts w) = obj_sink sink destination (exts w)" by (simp add: obj_sink_def d(4))
  have g: "ext_streams.good sinv d r w"
    using r' d apart world by (simp add: ext_streams.good_def [OF ext])
  have run: "Copy env destination source w = CopyCounters env d r fs gs w" using r d(1) by (simp add: Copy_def)
  have "int (length (obj_pending pend r (exts w))) \<le> max_int" using fits pend by simp
  from ext_streams.CopyCounters_spec [OF ext env spec [OF hs] g r'(2) d(3) this, of fs gs]
  show ?thesis unfolding run pend sink sink_eof_cong [OF d(4)] by blast
qed

theorem Copy_delivers_witness:
  "\<exists>n err dst' src' w' ds lost. Copy (store_env\<lparr>NeedHandshake := \<lambda>v w. Some (PlainHandshaker (\<lambda>w. Inr (None, v, w)))\<rparr>)
      (CountWriter (Ext 1 (reader_only\<lparr>is_Writer := True\<rparr>) None None None None) [8])
      (CountReader (BufCachedReader (Ext 0 reader_only None None None None) (Some (As (Slice 7 [4, 5] 2)))) [9])
      \<lparr>exts = (\<lambda>_. zero_Buffer)(0 := As (Slice 3 [6, 7] 2)), calls = [], heap = newDefaultAllocator\<rparr>
    = Some (Inr (n, err, dst', src', w')) \<and> 0 \<le> n \<and> n \<le> 4"
proof -
  define dst where "dst = CountWriter (Ext 1 (reader_only\<lparr>is_Writer := True\<rparr>) None None None None) [8]"
  define src where "src = CountReader (BufCachedReader (Ext 0 reader_only None None None None) (Some (As (Slice 7 [4, 5] 2)))) [9]"
  define w where "w = \<lparr>exts = (\<lambda>_::nat. zero_Buffer)(0 := As (Slice 3 [6, 7] 2)), calls = [], heap = newDefaultAllocator\<rparr>"
  have "buf_wf (As (Slice 7 [4, 5] 2))" "returnable (As (Slice 7 [4, 5] 2))"
    and wf: "buf_wf (As (Slice 3 [6, 7] 2))" "buf_wf zero_Buffer"
    and c: "contents (As (Slice 7 [4, 5] 2)) = [4, 5]" "contents (As (Slice 3 [6, 7] 2)) = [6, 7]"
    by (simp_all add: buf_wf_def returnable_def As_def zero_Buffer_def slice_cap_def contents_def slice_of_def)
  then have h: "readable src" "generic src" "writable dst" "generic dst" "source_id src \<noteq> sink_id dst"
    by (simp_all add: src_def dst_def cache_ok_def)
  have p: "obj_pending (\<lambda>x st. contents (st x)) src (exts w) = [4, 5, 6, 7]" by (simp add: src_def w_def cached_def c)
  have world: "\<forall>x. buf_wf (exts w x)" "heap_ok (heap w)"
    using wf alloc_wf_heap [OF alloc_wf_new] by (simp_all add: w_def)
  have fits: "int (length (obj_pending (\<lambda>x st. contents (st x)) src (exts w))) \<le> max_int" unfolding p by simp
  define env where "env = (store_env :: (nat \<Rightarrow> Buffer) env)\<lparr>NeedHandshake := \<lambda>v w. Some (PlainHandshaker (\<lambda>w. Inr (None, v, w)))\<rparr>"
  have env: "ext_Read env = store_Read" "ext_Write env = store_Write"
    "\<forall>v. handshake_ok (\<lambda>st. \<forall>x. buf_wf (st x)) (\<lambda>x st. contents (st x)) (\<lambda>x st. contents (st x)) v (NeedHandshake env v w)"
    "\<not> sends_first_bytes env v w" for v
    by (simp_all add: env_def store_env_def sends_first_bytes_def)
  obtain n err dst' src' w' ds lost where run: "Copy env dst src w = Some (Inr (n, err, dst', src', w'))"
    "obj_pending (\<lambda>x st. contents (st x)) src (exts w) = ds @ lost @ obj_pending (\<lambda>x st. contents (st x)) src' (exts w')"
    "n = int (length ds)"
    using Copy_delivers [OF store_streams.ext_streams_axioms env(1-3) h(1,2,3,4,5) world fits] env(4) by blast
  have "length (ds @ lost @ obj_pending (\<lambda>x st. contents (st x)) src' (exts w')) = 4"
    unfolding run(2) [symmetric] p by simp
  then have "0 \<le> n" and "n \<le> 4" using run(3) by simp_all
  with run(1) show ?thesis unfolding env_def dst_def src_def w_def by blast
qed

text \<open>
  C37: an \<^verbatim>\<open>io.EOF\<close> of the destination passes for the end of the source. When the first write of a copy
  between two plain streams without a handshake returns it with nothing written, \<open>Copy\<close> returns 0 and a nil error, though
  the source had bytes and they have been taken from it.
\<close>

theorem Copy_hides_write_eof:
  assumes env: "NeedHandshake env (Ext d j None None None None) w = None" and heap: "heap_ok (heap w)"
    and plain: "\<not> is_WriterTo i" "\<not> is_ReaderFrom j"
      "\<not> is_SyscallConn i"
    and read: "ext_Read env x (exts w) (nat BufferDefaultHugeSize) = Inr (bs, n, er, s1)"
      "0 < n" "n \<le> int (length bs)" "int (length bs) \<le> BufferDefaultHugeSize"
    and eof: "ext_Write env d s1 (take (nat n) bs) = Inr (0, Some io_EOF, s2)"
  shows "\<exists>w'. Copy env (Ext d j None None None None) (Ext x i None None None None) w
      = Some (Inr (0, None, Ext d j None None None None, Ext x i None None None None, w')) \<and> exts w' = s2"
proof -
  let ?d = "Ext d j None None None None" and ?x = "Ext x i None None None None"
  have u: "UnwrapReadCounter ?x = (?x, [])" "UnwrapWriterCounter ?d = Some (?d, [])"
    by (simp_all add: UnwrapReadCounter_step UnwrapWriterCounter_def UnwrapWriterCounter_loop.simps)
  have n: "NewReader ?x [] = ?x" "NewWriter ?d [] = Some ?d" by (simp_all add: NewReader_def NewWriter_def)
  have early: "copyEarly env ?d ?x [] [] w = Some (Inr (0, ?x, None, ?d, w))"
    using env by (simp add: copyEarly_def handshake_def PickReaderCacheList_def PickReaderCacheList_loop.simps [of ?x] PickReaderCache_def)
  have "0 < BufferDefaultHugeSize" "BufferDefaultHugeSize \<le> 65535" by (simp_all add: BufferDefaultHugeSize_def)
  from NewSize_heap [OF heap this, of "pool_choice env"] obtain b al where
    b: "NewHuge (pool_choice env) (heap w) = Inr (b, al)" "heap_ok al" "returnable b" "buf_wf b"
      "room b = nat BufferDefaultHugeSize" unfolding NewHuge_def by blast
  obtain buf where buf: "FreeBytes b = Inr buf" "length buf = nat BufferDefaultHugeSize" using FreeBytes_eq [OF b(4)] b(5) by auto
  define w1 where "w1 = w\<lparr>heap := al\<rparr>"
  have tk: "take (nat n) (overwrite buf 0 (take (length buf) bs)) = take (nat n) bs"
    using read(3,4) buf(2) by (simp add: overwrite_def nat_le_iff)
  have "n \<le> int (length buf)" using read(3,4) buf(2) by simp
  then have "CopyBuffer_loop (obj_read_fn (DebugEnabled env) (ext_Read env)) (obj_write_fn (ext_Write env)) ?d ?x w1 buf 0
      = Some (Inr (0, Some io_EOF, ?d, ?x, w1\<lparr>exts := s2\<rparr>))"
    using read eof buf(2) tk
    by (subst CopyBuffer_loop.simps) (simp add: obj_read_fn_def obj_write_fn_def w1_def Let_def wrap64_nonneg)
  moreover have "buf \<noteq> []" using buf(2) by (auto simp: BufferDefaultHugeSize_def)
  ultimately have loop: "io_CopyBuffer env ?d ?x buf w1 = Some (Inr (0, Some io_EOF, ?d, ?x, w1\<lparr>exts := s2\<rparr>))"
    using plain by (simp add: io_CopyBuffer_def)
  have "heap_ok (heap (w1\<lparr>exts := s2\<rparr>))" using b(2) by (simp add: w1_def)
  from free_all_returns [OF this, of "[b]"] b(3) obtain w2 where
    w2: "free_all [b] (w1\<lparr>exts := s2\<rparr>) = Inr w2" "exts w2 = s2" by auto
  have "copyGeneric env ?d ?x [] [] w = Some (Inr (0, Some io_EOF, ?d, ?x, w2))"
    using b(1) n buf(1) loop w2(1) by (simp add: copyGeneric_def Let_def w1_def [symmetric] del: free_all.simps)
  then have "copyPure env ?d ?x [] [] w = Some (Inr (0, Some io_EOF, ?d, ?x, w2))"
    using plain by (simp add: copyPure_def)
  then have "Copy env ?d ?x w = Some (Inr (0, None, ?d, ?x, w2))"
    using u early by (simp add: Copy_def CopyCounters_def IsMulti_iff errors_Is_def wrap64_nonneg)
  with w2(2) show ?thesis by blast
qed

theorem Copy_hides_write_eof_witness:
  "\<exists>w'. Copy (store_env\<lparr>ext_Write := \<lambda>x st p. Inr (0, Some io_EOF, st)\<rparr>)
      (Ext 1 (reader_only\<lparr>is_Writer := True\<rparr>) None None None None) (Ext 0 reader_only None None None None)
      \<lparr>exts = (\<lambda>_. zero_Buffer)(0 := As (Slice 3 [6, 7] 2)), calls = [], heap = newDefaultAllocator\<rparr>
    = Some (Inr (0, None, Ext 1 (reader_only\<lparr>is_Writer := True\<rparr>) None None None None, Ext 0 reader_only None None None None, w'))"
proof -
  define w where "w = \<lparr>exts = (\<lambda>_::nat. zero_Buffer)(0 := As (Slice 3 [6, 7] 2)), calls = [], heap = newDefaultAllocator\<rparr>"
  let ?env = "store_env\<lparr>ext_Write := \<lambda>x st p. Inr (0, Some io_EOF, st)\<rparr>"
  have wf: "buf_wf (As (Slice 3 [6, 7] 2))" and c: "contents (As (Slice 3 [6, 7] 2)) = [6, 7]"
    by (simp_all add: buf_wf_def As_def slice_cap_def contents_def slice_of_def)
  then obtain b' where read: "Read (As (Slice 3 [6, 7] 2)) (nat BufferDefaultHugeSize) = Inr ([6, 7], 2, None, b')"
    by (simp add: Read_eq [OF wf] c Let_def BufferDefaultHugeSize_def)
  have heap: "heap_ok (heap w)" using alloc_wf_heap [OF alloc_wf_new] by (simp add: w_def)
  have "ext_Read ?env 0 (exts w) (nat BufferDefaultHugeSize) = Inr ([6, 7], 2, None, (exts w)(0 := b'))"
    using read by (simp add: store_env_def store_Read_def w_def)
  from Copy_hides_write_eof [OF _ heap _ _ _ this, of 1 "reader_only\<lparr>is_Writer := True\<rparr>" reader_only]
  show ?thesis by (auto simp: store_env_def BufferDefaultHugeSize_def w_def)
qed

end
