(* ===== verification/Splice.thy ===== *)
theory Splice
  imports Copy
begin

text \<open>
  \<^verbatim>\<open>enhancements/iolib/splice_linux.go\<close>: copying between two connections inside the kernel, through
  a pipe from a pool. The system calls and the waiting of \<^verbatim>\<open>syscall.RawConn\<close> are parameters, the fields
  of \<open>kernel\<close>; the loops over them are the code's. \<open>None\<close> is "does not return". The first half is
  the model, the second half follows the bytes through the pipe, under the documented
  behaviour of \<^verbatim>\<open>splice(2)\<close>.
\<close>

subsection \<open>The system calls\<close>

text \<open>
  \<open>F_SETPIPE_SZ\<close> is the \<^verbatim>\<open>fcntl\<close> whose result the code drops; \<open>CloseFunc\<close> is \<^verbatim>\<open>syscall.Close\<close> until it is
  replaced. \<open>unix_Splice from to len flags\<close> is \<^verbatim>\<open>splice(2)\<close> without offsets. \<open>wait_read\<close> and \<open>wait_write\<close>
  are the waits of \<open>RawConn.Read\<close> and \<open>RawConn.Write\<close> before each attempt; they fail when the
  connection is closed or its deadline is over.
\<close>

record 'k kernel =
  Pipe2 :: "'k \<Rightarrow> (int \<times> int) option \<times> 'k"
  F_SETPIPE_SZ :: "int \<Rightarrow> int \<Rightarrow> 'k \<Rightarrow> 'k"
  CloseFunc :: "int \<Rightarrow> 'k \<Rightarrow> 'k"
  unix_Splice :: "int \<Rightarrow> int \<Rightarrow> int \<Rightarrow> int \<Rightarrow> 'k \<Rightarrow> int \<times> go_error option \<times> 'k"
  wait_read :: "int \<Rightarrow> 'k \<Rightarrow> go_error option \<times> 'k"
  wait_write :: "int \<Rightarrow> 'k \<Rightarrow> go_error option \<times> 'k"

abbreviation EAGAIN :: go_error where
  "EAGAIN \<equiv> Sentinel ''EAGAIN'' ''resource temporarily unavailable''"
abbreviation EINVAL :: go_error where
  "EINVAL \<equiv> Sentinel ''EINVAL'' ''invalid argument''"
abbreviation ENOSYS :: go_error where
  "ENOSYS \<equiv> Sentinel ''ENOSYS'' ''function not implemented''"

definition maxSpliceSize :: int where
  "maxSpliceSize = 1048576"

abbreviation (input) SPLICE_F_MOVE :: int where "SPLICE_F_MOVE \<equiv> 1"
abbreviation (input) SPLICE_F_NONBLOCK :: int where "SPLICE_F_NONBLOCK \<equiv> 2"

subsection \<open>Pipes and their pool\<close>

record splicePipe =
  rfd :: int
  wfd :: int
  pdata :: int

text \<open>
  \<open>splicePipePool\<close>, a \<^verbatim>\<open>sync.Pool\<close>, is the list of what it holds; \<open>choice\<close> is the item a \<open>Get\<close>
  happens to return, a new pipe if there is no such item.
\<close>

record 'k splicer =
  kern :: 'k
  splicePipePool :: "splicePipe list"

definition newPipe :: "'k kernel \<Rightarrow> 'k \<Rightarrow> splicePipe option \<times> 'k" where
  "newPipe kn k =
     (case Pipe2 kn k of
        (None, k') \<Rightarrow> (None, k')
      | (Some (r, w), k') \<Rightarrow>
          (Some \<lparr>rfd = r, wfd = w, pdata = 0\<rparr>, F_SETPIPE_SZ kn r maxSpliceSize k'))"

definition destroyPipe :: "'k kernel \<Rightarrow> splicePipe \<Rightarrow> 'k \<Rightarrow> 'k" where
  "destroyPipe kn p k = CloseFunc kn (wfd p) (CloseFunc kn (rfd p) k)"

text \<open>The pool's \<open>New\<close>; the finalizer it sets on the pipe only runs on a pipe nobody can reach.\<close>

definition newPoolPipe :: "'k kernel \<Rightarrow> 'k \<Rightarrow> splicePipe option \<times> 'k" where
  "newPoolPipe kn k = (case newPipe kn k of (None, k') \<Rightarrow> (None, k') | (Some p, k') \<Rightarrow> (Some p, k'))"

lemma newPoolPipe_eq [simp]: "newPoolPipe kn k = newPipe kn k"
  by (simp add: newPoolPipe_def split: option.splits prod.splits)

definition getPipe :: "'k kernel \<Rightarrow> nat \<Rightarrow> 'k splicer \<Rightarrow> (go_error + splicePipe) \<times> 'k splicer" where
  "getPipe kn choice st =
     (let pool = splicePipePool st
      in if choice < length pool
         then (Inr (pool ! choice), st\<lparr>splicePipePool := take choice pool @ drop (Suc choice) pool\<rparr>)
         else (case newPoolPipe kn (kern st) of
                 (None, k) \<Rightarrow> (Inl EINVAL, st\<lparr>kern := k\<rparr>)
               | (Some p, k) \<Rightarrow> (Inr p, st\<lparr>kern := k\<rparr>)))"

definition putPipe :: "'k kernel \<Rightarrow> splicePipe \<Rightarrow> 'k splicer \<Rightarrow> 'k splicer" where
  "putPipe kn p st =
     (if pdata p \<noteq> 0 then st\<lparr>kern := destroyPipe kn p (kern st)\<rparr>
      else st\<lparr>splicePipePool := p # splicePipePool st\<rparr>)"

subsection \<open>The transfer\<close>

text \<open>
  \<open>RawConn.Read\<close> and \<open>RawConn.Write\<close>: wait until the connection is ready, call the function, again
  until it says it is done. The variables the function captures are passed along as \<open>a\<close>.
\<close>

partial_function (option) RawConn_loop :: "('k \<Rightarrow> go_error option \<times> 'k)
    \<Rightarrow> ('a \<Rightarrow> 'k \<Rightarrow> (bool \<times> 'a \<times> 'k) option) \<Rightarrow> 'a \<Rightarrow> 'k \<Rightarrow> (go_error option \<times> 'a \<times> 'k) option" where
  "RawConn_loop wait f a k =
     (case wait k of
        (Some e, k1) \<Rightarrow> Some (Some e, a, k1)
      | (None, k1) \<Rightarrow>
          (case f a k1 of
             None \<Rightarrow> None
           | Some (ready, a', k2) \<Rightarrow> (if ready then Some (None, a', k2) else RawConn_loop wait f a' k2)))"

text \<open>The closure \<open>readFunc\<close> with its variables \<open>readN\<close> and \<open>readErr\<close>.\<close>

definition readFunc :: "'k kernel \<Rightarrow> int \<Rightarrow> splicePipe \<Rightarrow> int \<times> go_error option \<Rightarrow> 'k
    \<Rightarrow> (bool \<times> (int \<times> go_error option) \<times> 'k) option" where
  "readFunc kn fd pipe v k =
     (case unix_Splice kn fd (wfd pipe) maxSpliceSize SPLICE_F_NONBLOCK k of
        (p0, p1, k') \<Rightarrow> Some (p1 \<noteq> Some EAGAIN, (p0, p1), k'))"

text \<open>The closure \<open>writeFunc\<close> with its variables \<open>writeSize\<close> and \<open>writeErr\<close>.\<close>

partial_function (option) writeFunc :: "'k kernel \<Rightarrow> int \<Rightarrow> splicePipe \<Rightarrow> int \<times> go_error option \<Rightarrow> 'k
    \<Rightarrow> (bool \<times> (int \<times> go_error option) \<times> 'k) option" where
  "writeFunc kn fd pipe v k =
     (if fst v > 0
      then (case unix_Splice kn (rfd pipe) fd (fst v) (SPLICE_F_NONBLOCK + SPLICE_F_MOVE) k of
              (p0, p1, k') \<Rightarrow>
                (if p1 \<noteq> None then Some (p1 \<noteq> Some EAGAIN, (fst v, p1), k')
                 else writeFunc kn fd pipe (wrap64 (fst v - p0), p1) k'))
      else Some (True, v, k))"

definition counter_calls :: "Func list \<Rightarrow> Func list \<Rightarrow> int \<Rightarrow> (Func \<times> int) list" where
  "counter_calls readCounters writeCounters n = map (\<lambda>f. (f, n)) readCounters @ map (\<lambda>f. (f, n)) writeCounters"

text \<open>
  The loop of \<open>splice\<close>: \<open>handed\<close>, the count, the error and the counter calls. When it goes round,
  \<open>readErr\<close> and \<open>writeErr\<close> are nil.
\<close>

partial_function (option) splice_loop :: "'k kernel \<Rightarrow> int \<Rightarrow> int \<Rightarrow> splicePipe \<Rightarrow> Func list \<Rightarrow> Func list
    \<Rightarrow> int \<Rightarrow> int \<Rightarrow> (Func \<times> int) list \<Rightarrow> 'k \<Rightarrow> (bool \<times> int \<times> go_error option \<times> (Func \<times> int) list \<times> 'k) option" where
  "splice_loop kn src dst pipe readCounters writeCounters readN0 n cs k =
     (case RawConn_loop (wait_read kn src) (readFunc kn src pipe) (readN0, None) k of
        None \<Rightarrow> None
      | Some (err, (readN, readErr0), k1) \<Rightarrow>
          (let readErr = (if err \<noteq> None then err else readErr0)
           in case readErr of
                Some e \<Rightarrow>
                  (if e = EINVAL \<or> e = ENOSYS then Some (False, n, err, cs, k1)
                   else Some (True, n, Some (WrapError (''splice read: '' @ err_msg e) (Some e)), cs, k1))
              | None \<Rightarrow>
                  (if readN = 0 then Some (True, n, err, cs, k1)
                   else case RawConn_loop (wait_write kn dst) (writeFunc kn dst pipe) (readN, None) k1 of
                     None \<Rightarrow> None
                   | Some (err', (writeSize, writeErr0), k2) \<Rightarrow>
                       (let writeErr = (if err' \<noteq> None then err' else writeErr0)
                        in case writeErr of
                             Some e \<Rightarrow> Some (True, n, Some (WrapError (''splice write: '' @ err_msg e) (Some e)), cs, k2)
                           | None \<Rightarrow>
                               splice_loop kn src dst pipe readCounters writeCounters readN (wrap64 (n + readN))
                                 (cs @ counter_calls readCounters writeCounters readN) k2))))"

definition splice_linux :: "'k kernel \<Rightarrow> nat \<Rightarrow> int \<Rightarrow> int \<Rightarrow> Func list \<Rightarrow> Func list \<Rightarrow> 'k splicer
    \<Rightarrow> (bool \<times> int \<times> go_error option \<times> (Func \<times> int) list \<times> 'k splicer) option" where
  "splice_linux kn choice src dst readCounters writeCounters st =
     (case getPipe kn choice st of
        (Inl e, st1) \<Rightarrow> Some (True, 0, Some e, [], st1)
      | (Inr pipe, st1) \<Rightarrow>
          (case splice_loop kn src dst pipe readCounters writeCounters 0 0 [] (kern st1) of
             None \<Rightarrow> None
           | Some (handed, n, err, cs, k) \<Rightarrow> Some (handed, n, err, cs, putPipe kn pipe (st1\<lparr>kern := k\<rparr>))))"

subsection \<open>The bytes on their way\<close>

text \<open>
  What \<^verbatim>\<open>splice(2)\<close> does with a source, a pipe and a destination: into the pipe it moves a prefix of
  the source, nothing only at its end; out of the pipe it moves a prefix of what the pipe holds, at
  least a byte when there are as many as were asked for; when it fails it moves nothing. \<open>stall\<close> bounds how
  often it says \<open>EAGAIN\<close> in a row.
\<close>

locale splice_kernel =
  fixes kn :: "'k kernel" and src dst :: int and pipe :: splicePipe
    and kinv :: "'k \<Rightarrow> bool" and source piped sink :: "'k \<Rightarrow> byte list" and stall :: "'k \<Rightarrow> nat"
  assumes splice_in: "kinv k \<Longrightarrow> unix_Splice kn src (wfd pipe) maxSpliceSize 2 k = (n, e, k') \<Longrightarrow>
      kinv k' \<and> sink k' = sink k \<and>
      (if e = None
       then 0 \<le> n \<and> n \<le> maxSpliceSize \<and> nat n \<le> length (source k) \<and> source k' = drop (nat n) (source k)
         \<and> piped k' = piped k @ take (nat n) (source k) \<and> (n = 0 \<longrightarrow> source k = [])
       else source k' = source k \<and> piped k' = piped k \<and> (e = Some EAGAIN \<longrightarrow> stall k' < stall k))"
    and splice_out: "kinv k \<Longrightarrow> 0 < sz \<Longrightarrow> nat sz \<le> length (piped k) \<Longrightarrow>
      unix_Splice kn (rfd pipe) dst sz 3 k = (n, e, k') \<Longrightarrow> kinv k' \<and> source k' = source k \<and>
      (if e = None
       then 0 < n \<and> n \<le> sz \<and> piped k' = drop (nat n) (piped k) \<and> sink k' = sink k @ take (nat n) (piped k)
       else sink k' = sink k \<and> piped k' = piped k \<and> (e = Some EAGAIN \<longrightarrow> stall k' < stall k))"
    and waits: "kinv k \<Longrightarrow> wait = wait_read kn src \<or> wait = wait_write kn dst \<Longrightarrow> wait k = (e, k') \<Longrightarrow>
      kinv k' \<and> source k' = source k \<and> piped k' = piped k \<and> sink k' = sink k \<and> stall k' \<le> stall k"

context splice_kernel begin

lemma wait_step:
  assumes "kinv k" and "wait = wait_read kn src \<or> wait = wait_write kn dst"
  obtains e k' where "wait k = (e, k')" and "kinv k'" and "source k' = source k" and "piped k' = piped k"
    and "sink k' = sink k" and "stall k' \<le> stall k"
  using waits [OF assms] by (cases "wait k") blast

text \<open>Reading: a prefix of the source moves into the pipe, or the read fails and nothing has moved.\<close>

lemma read_loop_spec:
  "kinv k \<Longrightarrow> \<exists>err n e k'. RawConn_loop (wait_read kn src) (readFunc kn src pipe) v k = Some (err, (n, e), k')
    \<and> kinv k' \<and> sink k' = sink k
    \<and> (if err = None \<and> e = None
       then 0 \<le> n \<and> n \<le> maxSpliceSize \<and> nat n \<le> length (source k) \<and> source k' = drop (nat n) (source k)
         \<and> piped k' = piped k @ take (nat n) (source k) \<and> (n = 0 \<longrightarrow> source k = [])
       else source k' = source k \<and> piped k' = piped k)"
proof (induction "stall k" arbitrary: k v rule: less_induct)
  case less
  obtain w k1 where w: "wait_read kn src k = (w, k1)" and i: "kinv k1" "source k1 = source k" "piped k1 = piped k"
    "sink k1 = sink k" "stall k1 \<le> stall k" using wait_step [OF less.prems, of "wait_read kn src"] by blast
  show ?case
  proof (cases w)
    case (Some e)
    then show ?thesis using w i by (subst RawConn_loop.simps) (cases v; simp)
  next
    case None
    obtain n e k2 where s: "unix_Splice kn src (wfd pipe) maxSpliceSize 2 k1 = (n, e, k2)"
      by (cases "unix_Splice kn src (wfd pipe) maxSpliceSize 2 k1")
    note f = splice_in [OF i(1) s]
    show ?thesis
    proof (cases "e = Some EAGAIN")
      case True
      then have st: "stall k2 < stall k" "kinv k2" "source k2 = source k" "piped k2 = piped k" "sink k2 = sink k"
        using f i by auto
      have "RawConn_loop (wait_read kn src) (readFunc kn src pipe) v k
        = RawConn_loop (wait_read kn src) (readFunc kn src pipe) (n, e) k2"
        using w None s True by (subst RawConn_loop.simps) (simp add: readFunc_def)
      with less.hyps [OF st(1,2), of "(n, e)"] show ?thesis by (simp only: st(3-5))
    next
      case False
      then have "RawConn_loop (wait_read kn src) (readFunc kn src pipe) v k = Some (None, (n, e), k2)"
        using w None s by (subst RawConn_loop.simps) (simp add: readFunc_def)
      with f i(2-4) show ?thesis by (cases e) simp_all
    qed
  qed
qed

text \<open>Writing: what has left the pipe is a prefix of it and is what reached the destination.\<close>

lemma writeFunc_spec:
  "kinv k \<Longrightarrow> 0 \<le> sz \<Longrightarrow> sz \<le> max_int \<Longrightarrow> nat sz \<le> length (piped k) \<Longrightarrow>
    \<exists>ready sz' e k'. writeFunc kn dst pipe (sz, None) k = Some (ready, (sz', e), k') \<and> kinv k' \<and> source k' = source k
      \<and> 0 \<le> sz' \<and> sz' \<le> sz \<and> piped k' = drop (nat (sz - sz')) (piped k) \<and> sink k' = sink k @ take (nat (sz - sz')) (piped k)
      \<and> (if e = None then ready \<and> sz' = 0 else ready = (e \<noteq> Some EAGAIN))
      \<and> (e \<noteq> None \<longrightarrow> 0 < sz') \<and> (e = Some EAGAIN \<longrightarrow> sz' < sz \<or> stall k' < stall k)"
proof (induction "nat sz" arbitrary: k sz rule: less_induct)
  case less
  show ?case
  proof (cases "sz = 0")
    case True
    then show ?thesis using less.prems by (subst writeFunc.simps) auto
  next
    case False
    then have pos: "0 < sz" using less.prems(2) by simp
    obtain n e k1 where s: "unix_Splice kn (rfd pipe) dst sz 3 k = (n, e, k1)"
      by (cases "unix_Splice kn (rfd pipe) dst sz 3 k")
    note f = splice_out [OF less.prems(1) pos less.prems(4) s]
    show ?thesis
    proof (cases e)
      case (Some x)
      then have "writeFunc kn dst pipe (sz, None) k = Some (e \<noteq> Some EAGAIN, (sz, e), k1)"
        using s pos by (subst writeFunc.simps) simp
      then show ?thesis using f Some pos by auto
    next
      case None
      then have n: "kinv k1" "source k1 = source k" "0 < n" "n \<le> sz" "piped k1 = drop (nat n) (piped k)"
        "sink k1 = sink k @ take (nat n) (piped k)" using f by auto
      have wrap: "wrap64 (sz - n) = sz - n" using n(3,4) less.prems(3) by (intro wrap64_nonneg) auto
      have eq: "writeFunc kn dst pipe (sz, None) k = writeFunc kn dst pipe (sz - n, None) k1"
        using s pos None wrap by (subst writeFunc.simps) simp
      have "nat (sz - n) < nat sz" "0 \<le> sz - n" "sz - n \<le> max_int" "nat (sz - n) \<le> length (piped k1)"
        using n(3,4,5) less.prems(3,4) by auto
      from less.hyps [OF this(1) n(1) this(2-4)] obtain ready sz' e' k' where
        r: "writeFunc kn dst pipe (sz - n, None) k1 = Some (ready, (sz', e'), k')" "kinv k'" "source k' = source k1"
          "0 \<le> sz'" "sz' \<le> sz - n" "piped k' = drop (nat (sz - n - sz')) (piped k1)"
          "sink k' = sink k1 @ take (nat (sz - n - sz')) (piped k1)"
          "if e' = None then ready \<and> sz' = 0 else ready = (e' \<noteq> Some EAGAIN)" "e' \<noteq> None \<longrightarrow> 0 < sz'"
        by blast
      have split: "nat (sz - sz') = nat n + nat (sz - n - sz')" using n(3) r(5) by simp
      have "piped k' = drop (nat (sz - sz')) (piped k)" using r(6) n(5) split by (simp add: add.commute)
      moreover have "sink k' = sink k @ take (nat (sz - sz')) (piped k)"
        using r(7) n(5,6) by (simp add: split take_add)
      ultimately show ?thesis using eq r n by (intro exI [of _ ready] exI [of _ sz'] exI [of _ e'] exI [of _ k']) auto
    qed
  qed
qed

lemma write_loop_spec:
  "kinv k \<Longrightarrow> 0 < sz \<Longrightarrow> sz \<le> max_int \<Longrightarrow> nat sz \<le> length (piped k) \<Longrightarrow>
    \<exists>err sz' e k'. RawConn_loop (wait_write kn dst) (writeFunc kn dst pipe) (sz, e0) k = Some (err, (sz', e), k')
      \<and> kinv k' \<and> source k' = source k \<and> 0 \<le> sz' \<and> sz' \<le> sz
      \<and> piped k' = drop (nat (sz - sz')) (piped k) \<and> sink k' = sink k @ take (nat (sz - sz')) (piped k)
      \<and> (err = None \<and> e = None \<longrightarrow> sz' = 0)"
proof (induction "(nat sz, stall k)" arbitrary: k sz e0 rule: wf_induct_rule [OF wf_lex_prod [OF wf_less_than wf_less_than]])
  case 1
  obtain w k1 where w: "wait_write kn dst k = (w, k1)" and i: "kinv k1" "source k1 = source k" "piped k1 = piped k"
    "sink k1 = sink k" "stall k1 \<le> stall k" using wait_step [OF 1(2), of "wait_write kn dst"] by blast
  show ?case
  proof (cases w)
    case (Some x)
    then show ?thesis using w i 1(3) by (subst RawConn_loop.simps) (auto intro!: exI [of _ sz])
  next
    case None
    obtain ready sz1 e k2 where f: "writeFunc kn dst pipe (sz, None) k1 = Some (ready, (sz1, e), k2)" "kinv k2"
      "source k2 = source k" "0 \<le> sz1" "sz1 \<le> sz" "piped k2 = drop (nat (sz - sz1)) (piped k)"
      "sink k2 = sink k @ take (nat (sz - sz1)) (piped k)"
      "if e = None then ready \<and> sz1 = 0 else ready = (e \<noteq> Some EAGAIN)" "e \<noteq> None \<longrightarrow> 0 < sz1"
      "e = Some EAGAIN \<longrightarrow> sz1 < sz \<or> stall k2 < stall k"
      using writeFunc_spec [OF i(1), of sz] 1(3-5) i by force
    have same: "writeFunc kn dst pipe (sz, e0) k1 = Some (ready, (sz1, e), k2)"
      using f(1) by (simp only: writeFunc.simps [of kn dst pipe "(sz, e0)"]
          writeFunc.simps [of kn dst pipe "(sz, None)"] fst_conv 1(3) if_True)
    show ?thesis
    proof (cases "e = Some EAGAIN")
      case False
      then have "ready" using f(8) by (simp split: if_splits)
      then have "RawConn_loop (wait_write kn dst) (writeFunc kn dst pipe) (sz, e0) k = Some (None, (sz1, e), k2)"
        using w None same by (subst RawConn_loop.simps) simp
      then show ?thesis using f by (intro exI conjI) (auto split: if_splits)
    next
      case True
      then have "\<not> ready" "0 < sz1" using f(8,9) by simp_all
      then have eq: "RawConn_loop (wait_write kn dst) (writeFunc kn dst pipe) (sz, e0) k
          = RawConn_loop (wait_write kn dst) (writeFunc kn dst pipe) (sz1, e) k2"
        using w None same by (subst RawConn_loop.simps) simp
      have dec: "((nat sz1, stall k2), (nat sz, stall k)) \<in> less_than <*lex*> less_than"
        using f(5,10) True \<open>0 < sz1\<close> by auto
      have "sz1 \<le> max_int" "nat sz1 \<le> length (piped k2)" using f(4,5,6) 1(4,5) by auto
      from 1(1) [OF dec f(2) \<open>0 < sz1\<close> this, of e] obtain err sz' e' k' where
        r: "RawConn_loop (wait_write kn dst) (writeFunc kn dst pipe) (sz1, e) k2 = Some (err, (sz', e'), k')"
          "kinv k'" "source k' = source k2" "0 \<le> sz'" "sz' \<le> sz1" "piped k' = drop (nat (sz1 - sz')) (piped k2)"
          "sink k' = sink k2 @ take (nat (sz1 - sz')) (piped k2)" "err = None \<and> e' = None \<longrightarrow> sz' = 0" by blast
      have split: "nat (sz - sz') = nat (sz - sz1) + nat (sz1 - sz')" using f(5) r(5) by simp
      have "piped k' = drop (nat (sz - sz')) (piped k)" using r(6) f(6) split by (simp add: add.commute)
      moreover have "sink k' = sink k @ take (nat (sz - sz')) (piped k)"
        using r(7) f(6,7) by (simp add: split take_add)
      ultimately show ?thesis using eq r f(3,5) by (intro exI [of _ err] exI [of _ sz'] exI [of _ e'] exI [of _ k']) simp
    qed
  qed
qed

text \<open>
  The whole transfer. What left the source went through the pipe; \<open>rounds\<close> are the chunks that were
  moved completely, the only ones that are counted.
\<close>

lemma splice_loop_spec:
  "kinv k \<Longrightarrow> 0 \<le> n \<Longrightarrow> n + int (length (source k)) \<le> max_int \<Longrightarrow>
    \<exists>handed n' err cs' k' taken out rounds.
      splice_loop kn src dst pipe rc wc rn n cs k = Some (handed, n', err, cs', k')
      \<and> kinv k' \<and> source k = taken @ source k' \<and> piped k @ taken = out @ piped k' \<and> sink k' = sink k @ out
      \<and> n' = n + sum_list rounds \<and> sum_list rounds \<le> int (length out) \<and> length out \<le> length taken
      \<and> cs' = cs @ concat (map (counter_calls rc wc) rounds)
      \<and> (handed \<and> err = None \<longrightarrow> source k' = [] \<and> length out = length taken \<and> sum_list rounds = int (length taken))"
proof (induction "length (source k)" arbitrary: k n cs rn rule: less_induct)
  case less
  obtain err rN rE k1 where r: "RawConn_loop (wait_read kn src) (readFunc kn src pipe) (rn, None) k = Some (err, (rN, rE), k1)"
    "kinv k1" "sink k1 = sink k"
    "if err = None \<and> rE = None
       then 0 \<le> rN \<and> rN \<le> maxSpliceSize \<and> nat rN \<le> length (source k) \<and> source k1 = drop (nat rN) (source k)
         \<and> piped k1 = piped k @ take (nat rN) (source k) \<and> (rN = 0 \<longrightarrow> source k = [])
       else source k1 = source k \<and> piped k1 = piped k"
    using read_loop_spec [OF less.prems(1), of "(rn, None)"] by blast
  show ?case
  proof (cases "err = None \<and> rE = None \<and> 0 < rN")
    case False
    then have c: "err = None \<and> rE = None \<and> rN = 0 \<and> source k = [] \<or> (err \<noteq> None \<or> rE \<noteq> None)"
      and same: "source k1 = source k" "piped k1 = piped k" using r(4) by (auto split: if_splits)
    have "\<exists>handed err'. splice_loop kn src dst pipe rc wc rn n cs k = Some (handed, n, err', cs, k1)
      \<and> (handed \<and> err' = None \<longrightarrow> source k = [])"
      using r(1) c by (subst splice_loop.simps) (cases err; cases rE; simp add: Let_def ex_bool_eq)
    then obtain handed err' where "splice_loop kn src dst pipe rc wc rn n cs k = Some (handed, n, err', cs, k1)"
      and "handed \<and> err' = None \<longrightarrow> source k = []" by blast
    then show ?thesis using r(2,3) same
      by (intro exI [of _ handed] exI [of _ n] exI [of _ err'] exI [of _ cs] exI [of _ k1] exI [of _ "[]"]) auto
  next
    case True
    then have m: "nat rN \<le> length (source k)" "source k1 = drop (nat rN) (source k)"
      "piped k1 = piped k @ take (nat rN) (source k)" "rN \<le> maxSpliceSize" using r(4) by simp_all
    have big: "rN \<le> max_int" using m(4) by (simp add: maxSpliceSize_def)
    have room: "nat rN \<le> length (piped k1)" using m(1,3) by simp
    obtain werr sz' e k2 where w: "RawConn_loop (wait_write kn dst) (writeFunc kn dst pipe) (rN, None) k1 = Some (werr, (sz', e), k2)"
      "kinv k2" "source k2 = source k1" "0 \<le> sz'" "sz' \<le> rN" "piped k2 = drop (nat (rN - sz')) (piped k1)"
      "sink k2 = sink k1 @ take (nat (rN - sz')) (piped k1)" "werr = None \<and> e = None \<longrightarrow> sz' = 0"
      using write_loop_spec [OF r(2) _ big room, of None] True by blast
    define taken where "taken = take (nat rN) (source k)"
    define out where "out = take (nat (rN - sz')) (piped k1)"
    have len: "length taken = nat rN" "length out = nat (rN - sz')" "source k = taken @ source k1"
      using m(1,2) room w(4,5) by (auto simp: taken_def out_def)
    have pipe: "piped k @ taken = out @ piped k2" 
      by (simp only: taken_def out_def m(3) [symmetric] w(6) append_take_drop_id)
    have sink: "sink k2 = sink k @ out" using w(7) r(3) by (simp add: out_def)
    show ?thesis
    proof (cases "werr = None \<and> e = None")
      case False
      then have "\<exists>err'. splice_loop kn src dst pipe rc wc rn n cs k = Some (True, n, Some err', cs, k2)"
        using r(1) w(1) True by (subst splice_loop.simps) (cases werr; cases e; simp add: Let_def)
      then obtain err' where "splice_loop kn src dst pipe rc wc rn n cs k = Some (True, n, Some err', cs, k2)" ..
      then show ?thesis using w(2,3) len pipe sink w(4)
        by (intro exI [of _ True] exI [of _ n] exI [of _ "Some err'"] exI [of _ cs] exI [of _ k2] exI [of _ taken]
            exI [of _ out] exI [of _ "[]"]) auto
    next
      case complete: True
      then have sz: "sz' = 0" using w(8) by blast
      have wrap: "wrap64 (n + rN) = n + rN" using less.prems(2,3) True m(1) by (intro wrap64_nonneg) linarith+
      have step: "splice_loop kn src dst pipe rc wc rn n cs k
        = splice_loop kn src dst pipe rc wc rN (n + rN) (cs @ counter_calls rc wc rN) k2"
        using r(1) w(1) True complete wrap by (subst splice_loop.simps) (simp add: Let_def)
      have "length (source k2) < length (source k)" "0 \<le> n + rN" "n + rN + int (length (source k2)) \<le> max_int"
        using len(1,3) w(3) True less.prems(2,3) by auto
      from less.hyps [OF this(1) w(2) this(2,3), of rN "cs @ counter_calls rc wc rN"]
      obtain handed n' err' cs' k' taken' out' rounds where
        h: "splice_loop kn src dst pipe rc wc rN (n + rN) (cs @ counter_calls rc wc rN) k2 = Some (handed, n', err', cs', k')"
        "kinv k'" "source k2 = taken' @ source k'" "piped k2 @ taken' = out' @ piped k'" "sink k' = sink k2 @ out'"
        "n' = n + rN + sum_list rounds" "sum_list rounds \<le> int (length out')" "length out' \<le> length taken'"
        "cs' = (cs @ counter_calls rc wc rN) @ concat (map (counter_calls rc wc) rounds)"
        "handed \<and> err' = None \<longrightarrow> source k' = [] \<and> length out' = length taken' \<and> sum_list rounds = int (length taken')"
        by blast
      have "piped k @ taken @ taken' = (out @ out') @ piped k'" using pipe h(4) by (metis append.assoc)
      moreover have "length out = length taken" "int (length taken) = rN" using len(1,2) sz True by simp_all
      ultimately show ?thesis using step h len(3) w(3) sink
        by (intro exI [of _ handed] exI [of _ n'] exI [of _ err'] exI [of _ cs'] exI [of _ k'] exI [of _ "taken @ taken'"]
            exI [of _ "out @ out'"] exI [of _ "rN # rounds"]) auto
    qed
  qed
qed

lemma splice_linux_spec:
  assumes pipe: "getPipe kn choice st = (Inr pipe, st1)" "kinv (kern st1)" "pdata pipe = 0"
    and fits: "int (length (source (kern st1))) \<le> max_int"
  shows "\<exists>handed n err cs st' taken out rounds. splice_linux kn choice src dst rc wc st = Some (handed, n, err, cs, st')
    \<and> source (kern st1) = taken @ source (kern st') \<and> piped (kern st1) @ taken = out @ piped (kern st')
    \<and> sink (kern st') = sink (kern st1) @ out \<and> n = sum_list rounds \<and> n \<le> int (length out)
    \<and> length out \<le> length taken \<and> cs = concat (map (counter_calls rc wc) rounds)
    \<and> splicePipePool st' = pipe # splicePipePool st1
    \<and> (handed \<and> err = None \<longrightarrow> source (kern st') = [] \<and> length out = length taken \<and> n = int (length taken))"
proof -
  have "0 + int (length (source (kern st1))) \<le> max_int" using fits by simp
  from splice_loop_spec [OF pipe(2) order_refl this, of rc wc 0 "[]"]
  obtain handed n err cs k taken out rounds where
    r: "splice_loop kn src dst pipe rc wc 0 0 [] (kern st1) = Some (handed, n, err, cs, k)"
      "source (kern st1) = taken @ source k" "piped (kern st1) @ taken = out @ piped k" "sink k = sink (kern st1) @ out"
      "n = 0 + sum_list rounds" "sum_list rounds \<le> int (length out)" "length out \<le> length taken"
      "cs = [] @ concat (map (counter_calls rc wc) rounds)"
      "handed \<and> err = None \<longrightarrow> source k = [] \<and> length out = length taken \<and> sum_list rounds = int (length taken)"
    by blast
  have "splice_linux kn choice src dst rc wc st = Some (handed, n, err, cs, putPipe kn pipe (st1\<lparr>kern := k\<rparr>))"
    using pipe(1) r(1) by (simp add: splice_linux_def)
  moreover have "kern (putPipe kn pipe (st1\<lparr>kern := k\<rparr>)) = k"
    and "splicePipePool (putPipe kn pipe (st1\<lparr>kern := k\<rparr>)) = pipe # splicePipePool st1"
    using pipe(3) by (simp_all add: putPipe_def)
  ultimately show ?thesis using r
    by (intro exI [of _ handed] exI [of _ n] exI [of _ err] exI [of _ cs] exI [of _ "putPipe kn pipe (st1\<lparr>kern := k\<rparr>)"]
        exI [of _ taken] exI [of _ out] exI [of _ rounds]) simp
qed

end

subsection \<open>A kernel\<close>

text \<open>
  A kernel in memory: bytes to be read per descriptor, bytes written per descriptor, and pipes whose
  write end is the read end plus one. \<open>busy\<close> calls answer \<open>EAGAIN\<close> first; splicing to a \<open>broken\<close>
  descriptor fails.
\<close>

record memory =
  fd_in :: "int \<Rightarrow> byte list"
  fd_out :: "int \<Rightarrow> byte list"
  pipe_ends :: "int list"
  broken :: "int list"
  busy :: nat

definition mem_Splice :: "int \<Rightarrow> int \<Rightarrow> int \<Rightarrow> int \<Rightarrow> memory \<Rightarrow> int \<times> go_error option \<times> memory" where
  "mem_Splice a b len flags s =
     (if busy s > 0 then (-1, Some EAGAIN, s\<lparr>busy := busy s - 1\<rparr>)
      else if b \<in> set (broken s) then (-1, Some (Sentinel ''EPIPE'' ''broken pipe''), s)
      else let n = min len (int (length (fd_in s a)));
               bs = take (nat n) (fd_in s a);
               s1 = s\<lparr>fd_in := (fd_in s)(a := drop (nat n) (fd_in s a))\<rparr>
           in (n, None,
               if b \<in> set (pipe_ends s) then s1\<lparr>fd_in := (fd_in s1)(b - 1 := fd_in s1 (b - 1) @ bs)\<rparr>
               else s1\<lparr>fd_out := (fd_out s1)(b := fd_out s1 b @ bs)\<rparr>))"

definition mem_kernel :: "memory kernel" where
  "mem_kernel = \<lparr>Pipe2 = (\<lambda>s. (None, s)), F_SETPIPE_SZ = (\<lambda>_ _ s. s), CloseFunc = (\<lambda>_ s. s),
     unix_Splice = mem_Splice, wait_read = (\<lambda>_ s. (None, s)), wait_write = (\<lambda>_ s. (None, s))\<rparr>"

definition mem_ok :: "splicePipe \<Rightarrow> int \<Rightarrow> memory \<Rightarrow> bool" where
  "mem_ok p dst s \<longleftrightarrow> wfd p \<in> set (pipe_ends s) \<and> wfd p \<notin> set (broken s) \<and> dst \<notin> set (pipe_ends s)"

lemma mem_splice_kernel:
  assumes "wfd p = rfd p + 1" and "src \<noteq> rfd p"
  shows "splice_kernel mem_kernel src dst p (mem_ok p dst) (\<lambda>s. fd_in s src) (\<lambda>s. fd_in s (rfd p))
    (\<lambda>s. fd_out s dst) busy"
proof
  fix k k' n e
  assume k: "mem_ok p dst k" and s: "unix_Splice mem_kernel src (wfd p) maxSpliceSize 2 k = (n, e, k')"
  show "mem_ok p dst k' \<and> fd_out k' dst = fd_out k dst \<and>
      (if e = None
       then 0 \<le> n \<and> n \<le> maxSpliceSize \<and> nat n \<le> length (fd_in k src) \<and> fd_in k' src = drop (nat n) (fd_in k src)
         \<and> fd_in k' (rfd p) = fd_in k (rfd p) @ take (nat n) (fd_in k src) \<and> (n = 0 \<longrightarrow> fd_in k src = [])
       else fd_in k' src = fd_in k src \<and> fd_in k' (rfd p) = fd_in k (rfd p) \<and> (e = Some EAGAIN \<longrightarrow> busy k' < busy k))"
    using k s assms by (auto simp: mem_kernel_def mem_Splice_def mem_ok_def Let_def maxSpliceSize_def min_def split: if_splits)
next
  fix k k' n e and sz :: int
  assume k: "mem_ok p dst k" "0 < sz" "nat sz \<le> length (fd_in k (rfd p))"
    and s: "unix_Splice mem_kernel (rfd p) dst sz 3 k = (n, e, k')"
  show "mem_ok p dst k' \<and> fd_in k' src = fd_in k src \<and>
      (if e = None
       then 0 < n \<and> n \<le> sz \<and> fd_in k' (rfd p) = drop (nat n) (fd_in k (rfd p))
         \<and> fd_out k' dst = fd_out k dst @ take (nat n) (fd_in k (rfd p))
       else fd_out k' dst = fd_out k dst \<and> fd_in k' (rfd p) = fd_in k (rfd p) \<and> (e = Some EAGAIN \<longrightarrow> busy k' < busy k))"
    using k s assms by (auto simp: mem_kernel_def mem_Splice_def mem_ok_def Let_def split: if_splits)
next
  fix k k' :: memory and e wait
  assume "mem_ok p dst k" and "wait = wait_read mem_kernel src \<or> wait = wait_write mem_kernel dst" and "wait k = (e, k')"
  then show "mem_ok p dst k' \<and> fd_in k' src = fd_in k src \<and> fd_in k' (rfd p) = fd_in k (rfd p)
      \<and> fd_out k' dst = fd_out k dst \<and> busy k' \<le> busy k"
    by (auto simp: mem_kernel_def)
qed

interpretation mem: splice_kernel mem_kernel 0 1 "\<lparr>rfd = 10, wfd = 11, pdata = 0\<rparr>"
  "mem_ok \<lparr>rfd = 10, wfd = 11, pdata = 0\<rparr> 1" "\<lambda>s. fd_in s 0" "\<lambda>s. fd_in s 10" "\<lambda>s. fd_out s 1" busy
  using mem_splice_kernel [of "\<lparr>rfd = 10, wfd = 11, pdata = 0\<rparr>" 0 1] by simp

text \<open>How this kernel runs when it is not busy: a read takes everything, a write all it is asked for.\<close>

lemma mem_read:
  assumes "busy k = 0" and "wfd p \<in> set (pipe_ends k)" and "wfd p \<notin> set (broken k)"
    and "int (length (fd_in k src)) \<le> maxSpliceSize"
  shows "RawConn_loop (wait_read mem_kernel src) (readFunc mem_kernel src p) v k
    = Some (None, (int (length (fd_in k src)), None),
        k\<lparr>fd_in := ((fd_in k)(src := []))(wfd p - 1 := ((fd_in k)(src := [])) (wfd p - 1) @ fd_in k src)\<rparr>)"
  using assms by (subst RawConn_loop.simps) (simp add: readFunc_def mem_kernel_def mem_Splice_def Let_def)

lemma mem_write:
  assumes "busy k = 0" and "dst \<notin> set (pipe_ends k)" and "dst \<notin> set (broken k)"
    and "0 < sz" and "sz \<le> int (length (fd_in k (rfd p)))"
  shows "RawConn_loop (wait_write mem_kernel dst) (writeFunc mem_kernel dst p) (sz, None) k
    = Some (None, (0, None), k\<lparr>fd_in := (fd_in k)(rfd p := drop (nat sz) (fd_in k (rfd p))),
        fd_out := (fd_out k)(dst := fd_out k dst @ take (nat sz) (fd_in k (rfd p)))\<rparr>)"
proof -
  have zero: "writeFunc mem_kernel dst p (0, None) s = Some (True, (0, None), s)" for s
    by (subst writeFunc.simps) simp
  have "writeFunc mem_kernel dst p (sz, None) k = Some (True, (0, None),
      k\<lparr>fd_in := (fd_in k)(rfd p := drop (nat sz) (fd_in k (rfd p))),
        fd_out := (fd_out k)(dst := fd_out k dst @ take (nat sz) (fd_in k (rfd p)))\<rparr>)"
    using assms by (subst writeFunc.simps) (simp add: mem_kernel_def mem_Splice_def Let_def wrap64_nonneg zero [unfolded mem_kernel_def])
  then show ?thesis by (subst RawConn_loop.simps) (simp add: mem_kernel_def)
qed

definition mem_state :: "byte list \<Rightarrow> memory splicer" where
  "mem_state stale = \<lparr>kern = \<lparr>fd_in = (\<lambda>_. [])(0 := [1, 2, 3], 10 := stale), fd_out = (\<lambda>_. []),
      pipe_ends = [11], broken = [], busy = 0\<rparr>, splicePipePool = [\<lparr>rfd = 10, wfd = 11, pdata = 0\<rparr>]\<rparr>"

lemma mem_getPipe:
  "getPipe mem_kernel 0 (mem_state stale)
    = (Inr \<lparr>rfd = 10, wfd = 11, pdata = 0\<rparr>, (mem_state stale)\<lparr>splicePipePool := []\<rparr>)"
  by (simp add: getPipe_def mem_state_def)

lemma mem_run:
  "\<exists>st'. splice_linux mem_kernel 0 0 1 [7] [8] (mem_state stale) = Some (True, 3, None, [(7, 3), (8, 3)], st')"
proof -
  let ?p = "\<lparr>rfd = 10, wfd = 11, pdata = 0\<rparr>"
  define k0 where "k0 = kern (mem_state stale)"
  define k1 where "k1 = k0\<lparr>fd_in := ((fd_in k0)(0 := []))(10 := stale @ [1, 2, 3])\<rparr>"
  define k2 where "k2 = k1\<lparr>fd_in := (fd_in k1)(10 := drop 3 (stale @ [1, 2, 3])), fd_out := (fd_out k1)(1 := take 3 (stale @ [1, 2, 3]))\<rparr>"
  have k0: "busy k0 = 0" "pipe_ends k0 = [11]" "broken k0 = []" "fd_in k0 0 = [1, 2, 3]" "fd_in k0 10 = stale" "fd_out k0 1 = []"
    by (simp_all add: k0_def mem_state_def)
  have r1: "RawConn_loop (wait_read mem_kernel 0) (readFunc mem_kernel 0 ?p) (0, None) k0 = Some (None, (3, None), k1)"
    using mem_read [of k0 ?p 0 "(0, None)"] k0 by (simp add: k1_def maxSpliceSize_def)
  have w: "RawConn_loop (wait_write mem_kernel 1) (writeFunc mem_kernel 1 ?p) (3, None) k1 = Some (None, (0, None), k2)"
    using mem_write [of k1 1 3 ?p] k0 by (simp add: k1_def k2_def)
  have "RawConn_loop (wait_read mem_kernel 0) (readFunc mem_kernel 0 ?p) (3, None) k2 = Some (None, (0, None),
      k2\<lparr>fd_in := ((fd_in k2)(0 := []))(10 := ((fd_in k2)(0 := [])) 10 @ fd_in k2 0)\<rparr>)"
    using mem_read [of k2 ?p 0 "(3, None)"] k0 by (simp add: k1_def k2_def maxSpliceSize_def)
  then obtain k3 where r2: "RawConn_loop (wait_read mem_kernel 0) (readFunc mem_kernel 0 ?p) (3, None) k2 = Some (None, (0, None), k3)"
    by blast
  have "splice_loop mem_kernel 0 1 ?p [7] [8] 3 3 [(7, 3), (8, 3)] k2 = Some (True, 3, None, [(7, 3), (8, 3)], k3)"
    using r2 by (subst splice_loop.simps) simp
  then have "splice_loop mem_kernel 0 1 ?p [7] [8] 0 0 [] k0 = Some (True, 3, None, [(7, 3), (8, 3)], k3)"
    using r1 w by (subst splice_loop.simps) (simp add: wrap64_nonneg counter_calls_def)
  moreover have "kern ((mem_state stale)\<lparr>splicePipePool := []\<rparr>) = k0" by (simp add: k0_def)
  ultimately show ?thesis by (simp add: splice_linux_def mem_getPipe)
qed

subsection \<open>Properties\<close>

text \<open>
  C7: a transfer through an empty pipe returns; what reached the destination is the front of the
  source, and when it is handled without an error it is the whole source, counted exactly. When it
  fails the count may be short of what was delivered, never more, and the counters have seen
  exactly the count, chunk by chunk.
\<close>

theorem splice_delivers:
  assumes ker: "splice_kernel kn src dst pipe kinv source piped sink stall"
    and pipe: "getPipe kn choice st = (Inr pipe, st1)" "kinv (kern st1)" "pdata pipe = 0"
    and clean: "piped (kern st1) = []" and fits: "int (length (source (kern st1))) \<le> max_int"
  shows "\<exists>handed n err cs st' rounds delivered.
    splice_linux kn choice src dst rc wc st = Some (handed, n, err, cs, st')
    \<and> sink (kern st') = sink (kern st1) @ delivered \<and> prefix delivered (source (kern st1))
    \<and> n \<le> int (length delivered) \<and> n = sum_list rounds \<and> cs = concat (map (counter_calls rc wc) rounds)
    \<and> (handed \<and> err = None \<longrightarrow> delivered = source (kern st1) \<and> n = int (length delivered))"
proof -
  from splice_kernel.splice_linux_spec [OF ker pipe fits, of rc wc]
  obtain handed n err cs st' taken out rounds where
    r: "splice_linux kn choice src dst rc wc st = Some (handed, n, err, cs, st')"
      "source (kern st1) = taken @ source (kern st')" "piped (kern st1) @ taken = out @ piped (kern st')"
      "sink (kern st') = sink (kern st1) @ out" "n = sum_list rounds" "n \<le> int (length out)"
      "cs = concat (map (counter_calls rc wc) rounds)"
      "handed \<and> err = None \<longrightarrow> source (kern st') = [] \<and> length out = length taken \<and> n = int (length taken)"
    by blast
  have taken: "taken = out @ piped (kern st')" using r(3) clean by simp
  then have "prefix out (source (kern st1))" using r(2) by simp
  moreover have "handed \<and> err = None \<longrightarrow> out = source (kern st1) \<and> n = int (length out)"
    using r(2,8) taken by auto
  ultimately show ?thesis using r(1,4-7)
    by (intro exI [of _ handed] exI [of _ n] exI [of _ err] exI [of _ cs] exI [of _ st'] exI [of _ rounds]
        exI [of _ out]) simp
qed

theorem splice_delivers_witness:
  "\<exists>st'. splice_linux mem_kernel 0 0 1 [7] [8] (mem_state []) = Some (True, 3, None, [(7, 3), (8, 3)], st')
    \<and> fd_out (kern st') 1 = [1, 2, 3]"
proof -
  let ?st = "(mem_state [])\<lparr>splicePipePool := []\<rparr>"
  obtain st' where run: "splice_linux mem_kernel 0 0 1 [7] [8] (mem_state []) = Some (True, 3, None, [(7, 3), (8, 3)], st')"
    using mem_run by blast
  have s: "mem_ok \<lparr>rfd = 10, wfd = 11, pdata = 0\<rparr> 1 (kern ?st)" "fd_in (kern ?st) 10 = []" "fd_in (kern ?st) 0 = [1, 2, 3]"
    "fd_out (kern ?st) 1 = []" by (simp_all add: mem_ok_def mem_state_def)
  have "fd_out (kern st') 1 = fd_out (kern ?st) 1 @ fd_in (kern ?st) 0"
    using splice_delivers [OF mem.splice_kernel_axioms mem_getPipe s(1) _ s(2), of "[7]" "[8]"] s(3) run by auto
  with run s show ?thesis by simp
qed

text \<open>
  The pipe goes back to the pool whatever it still holds, since nothing ever sets its \<open>data\<close>. A
  transfer through a pipe that holds bytes of an earlier, failed one sends those to its own
  destination first, reports success with the full count, and leaves as many bytes of its source
  behind in the pipe.
\<close>

theorem splice_stale_pipe:
  assumes ker: "splice_kernel kn src dst pipe kinv source piped sink stall"
    and pipe: "getPipe kn choice st = (Inr pipe, st1)" "kinv (kern st1)" "pdata pipe = 0"
    and fits: "int (length (source (kern st1))) \<le> max_int"
  shows "\<exists>handed n err cs st'. splice_linux kn choice src dst rc wc st = Some (handed, n, err, cs, st')
    \<and> splicePipePool st' = pipe # splicePipePool st1
    \<and> (handed \<and> err = None \<longrightarrow> n = int (length (source (kern st1)))
      \<and> sink (kern st') = sink (kern st1) @ take (length (source (kern st1))) (piped (kern st1) @ source (kern st1))
      \<and> piped (kern st') = drop (length (source (kern st1))) (piped (kern st1) @ source (kern st1)))"
proof -
  from splice_kernel.splice_linux_spec [OF ker pipe fits, of rc wc]
  obtain handed n err cs st' taken out where
    r: "splice_linux kn choice src dst rc wc st = Some (handed, n, err, cs, st')"
      "source (kern st1) = taken @ source (kern st')" "piped (kern st1) @ taken = out @ piped (kern st')"
      "sink (kern st') = sink (kern st1) @ out" "splicePipePool st' = pipe # splicePipePool st1"
      "handed \<and> err = None \<longrightarrow> source (kern st') = [] \<and> length out = length taken \<and> n = int (length taken)"
    by blast
  have "n = int (length (source (kern st1)))
      \<and> sink (kern st') = sink (kern st1) @ take (length (source (kern st1))) (piped (kern st1) @ source (kern st1))
      \<and> piped (kern st') = drop (length (source (kern st1))) (piped (kern st1) @ source (kern st1))"
    if "handed \<and> err = None"
    using r(2,4,6) that by (simp add: r(3))
  with r(1,5) show ?thesis by blast
qed

theorem splice_stale_pipe_witness:
  "\<exists>st'. splice_linux mem_kernel 0 0 1 [7] [8] (mem_state [9, 9]) = Some (True, 3, None, [(7, 3), (8, 3)], st')
    \<and> fd_out (kern st') 1 = [9, 9, 1] \<and> fd_in (kern st') 10 = [2, 3] \<and> length (splicePipePool st') = 1"
proof -
  let ?st = "(mem_state [9, 9])\<lparr>splicePipePool := []\<rparr>"
  obtain st' where run: "splice_linux mem_kernel 0 0 1 [7] [8] (mem_state [9, 9]) = Some (True, 3, None, [(7, 3), (8, 3)], st')"
    using mem_run by blast
  have s: "mem_ok \<lparr>rfd = 10, wfd = 11, pdata = 0\<rparr> 1 (kern ?st)" "fd_in (kern ?st) 10 = [9, 9]" "fd_in (kern ?st) 0 = [1, 2, 3]"
    "fd_out (kern ?st) 1 = []" by (simp_all add: mem_ok_def mem_state_def)
  have "splicePipePool st' = \<lparr>rfd = 10, wfd = 11, pdata = 0\<rparr> # splicePipePool ?st
      \<and> fd_out (kern st') 1 = fd_out (kern ?st) 1 @ take (length (fd_in (kern ?st) 0)) (fd_in (kern ?st) 10 @ fd_in (kern ?st) 0)
      \<and> fd_in (kern st') 10 = drop (length (fd_in (kern ?st) 0)) (fd_in (kern ?st) 10 @ fd_in (kern ?st) 0)"
    using splice_stale_pipe [OF mem.splice_kernel_axioms mem_getPipe s(1), of "[7]" "[8]"] run s(3) by auto
  with run s show ?thesis by simp
qed

end
