(* ===== verification/Counting.thy ===== *)
theory Counting
  imports Copy "HOL-Library.Multiset"
begin

text \<open>
  What wrapping and unwrapping counters does to the counting: \<open>NewReader\<close> and \<open>NewWriter\<close> flatten
  (\<^verbatim>\<open>enhancements/iolib/counter/rw.go\<close>), \<open>Copy\<close> takes all counters off and puts them back in one
  layer. Neither loses or doubles a count.
\<close>

text \<open>The calls one read or write of \<open>n\<close> bytes makes.\<close>

definition counted :: "Func list \<Rightarrow> int \<Rightarrow> (Func \<times> int) list" where
  "counted fs n = (if n > 0 then map (\<lambda>f. (f, n)) fs else [])"

lemma counted_append [simp]: "counted (fs @ gs) n = counted fs n @ counted gs n"
  by (simp add: counted_def)

lemma counted_Nil [simp]: "counted [] n = []"
  by (simp add: counted_def)

lemma Read_CountReader:
  "obj_Read dbg rd (CountReader r fs) k w = Inr (bs, n, err, v', w') \<longleftrightarrow>
    (\<exists>r' w0. obj_Read dbg rd r k w = Inr (bs, n, err, r', w0) \<and> v' = CountReader r' fs
      \<and> w' = w0\<lparr>calls := calls w0 @ counted fs n\<rparr>)"
  by (auto simp: counted_def split: sum.splits)

lemma Write_CountWriter:
  "obj_Write wr (CountWriter u fs) p w = Inr (n, err, v', w') \<longleftrightarrow>
    (\<exists>u' w0. obj_Write wr u p w = Inr (n, err, u', w0) \<and> v' = CountWriter u' fs
      \<and> w' = w0\<lparr>calls := calls w0 @ counted fs n\<rparr>)"
  by (auto simp: counted_def split: sum.splits)

declare obj_Read.simps(2) [simp del] obj_Write.simps(2) [simp del]

text \<open>Off with all counters: the same bytes and state, and the calls the counters would have had.\<close>

lemma Read_unwrapped:
  "generic v \<Longrightarrow> readable v \<Longrightarrow> obj_Read dbg rd v k w = Inr (bs, n, err, v', w') \<Longrightarrow>
    \<exists>b' w0 cs. obj_Read dbg rd (fst (UnwrapReadCounter v)) k w = Inr (bs, n, err, b', w0)
      \<and> w' = w0\<lparr>calls := calls w0 @ cs\<rparr> \<and> mset cs = mset (counted (snd (UnwrapReadCounter v)) n)"
proof (induction v arbitrary: v' w')
  case (CountReader r fs)
  then obtain r' w1 where h: "obj_Read dbg rd r k w = Inr (bs, n, err, r', w1)"
    "w' = w1\<lparr>calls := calls w1 @ counted fs n\<rparr>" by (auto simp: Read_CountReader)
  obtain b' w0 cs where c: "obj_Read dbg rd (fst (UnwrapReadCounter r)) k w = Inr (bs, n, err, b', w0)"
    "w1 = w0\<lparr>calls := calls w0 @ cs\<rparr>" "mset cs = mset (counted (snd (UnwrapReadCounter r)) n)"
    using CountReader.IH [OF _ _ h(1)] CountReader.prems by auto
  have "UnwrapReadCounter (CountReader r fs) = (fst (UnwrapReadCounter r), fs @ snd (UnwrapReadCounter r))"
    by (simp add: UnwrapReadCounter_step [of "CountReader r fs"])
  then show ?case using c h(2)
    by (intro exI [of _ b'] exI [of _ w0] exI [of _ "cs @ counted fs n"]) simp
qed (auto simp: UnwrapReadCounter_step intro: exI [of _ "[]"])

text \<open>
  Counting survives flattening. A reader made by \<open>NewReader\<close> behaves, call for call and in
  order, as one more layer of counters around the old reader; and reading after taking all
  counters off and putting them back in one layer, as \<open>Copy\<close> does, returns the same bytes, leaves
  the same state and makes the same calls of the counters, each as often as before (their order
  within a read may change).
\<close>

theorem counters_preserved:
  assumes "generic r" and "readable r"
  shows "(obj_Read dbg rd (CountReader r cs) k w = Inr (bs, n, err, v1, w1) \<longrightarrow>
      (\<exists>v2. obj_Read dbg rd (NewReader r cs) k w = Inr (bs, n, err, v2, w1)))
    \<and> (obj_Read dbg rd r k w = Inr (bs, n, err, v1, w1) \<longrightarrow>
      (\<exists>v2 w2. obj_Read dbg rd (CountReader (fst (UnwrapReadCounter r)) (snd (UnwrapReadCounter r))) k w
          = Inr (bs, n, err, v2, w2)
        \<and> exts w2 = exts w1 \<and> heap w2 = heap w1 \<and> mset (calls w2) = mset (calls w1)))"
proof
  have "\<exists>v2. obj_Read dbg rd (NewReader r cs) k w = Inr (bs, n, err, v2, w1)"
    if "obj_Read dbg rd (CountReader r cs) k w = Inr (bs, n, err, v1, w1)"
  proof (cases "cs = []")
    case True
    then show ?thesis using that assms by (auto simp: NewReader_def Read_CountReader)
  next
    case False
    show ?thesis
    proof (cases "\<exists>u fs. r = CountReader u fs")
      case True
      with that False show ?thesis by (auto simp: NewReader_def Read_CountReader)
    next
      case nc: False
      then have "ReadCounters r = None" using assms by (cases r) auto
      then have "UnwrapReadCounter r = (r, [])" by (simp add: UnwrapReadCounter_step)
      then have "NewReader r cs = CountReader r cs" using False nc assms by (cases r) (auto simp: NewReader_def)
      with that show ?thesis by simp
    qed
  qed
  then show "obj_Read dbg rd (CountReader r cs) k w = Inr (bs, n, err, v1, w1) \<longrightarrow>
      (\<exists>v2. obj_Read dbg rd (NewReader r cs) k w = Inr (bs, n, err, v2, w1))" by blast
  show "obj_Read dbg rd r k w = Inr (bs, n, err, v1, w1) \<longrightarrow>
      (\<exists>v2 w2. obj_Read dbg rd (CountReader (fst (UnwrapReadCounter r)) (snd (UnwrapReadCounter r))) k w
          = Inr (bs, n, err, v2, w2)
        \<and> exts w2 = exts w1 \<and> heap w2 = heap w1 \<and> mset (calls w2) = mset (calls w1))"
    using Read_unwrapped [OF assms, of dbg rd k w bs n err v1 w1] by (fastforce simp: Read_CountReader)
qed

theorem counters_preserved_witness:
  "\<exists>v2. obj_Read True store_Read (NewReader (CountReader (Ext 0 reader_only None None None None) [1]) [2]) 1
      \<lparr>exts = \<lambda>_. zero_Buffer, calls = [], heap = newDefaultAllocator\<rparr>
    = Inr ([], 0, Some io_EOF, v2, \<lparr>exts = \<lambda>_. zero_Buffer, calls = [], heap = newDefaultAllocator\<rparr>)"
proof -
  let ?r = "CountReader (Ext 0 reader_only None None None None) [1]"
  let ?w = "\<lparr>exts = \<lambda>_::nat. zero_Buffer, calls = [], heap = newDefaultAllocator\<rparr>"
  have g: "generic ?r" "readable ?r" by simp_all
  have "store_Read 0 (\<lambda>_. zero_Buffer) 1 = Inr ([], 0, Some io_EOF, (\<lambda>_. zero_Buffer)(0 := zero_Buffer))"
    by (simp add: store_Read_def Read_def Empty_def zero_Buffer_def)
  then have "obj_Read True store_Read (CountReader ?r [2]) 1 ?w
      = Inr ([], 0, Some io_EOF, CountReader ?r [2], ?w)"
    by (auto simp: Read_CountReader counted_def)
  then show ?thesis using counters_preserved [OF g, of True store_Read "[2]" 1 ?w] by blast
qed

end
