(* ===== verification/Singleflight.thy ===== *)
theory Singleflight
  imports Ex
begin

text \<open>
  \<^verbatim>\<open>enhancements/singleflight/singleflight.go\<close> as a transition system. Each stretch of code that
  runs under the mutex is one definition and one step, so is the user's function, and so is a
  wait that ends; invocations (goroutines, or single calls of a goroutine) interleave freely.
\<close>

subsection \<open>State\<close>

text \<open>How the user's function ends: it returns, it panics with a value, or it calls \<^verbatim>\<open>runtime.Goexit\<close>.\<close>

datatype 'v outcome = Returns 'v "go_error option" | Panics panic | Goexits

text \<open>The \<open>err\<close> of a call: an error of the function, a \<open>panicError\<close>, or \<open>errGoexit\<close>.\<close>

datatype call_err = FnErr "go_error option" | PanicErr panic | ErrGoexit

record 'v flight =
  cval :: 'v
  cerr :: call_err
  chans :: "nat list"
  wg :: nat
  dups :: nat

text \<open>
  What such a panic becomes: a \<open>panicError\<close>, with the value and the stack trace less its first line.
  \<open>trace\<close> is what \<^verbatim>\<open>debug.Stack\<close> returns; \<open>print_v\<close> is the verb \<open>%v\<close>, \<open>as_error\<close> the assertion that the
  value is an error.
\<close>

record 'p panicError =
  pvalue :: 'p
  pstack :: string

definition newPanicError :: "string \<Rightarrow> 'p \<Rightarrow> 'p panicError" where
  "newPanicError trace v =
     \<lparr>pvalue = v, pstack = (case dropWhile (\<lambda>c. c \<noteq> CHR 0x0A) trace of [] \<Rightarrow> trace | c # rest \<Rightarrow> rest)\<rparr>"

definition panicError_Error :: "('p \<Rightarrow> string) \<Rightarrow> 'p panicError \<Rightarrow> string" where
  "panicError_Error print_v p = print_v (pvalue p) @ [CHR 0x0A, CHR 0x0A] @ pstack p"

definition panicError_Unwrap :: "('p \<Rightarrow> go_error option) \<Rightarrow> 'p panicError \<Rightarrow> go_error option" where
  "panicError_Unwrap as_error p = (case as_error (pvalue p) of None \<Rightarrow> None | Some err \<Rightarrow> Some err)"

lemma panicError_text:
  "CHR 0x0A \<notin> set header \<Longrightarrow> panicError_Error print_v (newPanicError (header @ CHR 0x0A # stack) v)
    = print_v v @ [CHR 0x0A, CHR 0x0A] @ stack"
  by (simp add: panicError_Error_def newPanicError_def dropWhile_append)

record 'v result =
  Val :: 'v
  ErrOf :: "go_error option"
  Shared :: bool

text \<open>
  Where an invocation is. \<open>Calling\<close>: in the function; \<open>Deferring\<close>: in the deferred function of \<open>doCall\<close>,
  before the lock; the flag tells a goroutine started by \<open>DoChan\<close> from a caller of \<open>Do\<close>.
  \<open>Crashing\<close>: \<^verbatim>\<open>select {}\<close> beside a goroutine that panics.
\<close>

datatype ('k, 'v) pc =
    Idle
  | Calling 'k nat bool
  | Deferring 'k nat bool
  | Waiting nat
  | DoReturned nat 'v "go_error option" bool
  | DoPanicked nat panic
  | DoExited nat
  | ChanReturned nat nat
  | Crashing nat panic
  | GoroutineDone nat

text \<open>
  Calls and channels are in stores of their own, by number; channels have capacity 1. \<open>outcomes\<close> is no
  state of the code: for each call it records how every execution of the user's function on its
  behalf ended, and no operation reads it.
\<close>

record ('k, 'v) sf =
  m :: "'k \<Rightarrow> nat option"
  cells :: "nat \<Rightarrow> 'v flight"
  next_call :: nat
  chan_q :: "nat \<Rightarrow> 'v result list"
  next_chan :: nat
  outcomes :: "nat \<Rightarrow> 'v outcome list"
  pcs :: "nat \<Rightarrow> ('k, 'v) pc"

subsection \<open>The critical sections\<close>

text \<open>\<open>Do\<close> up to the unlock: join the call in flight or become the leader of a new one.\<close>

definition Do_enter :: "'v \<Rightarrow> 'k \<Rightarrow> nat \<Rightarrow> ('k, 'v) sf \<Rightarrow> ('k, 'v) sf" where
  "Do_enter zero key t st =
     (case m st key of
        Some c \<Rightarrow> st\<lparr>cells := (cells st)(c := (cells st c)\<lparr>dups := dups (cells st c) + 1\<rparr>),
                     pcs := (pcs st)(t := Waiting c)\<rparr>
      | None \<Rightarrow>
          (let c = next_call st
           in st\<lparr>cells := (cells st)(c := \<lparr>cval = zero, cerr = FnErr None, chans = [], wg = 1, dups = 0\<rparr>),
                 m := (m st)(key := Some c), next_call := Suc c, pcs := (pcs st)(t := Calling key c False)\<rparr>))"

text \<open>\<open>DoChan\<close>; \<open>g\<close> is the goroutine it may start.\<close>

definition DoChan_enter :: "'v \<Rightarrow> 'k \<Rightarrow> nat \<Rightarrow> nat \<Rightarrow> ('k, 'v) sf \<Rightarrow> ('k, 'v) sf" where
  "DoChan_enter zero key t g st =
     (let ch = next_chan st; st = st\<lparr>next_chan := Suc ch, chan_q := (chan_q st)(ch := [])\<rparr>
      in case m st key of
           Some c \<Rightarrow> st\<lparr>cells := (cells st)(c := (cells st c)\<lparr>dups := dups (cells st c) + 1,
                            chans := chans (cells st c) @ [ch]\<rparr>),
                        pcs := (pcs st)(t := ChanReturned c ch)\<rparr>
         | None \<Rightarrow>
             (let c = next_call st
              in st\<lparr>cells := (cells st)(c := \<lparr>cval = zero, cerr = FnErr None, chans = [ch], wg = 1, dups = 0\<rparr>),
                    m := (m st)(key := Some c), next_call := Suc c,
                    pcs := (pcs st)(t := ChanReturned c ch, g := Calling key c True)\<rparr>))"

text \<open>
  \<open>doCall\<close> up to the lock of its deferred function: the function runs, its panic is recovered and
  kept, an exit is recognised by neither flag being set.
\<close>

definition doCall_run :: "'v outcome \<Rightarrow> 'k \<Rightarrow> nat \<Rightarrow> bool \<Rightarrow> nat \<Rightarrow> ('k, 'v) sf \<Rightarrow> ('k, 'v) sf" where
  "doCall_run res key c go t st =
     st\<lparr>cells := (cells st)(c := (case res of
            Returns v e \<Rightarrow> (cells st c)\<lparr>cval := v, cerr := FnErr e\<rparr>
          | Panics p \<Rightarrow> (cells st c)\<lparr>cerr := PanicErr p\<rparr>
          | Goexits \<Rightarrow> (cells st c)\<lparr>cerr := ErrGoexit\<rparr>)),
        pcs := (pcs st)(t := Deferring key c go)\<rparr>"

text \<open>Sending to channels of capacity 1; a full one blocks for ever.\<close>

fun send_all :: "nat list \<Rightarrow> 'v result \<Rightarrow> (nat \<Rightarrow> 'v result list) \<Rightarrow> (nat \<Rightarrow> 'v result list) option" where
  "send_all [] r q = Some q"
| "send_all (ch # chs) r q = (if length (q ch) < 1 then send_all chs r (q(ch := q ch @ [r])) else None)"

text \<open>
  The deferred function of \<open>doCall\<close>, then the return of \<open>Do\<close> for the leader. \<open>None\<close>: a send blocks
  with the mutex held, or \<open>Done\<close> panics below zero.
\<close>

definition doCall_finish :: "'k \<Rightarrow> nat \<Rightarrow> bool \<Rightarrow> nat \<Rightarrow> ('k, 'v) sf \<Rightarrow> ('k, 'v) sf option" where
  "doCall_finish key c go t st =
     (if wg (cells st c) = 0 then None
      else let cell = (cells st c)\<lparr>wg := wg (cells st c) - 1\<rparr>;
               st1 = st\<lparr>cells := (cells st)(c := cell),
                        m := (if m st key = Some c then (m st)(key := None) else m st)\<rparr>
        in case cerr cell of
             PanicErr p \<Rightarrow>
               Some (st1\<lparr>pcs := (pcs st1)(t := if length (chans cell) > 0 then Crashing c p else DoPanicked c p)\<rparr>)
           | ErrGoexit \<Rightarrow> Some (st1\<lparr>pcs := (pcs st1)(t := if go then GoroutineDone c else DoExited c)\<rparr>)
           | FnErr e \<Rightarrow>
               (case send_all (chans cell) \<lparr>Val = cval cell, ErrOf = e, Shared = dups cell > 0\<rparr> (chan_q st1) of
                  None \<Rightarrow> None
                | Some q \<Rightarrow>
                    Some (st1\<lparr>chan_q := q,
                      pcs := (pcs st1)(t := if go then GoroutineDone c
                        else DoReturned c (cval cell) e (dups cell > 0))\<rparr>)))"

text \<open>\<open>Do\<close> after \<open>Wait\<close>, for one that joined.\<close>

definition Do_waited :: "nat \<Rightarrow> nat \<Rightarrow> ('k, 'v) sf \<Rightarrow> ('k, 'v) sf" where
  "Do_waited c t st =
     st\<lparr>pcs := (pcs st)(t := (case cerr (cells st c) of
          PanicErr p \<Rightarrow> DoPanicked c p
        | ErrGoexit \<Rightarrow> DoExited c
        | FnErr e \<Rightarrow> DoReturned c (cval (cells st c)) e True))\<rparr>"

definition Forget :: "'k \<Rightarrow> ('k, 'v) sf \<Rightarrow> ('k, 'v) sf" where
  "Forget key st = st\<lparr>m := (m st)(key := None)\<rparr>"

subsection \<open>Interleaving\<close>

definition sf_init :: "'v \<Rightarrow> ('k, 'v) sf" where
  "sf_init zero = \<lparr>m = (\<lambda>_. None), cells = (\<lambda>_. \<lparr>cval = zero, cerr = FnErr None, chans = [], wg = 0, dups = 0\<rparr>),
     next_call = 0, chan_q = (\<lambda>_. []), next_chan = 0, outcomes = (\<lambda>_. []), pcs = (\<lambda>_. Idle)\<rparr>"

text \<open>What the function did, written down beside the code's own step.\<close>

definition recorded :: "nat \<Rightarrow> 'v outcome \<Rightarrow> ('k, 'v) sf \<Rightarrow> ('k, 'v) sf" where
  "recorded c res st = st\<lparr>outcomes := (outcomes st)(c := outcomes st c @ [res])\<rparr>"

text \<open>\<open>forgets\<close> says whether \<open>Forget\<close> may be called; the function may end in any way.\<close>

inductive sf_step :: "bool \<Rightarrow> 'v \<Rightarrow> ('k, 'v) sf \<Rightarrow> ('k, 'v) sf \<Rightarrow> bool" for forgets :: bool and zero :: 'v where
  step_Do: "pcs st t = Idle \<Longrightarrow> sf_step forgets zero st (Do_enter zero key t st)"
| step_DoChan: "pcs st t = Idle \<Longrightarrow> pcs st g = Idle \<Longrightarrow> t \<noteq> g \<Longrightarrow>
    sf_step forgets zero st (DoChan_enter zero key t g st)"
| step_run: "pcs st t = Calling key c go \<Longrightarrow> 
    sf_step forgets zero st (recorded c res (doCall_run res key c go t st))"
| step_finish: "pcs st t = Deferring key c go \<Longrightarrow> doCall_finish key c go t st = Some st' \<Longrightarrow>
    sf_step forgets zero st st'"
| step_wait: "pcs st t = Waiting c \<Longrightarrow> wg (cells st c) = 0 \<Longrightarrow> sf_step forgets zero st (Do_waited c t st)"
| step_Forget: "forgets \<Longrightarrow> sf_step forgets zero st (Forget key st)"

inductive sf_reach :: "bool \<Rightarrow> 'v \<Rightarrow> ('k, 'v) sf \<Rightarrow> bool" for forgets :: bool and zero :: 'v where
  reach_init: "sf_reach forgets zero (sf_init zero)"
| reach_step: "sf_reach forgets zero st \<Longrightarrow> sf_step forgets zero st st' \<Longrightarrow> sf_reach forgets zero st'"

subsection \<open>The invariant\<close>

text \<open>The key and the call an invocation leads.\<close>

fun lead_of :: "('k, 'v) pc \<Rightarrow> ('k \<times> nat) option" where
  "lead_of (Calling k c _) = Some (k, c)"
| "lead_of (Deferring k c _) = Some (k, c)"
| "lead_of _ = None"

definition leads :: "('k, 'v) sf \<Rightarrow> nat \<Rightarrow> 'k \<Rightarrow> nat \<Rightarrow> bool" where
  "leads st t k c \<longleftrightarrow> lead_of (pcs st t) = Some (k, c)"

definition lead_inv :: "bool \<Rightarrow> ('k, 'v) sf \<Rightarrow> bool" where
  "lead_inv forgets st \<longleftrightarrow>
     (\<forall>t k c. leads st t k c \<longrightarrow> c < next_call st \<and> wg (cells st c) = 1 \<and> (forgets \<or> m st k = Some c))
   \<and> (\<forall>t t' k k' c. leads st t k c \<longrightarrow> leads st t' k' c \<longrightarrow> t = t')
   \<and> (\<forall>c. c < next_call st \<longrightarrow> wg (cells st c) \<noteq> 0 \<longrightarrow> (\<exists>t k. leads st t k c))
   \<and> (\<forall>k c. m st k = Some c \<longrightarrow> (\<exists>t. leads st t k c))"

text \<open>What an invocation that joined or has its result can rely on.\<close>

fun pc_ok :: "('k, 'v) sf \<Rightarrow> ('k, 'v) pc \<Rightarrow> bool" where
  "pc_ok st (Waiting c) = (c < next_call st \<and> dups (cells st c) > 0)"
| "pc_ok st (DoReturned c v e sh) = (c < next_call st \<and> wg (cells st c) = 0 \<and> cerr (cells st c) = FnErr e
     \<and> cval (cells st c) = v \<and> sh = (dups (cells st c) > 0))"
| "pc_ok st (DoPanicked c p) = (c < next_call st \<and> wg (cells st c) = 0 \<and> cerr (cells st c) = PanicErr p)"
| "pc_ok st (DoExited c) = (c < next_call st \<and> wg (cells st c) = 0 \<and> cerr (cells st c) = ErrGoexit)"
| "pc_ok st (ChanReturned c ch) = (c < next_call st \<and> ch \<in> set (chans (cells st c)))"
| "pc_ok st _ = True"

definition delivered :: "'v flight \<Rightarrow> 'v result list" where
  "delivered cell = (if wg cell = 0
     then (case cerr cell of FnErr e \<Rightarrow> [\<lparr>Val = cval cell, ErrOf = e, Shared = dups cell > 0\<rparr>] | _ \<Rightarrow> [])
     else [])"

lemma delivered_running [simp]: "wg cell \<noteq> 0 \<Longrightarrow> delivered cell = []"
  by (simp add: delivered_def)

definition chan_inv :: "('k, 'v) sf \<Rightarrow> bool" where
  "chan_inv st \<longleftrightarrow>
     (\<forall>c<next_call st. distinct (chans (cells st c))
        \<and> (\<forall>ch\<in>set (chans (cells st c)). ch < next_chan st \<and> chan_q st ch = delivered (cells st c)))
   \<and> (\<forall>c<next_call st. \<forall>c'<next_call st. c \<noteq> c' \<longrightarrow> set (chans (cells st c)) \<inter> set (chans (cells st c')) = {})"

definition sf_inv :: "bool \<Rightarrow> ('k, 'v) sf \<Rightarrow> bool" where
  "sf_inv forgets st \<longleftrightarrow> lead_inv forgets st \<and> (\<forall>t. pc_ok st (pcs st t)) \<and> chan_inv st"

lemma recorded_simps [simp]:
  "m (recorded c res st) = m st" "cells (recorded c res st) = cells st" "next_call (recorded c res st) = next_call st"
  "chan_q (recorded c res st) = chan_q st" "next_chan (recorded c res st) = next_chan st"
  "pcs (recorded c res st) = pcs st" "outcomes (recorded c res st) = (outcomes st)(c := outcomes st c @ [res])"
  by (simp_all add: recorded_def)

lemma pc_ok_recorded [simp]: "pc_ok (recorded c res st) p = pc_ok st p"
  by (cases p) simp_all

lemma sf_inv_recorded [simp]: "sf_inv forgets (recorded c res st) = sf_inv forgets st"
  by (simp add: sf_inv_def lead_inv_def leads_def chan_inv_def)

text \<open>
  The call cell holds the outcome of the one execution, from the moment the function ended; before
  that there was none.
\<close>

definition agrees :: "'v flight \<Rightarrow> 'v outcome list \<Rightarrow> bool" where
  "agrees cell os \<longleftrightarrow> (\<exists>res. os = [res] \<and> (case res of
       Returns v e \<Rightarrow> cval cell = v \<and> cerr cell = FnErr e
     | Panics p \<Rightarrow> cerr cell = PanicErr p
     | Goexits \<Rightarrow> cerr cell = ErrGoexit))"


lemma lead_invD:
  assumes "lead_inv forgets st"
  shows "leads st t k c \<Longrightarrow> c < next_call st" and "leads st t k c \<Longrightarrow> wg (cells st c) = 1"
    and "leads st t k c \<Longrightarrow> \<not> forgets \<Longrightarrow> m st k = Some c"
    and "leads st t k c \<Longrightarrow> leads st t' k' c \<Longrightarrow> t = t'"
    and "c < next_call st \<Longrightarrow> wg (cells st c) \<noteq> 0 \<Longrightarrow> \<exists>t k. leads st t k c"
    and "m st k = Some c \<Longrightarrow> \<exists>t. leads st t k c"
  using assms unfolding lead_inv_def by blast+

lemma lead_invI:
  assumes "\<And>t k c. leads st t k c \<Longrightarrow> c < next_call st \<and> wg (cells st c) = 1 \<and> (forgets \<or> m st k = Some c)"
    and "\<And>t t' k k' c. leads st t k c \<Longrightarrow> leads st t' k' c \<Longrightarrow> t = t'"
    and "\<And>c. c < next_call st \<Longrightarrow> wg (cells st c) \<noteq> 0 \<Longrightarrow> \<exists>t k. leads st t k c"
    and "\<And>k c. m st k = Some c \<Longrightarrow> \<exists>t. leads st t k c"
  shows "lead_inv forgets st"
  using assms unfolding lead_inv_def by blast

text \<open>Steps that leave the leaders, the keys and the wait groups alone.\<close>

lemma lead_inv_same:
  assumes inv: "lead_inv forgets st" and "\<And>t. lead_of (pcs st' t) = lead_of (pcs st t)"
    and "m st' = m st" and "next_call st' = next_call st" and "\<And>c. wg (cells st' c) = wg (cells st c)"
  shows "lead_inv forgets st'"
  using inv assms(2-5) unfolding lead_inv_def leads_def by simp

text \<open>A new call with its leader.\<close>

lemma lead_inv_new:
  assumes inv: "lead_inv forgets st" and idle: "lead_of (pcs st l) = None" and none: "m st key = None"
    and new: "lead_of (pcs st' l) = Some (key, next_call st)"
    and others: "\<And>t. t \<noteq> l \<Longrightarrow> lead_of (pcs st' t) = lead_of (pcs st t)"
    and rest: "m st' = (m st)(key := Some (next_call st))" "next_call st' = Suc (next_call st)"
      "\<And>c. wg (cells st' c) = (if c = next_call st then 1 else wg (cells st c))"
  shows "lead_inv forgets st'"
proof (rule lead_invI)
  have L: "leads st' t k c \<longleftrightarrow> (if t = l then k = key \<and> c = next_call st else leads st t k c)" for t k c
    using new others by (auto simp: leads_def)
  note D = lead_invD [OF inv]
  show "c < next_call st' \<and> wg (cells st' c) = 1 \<and> (forgets \<or> m st' k = Some c)" if "leads st' t k c" for t k c
    using that D(1-3) [of t k c] none rest by (cases forgets) (auto simp: L split: if_splits)
  show "t = t'" if "leads st' t k c" "leads st' t' k' c" for t t' k k' c
    using that D(1) [of t k c] D(1) [of t' k' c] D(4) [of t k c t' k'] by (auto simp: L split: if_splits)
  show "\<exists>t k. leads st' t k c" if "c < next_call st'" "wg (cells st' c) \<noteq> 0" for c
  proof (cases "c = next_call st")
    case True
    then show ?thesis by (auto simp: L)
  next
    case False
    then have "c < next_call st" "wg (cells st c) \<noteq> 0" using that rest(2) rest(3) [of c] by auto
    then obtain t k where "leads st t k c" using D(5) by blast
    moreover have "t \<noteq> l" using calculation idle by (auto simp: leads_def)
    ultimately show ?thesis by (auto simp: L)
  qed
  show "\<exists>t. leads st' t k c" if "m st' k = Some c" for k c
  proof (cases "k = key")
    case True
    then show ?thesis using that rest by (auto simp: L)
  next
    case False
    then have "m st k = Some c" using that rest(1) by simp
    then obtain t where "leads st t k c" using D(6) by blast
    moreover have "t \<noteq> l" using calculation idle by (auto simp: leads_def)
    ultimately show ?thesis by (auto simp: L)
  qed
qed

text \<open>The end of a call.\<close>

lemma lead_inv_end:
  assumes inv: "lead_inv forgets st" and lead: "leads st l key c0" and gone: "lead_of (pcs st' l) = None"
    and others: "\<And>t. t \<noteq> l \<Longrightarrow> lead_of (pcs st' t) = lead_of (pcs st t)"
    and rest: "m st' = (if m st key = Some c0 then (m st)(key := None) else m st)" "next_call st' = next_call st"
      "\<And>c. wg (cells st' c) = (if c = c0 then 0 else wg (cells st c))"
  shows "lead_inv forgets st'"
proof (rule lead_invI)
  have L: "leads st' t k c \<longleftrightarrow> t \<noteq> l \<and> leads st t k c" for t k c
    using gone others by (cases "t = l") (auto simp: leads_def)
  note D = lead_invD [OF inv]
  have only: "t = l" if "leads st t k c0" for t k using D(4) [OF that lead] .
  show "c < next_call st' \<and> wg (cells st' c) = 1 \<and> (forgets \<or> m st' k = Some c)" if "leads st' t k c" for t k c
  proof -
    have h: "leads st t k c" "t \<noteq> l" using that by (auto simp: L)
    then have "c \<noteq> c0" using only by blast
    then show ?thesis using D(1-3) [OF h(1)] rest by (cases forgets) (auto split: if_splits)
  qed
  show "t = t'" if "leads st' t k c" "leads st' t' k' c" for t t' k k' c
    using that D(4) by (auto simp: L)
  show "\<exists>t k. leads st' t k c" if "c < next_call st'" "wg (cells st' c) \<noteq> 0" for c
  proof -
    have "c \<noteq> c0" using that(2) rest(3) by auto
    then have "c < next_call st" "wg (cells st c) \<noteq> 0" using that rest(2) rest(3) [of c] by auto
    then obtain t k where h: "leads st t k c" using D(5) by blast
    then have "t \<noteq> l" using \<open>c \<noteq> c0\<close> lead by (auto simp: leads_def)
    with h show ?thesis by (auto simp: L)
  qed
  show "\<exists>t. leads st' t k c" if "m st' k = Some c" for k c
  proof -
    have k: "m st k = Some c" using that rest(1) by (auto split: if_splits)
    then obtain t where h: "leads st t k c" using D(6) by blast
    have "t \<noteq> l"
    proof
      assume "t = l"
      then have "k = key" "c = c0" using h lead by (auto simp: leads_def)
      then show False using that rest(1) k by auto
    qed
    with h show ?thesis by (auto simp: L)
  qed
qed

lemma Do_enter_lead:
  assumes "lead_inv forgets st" and "pcs st t = Idle"
  shows "lead_inv forgets (Do_enter zero key t st)"
proof (cases "m st key")
  case None
  show ?thesis
    by (rule lead_inv_new [OF assms(1), of t key]) (use assms None in \<open>auto simp: Do_enter_def Let_def\<close>)
next
  case (Some c)
  show ?thesis
    by (rule lead_inv_same [OF assms(1)]) (use assms Some in \<open>auto simp: Do_enter_def\<close>)
qed

lemma DoChan_enter_lead:
  assumes "lead_inv forgets st" and "pcs st t = Idle" and "pcs st g = Idle" and "t \<noteq> g"
  shows "lead_inv forgets (DoChan_enter zero key t g st)"
proof (cases "m st key")
  case None
  show ?thesis
    by (rule lead_inv_new [OF assms(1), of g key]) (use assms None in \<open>auto simp: DoChan_enter_def Let_def\<close>)
next
  case (Some c)
  show ?thesis
    by (rule lead_inv_same [OF assms(1)]) (use assms Some in \<open>auto simp: DoChan_enter_def Let_def\<close>)
qed

lemma doCall_run_lead:
  assumes "lead_inv forgets st" and "pcs st t = Calling key c go"
  shows "lead_inv forgets (doCall_run res key c go t st)"
  by (rule lead_inv_same [OF assms(1)]) (use assms in \<open>auto simp: doCall_run_def split: outcome.split\<close>)

lemma doCall_finish_lead:
  assumes inv: "lead_inv forgets st" and pc: "pcs st t = Deferring key c go"
    and fin: "doCall_finish key c go t st = Some st'"
  shows "lead_inv forgets st'"
proof -
  have lead: "leads st t key c" using pc by (simp add: leads_def)
  have w: "wg (cells st c) = 1" using lead_invD(2) [OF inv lead] .
  show ?thesis
    by (rule lead_inv_end [OF inv lead])
      (use fin w in \<open>auto simp: doCall_finish_def Let_def split: call_err.splits option.splits if_splits\<close>)
qed

lemma Do_waited_lead:
  assumes "lead_inv forgets st" and "pcs st t = Waiting c"
  shows "lead_inv forgets (Do_waited c t st)"
  by (rule lead_inv_same [OF assms(1)]) (use assms in \<open>auto simp: Do_waited_def split: call_err.split\<close>)

lemma Forget_lead: "lead_inv True st \<Longrightarrow> lead_inv True (Forget key st)"
  unfolding lead_inv_def leads_def by (auto simp: Forget_def)

text \<open>Calls only grow until they are done, and are then left alone.\<close>

definition grows :: "('k, 'v) sf \<Rightarrow> ('k, 'v) sf \<Rightarrow> bool" where
  "grows st st' \<longleftrightarrow> next_call st \<le> next_call st' \<and> (\<forall>c<next_call st.
     (wg (cells st c) = 0 \<longrightarrow> cells st' c = cells st c)
     \<and> dups (cells st c) \<le> dups (cells st' c) \<and> set (chans (cells st c)) \<subseteq> set (chans (cells st' c)))"

lemma pc_ok_grows: "grows st st' \<Longrightarrow> pc_ok st p \<Longrightarrow> pc_ok st' p"
  by (cases p) (auto simp: grows_def intro: less_le_trans)

lemma pcs_ok_step:
  assumes "grows st st'" and "\<forall>t. pc_ok st (pcs st t)"
    and "\<And>t. pcs st' t \<noteq> pcs st t \<Longrightarrow> pc_ok st' (pcs st' t)"
  shows "\<forall>t. pc_ok st' (pcs st' t)"
  using assms(3) pc_ok_grows [OF assms(1)] assms(2) by metis

lemma registered:
  assumes "sf_inv forgets st" and "m st key = Some c"
  shows "c < next_call st" and "wg (cells st c) = 1"
proof -
  have inv: "lead_inv forgets st" using assms(1) by (simp add: sf_inv_def)
  obtain t where t: "leads st t key c" using lead_invD(6) [OF inv assms(2)] by blast
  show "c < next_call st" using lead_invD(1) [OF inv t] .
  show "wg (cells st c) = 1" using lead_invD(2) [OF inv t] .
qed

lemma Do_enter_inv:
  assumes inv: "sf_inv forgets st" and idle: "pcs st t = Idle"
  shows "sf_inv forgets (Do_enter zero key t st)"
proof -
  let ?st = "Do_enter zero key t st"
  have lead: "lead_inv forgets ?st" and pcs: "\<forall>t. pc_ok st (pcs st t)" and ch: "chan_inv st"
    using inv Do_enter_lead [OF _ idle] by (simp_all add: sf_inv_def)
  have g: "grows st ?st"
    using registered [OF inv, of key] by (auto simp: Do_enter_def Let_def grows_def split: option.split)
  have "\<forall>t. pc_ok ?st (pcs ?st t)"
    using registered [OF inv, of key]
    by (intro pcs_ok_step [OF g pcs]) (auto simp: Do_enter_def Let_def split: option.splits if_splits)
  moreover have "chan_inv ?st"
    using ch registered [OF inv, of key]
    by (auto simp: Do_enter_def Let_def chan_inv_def less_Suc_eq split: option.splits if_splits)
  ultimately show ?thesis using lead by (simp add: sf_inv_def)
qed

lemma doCall_run_inv:
  assumes inv: "sf_inv forgets st" and pc: "pcs st t = Calling key c go"
  shows "sf_inv forgets (doCall_run res key c go t st)"
proof -
  let ?st = "doCall_run res key c go t st"
  have lead: "lead_inv forgets ?st" and pcs: "\<forall>t. pc_ok st (pcs st t)" and ch: "chan_inv st"
    using inv doCall_run_lead [OF _ pc] by (simp_all add: sf_inv_def)
  have "leads st t key c" using pc by (simp add: leads_def)
  then have w: "wg (cells st c) = 1" using inv lead_invD(2) by (fastforce simp: sf_inv_def)
  have g: "grows st ?st"
    using w by (auto simp: doCall_run_def grows_def split: outcome.split)
  have "\<forall>t. pc_ok ?st (pcs ?st t)"
    by (intro pcs_ok_step [OF g pcs]) (auto simp: doCall_run_def split: if_splits)
  moreover have "chan_inv ?st"
    using ch w by (auto simp: doCall_run_def chan_inv_def split: outcome.splits if_splits)
  ultimately show ?thesis using lead by (simp add: sf_inv_def)
qed

lemma Do_waited_inv:
  assumes inv: "sf_inv forgets st" and pc: "pcs st t = Waiting c" and w: "wg (cells st c) = 0"
  shows "sf_inv forgets (Do_waited c t st)"
proof -
  let ?st = "Do_waited c t st"
  have lead: "lead_inv forgets ?st" and pcs: "\<forall>t. pc_ok st (pcs st t)" and ch: "chan_inv st"
    using inv Do_waited_lead [OF _ pc] by (simp_all add: sf_inv_def)
  have "pc_ok st (Waiting c)" using pcs pc by metis
  then have d: "c < next_call st" "0 < dups (cells st c)" by simp_all
  have g: "grows st ?st" by (simp add: Do_waited_def grows_def)
  have "\<forall>t. pc_ok ?st (pcs ?st t)"
    using d w by (intro pcs_ok_step [OF g pcs]) (auto simp: Do_waited_def split: if_splits call_err.splits)
  moreover have "chan_inv ?st" using ch by (simp add: Do_waited_def chan_inv_def)
  ultimately show ?thesis using lead by (simp add: sf_inv_def)
qed

lemma Forget_inv: "sf_inv True st \<Longrightarrow> sf_inv True (Forget key st)"
proof -
  assume inv: "sf_inv True st"
  have g: "grows st (Forget key st)" by (simp add: grows_def Forget_def)
  have "\<forall>t. pc_ok (Forget key st) (pcs (Forget key st) t)"
    using inv by (intro pcs_ok_step [OF g]) (auto simp: sf_inv_def Forget_def)
  with inv Forget_lead [of st key] show ?thesis by (simp add: sf_inv_def chan_inv_def Forget_def)
qed

lemma DoChan_enter_inv:
  assumes inv: "sf_inv forgets st" and idle: "pcs st t = Idle" "pcs st g = Idle" "t \<noteq> g"
  shows "sf_inv forgets (DoChan_enter zero key t g st)"
proof -
  let ?st = "DoChan_enter zero key t g st"
  have lead: "lead_inv forgets ?st" and pcs: "\<forall>t. pc_ok st (pcs st t)" and ch: "chan_inv st"
    using inv DoChan_enter_lead [OF _ idle] by (simp_all add: sf_inv_def)
  have gr: "grows st ?st"
    using registered [OF inv, of key] by (auto simp: DoChan_enter_def Let_def grows_def split: option.split)
  have "\<forall>t. pc_ok ?st (pcs ?st t)"
    using registered [OF inv, of key]
    by (intro pcs_ok_step [OF gr pcs]) (auto simp: DoChan_enter_def Let_def split: option.splits if_splits)
  moreover have "chan_inv ?st"
  proof (cases "m st key")
    case None
    have "next_chan st \<notin> set (chans (cells st c))" if "c < next_call st" for c
      using ch that by (auto simp: chan_inv_def)
    then show ?thesis
      using ch None by (auto simp: DoChan_enter_def Let_def chan_inv_def less_Suc_eq)
  next
    case (Some c0)
    note r = registered [OF inv Some]
    have "next_chan st \<notin> set (chans (cells st c))" if "c < next_call st" for c
      using ch that by (auto simp: chan_inv_def)
    then show ?thesis
      using ch Some r by (auto simp: DoChan_enter_def Let_def chan_inv_def less_Suc_eq)
  qed
  ultimately show ?thesis using lead by (simp add: sf_inv_def)
qed

lemma send_all_empty:
  "distinct chs \<Longrightarrow> \<forall>ch\<in>set chs. q ch = [] \<Longrightarrow>
    send_all chs r q = Some (\<lambda>ch. if ch \<in> set chs then [r] else q ch)"
proof (induction chs arbitrary: q)
  case (Cons a chs)
  then have "\<forall>ch\<in>set chs. (q(a := [r])) ch = []" by auto
  with Cons have "send_all chs r (q(a := [r])) = Some (\<lambda>ch. if ch \<in> set chs then [r] else (q(a := [r])) ch)" by simp
  moreover have "(\<lambda>ch. if ch \<in> set chs then [r] else (q(a := [r])) ch) = (\<lambda>ch. if ch \<in> set (a # chs) then [r] else q ch)"
    using Cons.prems by (auto simp: fun_eq_iff)
  ultimately show ?case using Cons.prems by simp
qed simp

text \<open>The deferred function neither blocks on a channel nor drives the wait group below zero.\<close>

lemma doCall_finish_works:
  assumes inv: "sf_inv forgets st" and pc: "pcs st t = Deferring key c go"
  shows "\<exists>st'. doCall_finish key c go t st = Some st'"
    and "doCall_finish key c go t st = Some st' \<Longrightarrow> sf_inv forgets st'"
proof -
  have l: "lead_inv forgets st" and pcs: "\<forall>t. pc_ok st (pcs st t)" and ch: "chan_inv st"
    using inv by (simp_all add: sf_inv_def)
  have "leads st t key c" using pc by (simp add: leads_def)
  then have w: "wg (cells st c) = 1" and c: "c < next_call st" using lead_invD(1,2) [OF l] by blast+
  have empty: "distinct (chans (cells st c))" "\<forall>ch\<in>set (chans (cells st c)). chan_q st ch = []"
    using ch c w by (auto simp: chan_inv_def)
  note send = send_all_empty [OF empty]
  show "\<exists>st'. doCall_finish key c go t st = Some st'"
    using w by (auto simp: doCall_finish_def Let_def send split: call_err.split)
  assume fin: "doCall_finish key c go t st = Some st'"
  define cell where "cell = (cells st c)\<lparr>wg := 0\<rparr>"
  define r where "r = \<lparr>Val = cval cell, ErrOf = (case cerr cell of FnErr e \<Rightarrow> e | _ \<Rightarrow> None), Shared = dups cell > 0\<rparr>"
  have st': "cells st' = (cells st)(c := cell)" "next_call st' = next_call st" "next_chan st' = next_chan st"
    "chan_q st' = (\<lambda>ch. if ch \<in> set (chans (cells st c)) then delivered cell else chan_q st ch)"
    using fin w empty(2)
    by (auto simp: doCall_finish_def Let_def send cell_def delivered_def fun_eq_iff split: call_err.splits if_splits)
  have others: "\<And>u. u \<noteq> t \<Longrightarrow> pcs st' u = pcs st u" and mine: "pc_ok st' (pcs st' t)"
    using fin w c by (auto simp: doCall_finish_def Let_def send split: call_err.splits if_splits)
  have gr: "grows st st'" using w by (auto simp: grows_def st' cell_def)
  have "\<forall>t. pc_ok st' (pcs st' t)" using others mine by (intro pcs_ok_step [OF gr pcs]) metis
  moreover have "chan_inv st'"
  proof -
    have d: "\<And>c'. c' < next_call st \<Longrightarrow> c' \<noteq> c \<Longrightarrow> set (chans (cells st c')) \<inter> set (chans (cells st c)) = {}"
      using ch c by (simp add: chan_inv_def)
    then have "ch \<notin> set (chans (cells st c))"
      if "c' < next_call st" "c' \<noteq> c" "ch \<in> set (chans (cells st c'))" for c' ch using that by blast
    moreover have "chans cell = chans (cells st c)" by (simp add: cell_def)
    ultimately show ?thesis using ch unfolding chan_inv_def st' by auto
  qed
  moreover have "lead_inv forgets st'" using doCall_finish_lead [OF l pc fin] .
  ultimately show "sf_inv forgets st'" by (simp add: sf_inv_def)
qed

lemma sf_step_inv [step_inv]: "sf_step forgets zero st st' \<Longrightarrow> sf_inv forgets st \<Longrightarrow> sf_inv forgets st'"
proof (induction rule: sf_step.induct)
  case (step_finish st t key c go st')
  show ?case by (rule doCall_finish_works(2) [OF step_finish(3,1,2)])
next
  case (step_Forget st key)
  then show ?case using Forget_inv by simp
qed (simp_all add: Do_enter_inv DoChan_enter_inv doCall_run_inv Do_waited_inv)

lemma agrees_cong: "cval cell' = cval cell \<Longrightarrow> cerr cell' = cerr cell \<Longrightarrow> agrees cell' os = agrees cell os"
  by (simp add: agrees_def cong: outcome.case_cong)

lemma agrees_wg [simp]: "agrees (cell\<lparr>wg := n\<rparr>) os = agrees cell os"
  by (rule agrees_cong) simp_all





lemma sf_reach_inv: "sf_reach forgets zero st \<Longrightarrow> sf_inv forgets st"
proof (induction rule: sf_reach.induct)
  case reach_init
  show ?case by (simp add: sf_inv_def lead_inv_def leads_def chan_inv_def sf_init_def)
next
  case (reach_step st st')
  show ?case by (rule sf_step_inv [OF reach_step(2,3)])
qed



text \<open>A run of two callers: the first leads and returns 7, the second is still waiting.\<close>

lemma example_flight:
  "\<exists>st :: (string, nat) sf. sf_reach False 0 st \<and> pcs st 0 = DoReturned 0 7 None True \<and> pcs st 1 = Waiting 0"
proof -
  define s1 :: "(string, nat) sf" where "s1 = Do_enter 0 ''k'' 0 (sf_init 0)"
  define s2 where "s2 = Do_enter 0 ''k'' 1 s1"
  define s3 where "s3 = recorded 0 (Returns 7 None) (doCall_run (Returns 7 None) ''k'' 0 False 0 s2)"
  have "sf_reach False 0 s1"
    unfolding s1_def by (rule reach_step [OF reach_init step_Do]) (simp add: sf_init_def)
  then have "sf_reach False 0 s2"
    unfolding s2_def by (rule reach_step [OF _ step_Do]) (simp add: s1_def Do_enter_def sf_init_def Let_def)
  then have r: "sf_reach False 0 s3"
    unfolding s3_def by (rule reach_step [OF _ step_run])
      (simp add: s2_def s1_def Do_enter_def sf_init_def Let_def)
  have p: "pcs s3 0 = Deferring ''k'' 0 False" by (simp add: s3_def doCall_run_def)
  have "cells s3 0 = \<lparr>cval = 7, cerr = FnErr None, chans = [], wg = 1, dups = 1\<rparr>" "pcs s3 1 = Waiting 0"
    by (simp_all add: s3_def s2_def s1_def doCall_run_def Do_enter_def sf_init_def Let_def)
  then have "\<exists>st'. doCall_finish ''k'' 0 False 0 s3 = Some st' \<and> pcs st' 0 = DoReturned 0 7 None True \<and> pcs st' 1 = Waiting 0"
    by (simp add: doCall_finish_def Let_def)
  then obtain s4 where "doCall_finish ''k'' 0 False 0 s3 = Some s4" "pcs s4 0 = DoReturned 0 7 None True" "pcs s4 1 = Waiting 0"
    by blast
  with reach_step [OF r step_finish [OF p]] show ?thesis by blast
qed

subsection \<open>Properties\<close>

text \<open>
  C21: one flight per key. As long as \<open>Forget\<close> is not called, no two invocations ever run the
  function for the same key at once, whatever the interleaving of \<open>Do\<close> and \<open>DoChan\<close>.
\<close>

theorem one_flight:
  assumes "sf_reach False zero st" and "leads st t k c" and "leads st t' k c'"
  shows "t = t' \<and> c = c'"
proof -
  have inv: "lead_inv False st" using sf_reach_inv [OF assms(1)] by (simp add: sf_inv_def)
  have "c = c'" using lead_invD(3) [OF inv assms(2)] lead_invD(3) [OF inv assms(3)] by simp
  with lead_invD(4) [OF inv assms(2)] assms(3) show ?thesis by blast
qed

theorem one_flight_witness:
  "{t'. lead_of (pcs (Do_enter 0 ''k'' 1 (Do_enter (0::nat) ''k'' 0 (sf_init 0))) t') = Some (''k'', 0)} = {0}"
proof -
  let ?st = "Do_enter 0 ''k'' 1 (Do_enter (0::nat) ''k'' 0 (sf_init 0))"
  have "sf_reach False 0 (Do_enter (0::nat) ''k'' 0 (sf_init 0))"
    by (rule reach_step [OF reach_init step_Do]) (simp add: sf_init_def)
  then have reach: "sf_reach False 0 ?st"
    by (rule reach_step [OF _ step_Do]) (simp add: Do_enter_def sf_init_def Let_def)
  have lead: "leads ?st 0 ''k'' 0" by (simp add: leads_def Do_enter_def sf_init_def Let_def)
  have "t' = 0" if "lead_of (pcs ?st t') = Some (''k'', 0)" for t'
    using one_flight [OF reach lead, of t' 0] that by (simp add: leads_def)
  with lead show ?thesis by (auto simp: leads_def)
qed



text \<open>
  C23: no caller waits in vain. Whoever waits for a call either finds it done, or there is an
  invocation that runs it; and the end of a call always goes through: it never blocks on a result
  channel while it holds the mutex and never drives the wait group below zero.
\<close>

theorem waiters_served:
  assumes "sf_reach forgets zero st"
  shows "(pcs st t = Waiting c \<longrightarrow> wg (cells st c) = 0 \<or> (\<exists>l k. leads st l k c))
    \<and> (pcs st t = Deferring key c go \<longrightarrow> (\<exists>st'. doCall_finish key c go t st = Some st' \<and> wg (cells st' c) = 0))"
proof -
  have inv: "sf_inv forgets st" using sf_reach_inv [OF assms] .
  then have l: "lead_inv forgets st" and p: "pc_ok st (pcs st t)" by (simp_all add: sf_inv_def)
  have "wg (cells st c) = 0 \<or> (\<exists>l k. leads st l k c)" if w: "pcs st t = Waiting c"
    using p w lead_invD(5) [OF l, of c] by auto
  moreover have "\<exists>st'. doCall_finish key c go t st = Some st' \<and> wg (cells st' c) = 0"
    if d: "pcs st t = Deferring key c go"
  proof -
    obtain st' where f: "doCall_finish key c go t st = Some st'" using doCall_finish_works(1) [OF inv d] by blast
    have "wg (cells st c) = 1" using lead_invD(2) [OF l, of t key c] d by (simp add: leads_def)
    then have "wg (cells st' c) = 0"
      using f by (auto simp: doCall_finish_def Let_def split: call_err.splits option.splits if_splits)
    with f show ?thesis by blast
  qed
  ultimately show ?thesis by blast
qed

theorem waiters_served_witness:
  "\<exists>st :: (string, nat) sf. sf_reach False 0 st \<and> pcs st 1 = Waiting 0 \<and> (wg (cells st 0) = 0 \<or> (\<exists>l k. leads st l k 0))"
proof -
  obtain st :: "(string, nat) sf" where st: "sf_reach False 0 st" "pcs st 0 = DoReturned 0 7 None True" "pcs st 1 = Waiting 0"
    using example_flight by blast
  with waiters_served [OF st(1), of 1 0] show ?thesis by blast
qed

text \<open>
  The channel \<open>DoChan\<close> returned holds nothing until its call is done; then it holds exactly one
  result, the call's, if the function returned, and stays empty for ever if it panicked or exited.
\<close>

theorem DoChan_delivers:
  assumes "sf_reach forgets zero st" and "pcs st t = ChanReturned c ch"
  shows "chan_q st ch = (if wg (cells st c) = 0
     then (case cerr (cells st c) of
         FnErr e \<Rightarrow> [\<lparr>Val = cval (cells st c), ErrOf = e, Shared = dups (cells st c) > 0\<rparr>]
       | _ \<Rightarrow> []) else [])"
proof -
  have "pc_ok st (pcs st t)" "chan_inv st" using sf_reach_inv [OF assms(1)] by (simp_all add: sf_inv_def)
  then have "chan_q st ch = delivered (cells st c)" using assms(2) by (auto simp: chan_inv_def)
  then show ?thesis by (simp add: delivered_def)
qed

theorem DoChan_delivers_witness:
  "chan_q (DoChan_enter (0::nat) ''k'' 0 1 (sf_init 0)) 0 = []"
proof -
  let ?st = "DoChan_enter (0::nat) ''k'' 0 1 (sf_init 0)"
  have "sf_reach False 0 ?st"
    by (rule reach_step [OF reach_init step_DoChan]) (simp_all add: sf_init_def)
  moreover have "pcs ?st 0 = ChanReturned 0 0" "wg (cells ?st 0) = 1"
    by (simp_all add: DoChan_enter_def sf_init_def Let_def)
  ultimately show ?thesis using DoChan_delivers [of False 0 ?st 0 0 0] by simp
qed

end
