(* ===== verification/SubHub.thy ===== *)
theory SubHub
  imports Ex "HOL-Library.Multiset"
begin

text \<open>
  \<^verbatim>\<open>threads/sub.go\<close>: topics with subscribers, each behind a channel. A Go map is iterated in an
  order the runtime picks; the order is an argument (\<open>visit\<close>). Every operation of the hub runs
  under its mutex, so it is one function. Logging in debug builds is left out.
\<close>

subsection \<open>Channels\<close>

text \<open>
  \<open>receivers\<close> counts the goroutines blocked in a receive; \<open>received\<close> is not in the code: what receivers
  have got, in its order.
\<close>

record 'v chan =
  queue :: "'v list"
  capacity :: nat
  receivers :: nat
  received :: "'v list"
  closed :: bool

text \<open>\<open>channelSubscriber.publish\<close>: a send that gives up when it would block.\<close>

definition publish :: "'v \<Rightarrow> 'v chan \<Rightarrow> 'v chan go" where
  "publish v c =
     (if closed c then Inl SendOnClosed
      else if receivers c > 0 then Inr (c\<lparr>receivers := receivers c - 1, received := received c @ [v]\<rparr>)
      else if length (queue c) < capacity c then Inr (c\<lparr>queue := queue c @ [v]\<rparr>)
      else Inr c)"

text \<open>A receive: \<open>None\<close> when it blocks, and no value when the channel is closed and drained.\<close>

definition receive :: "'v chan \<Rightarrow> ('v option \<times> 'v chan) option" where
  "receive c = (case queue c of
      v # q \<Rightarrow> Some (Some v, c\<lparr>queue := q, received := received c @ [v]\<rparr>)
    | [] \<Rightarrow> if closed c then Some (None, c) else None)"

text \<open>\<open>channelSubscriber.Unsubscribe\<close>.\<close>

definition Unsubscribe_channel :: "'v chan \<Rightarrow> 'v chan go" where
  "Unsubscribe_channel c = (if closed c then Inl CloseOfClosed else Inr (c\<lparr>closed := True\<rparr>))"

subsection \<open>The hub\<close>

text \<open>
  \<open>subscribers\<close> maps a topic to the ids of its subscribers (a missing topic and a nil map read
  alike); \<open>subs\<close> has the subscribers themselves; \<open>internalSubscriberID\<close> is the counter of the
  package, a \<open>uint64\<close>.
\<close>

record ('t, 'v) hub =
  subscribers :: "'t \<Rightarrow> 64 word list option"
  subs :: "64 word \<Rightarrow> 'v chan"
  internalSubscriberID :: "64 word"

definition newChannelSubscriber :: "int \<Rightarrow> ('t, 'v) hub \<Rightarrow> 64 word \<times> ('t, 'v) hub" where
  "newChannelSubscriber q h =
     (let i = internalSubscriberID h + 1;
          c = \<lparr>queue = [], capacity = (if q \<le> 0 then 0 else nat q), receivers = 0, received = [], closed = False\<rparr>
      in (i, h\<lparr>internalSubscriberID := i, subs := (subs h)(i := c)\<rparr>))"

definition Subscribe :: "'t \<Rightarrow> int \<Rightarrow> ('t, 'v) hub \<Rightarrow> 64 word \<times> ('t, 'v) hub" where
  "Subscribe topic maxWait h =
     (let ids = (case subscribers h topic of Some ids \<Rightarrow> ids | None \<Rightarrow> []);
          (i, h') = newChannelSubscriber maxWait h
      in (i, h'\<lparr>subscribers := (subscribers h')(topic := Some (if i \<in> set ids then ids else ids @ [i]))\<rparr>))"

definition Unsubscribe :: "'t \<Rightarrow> 64 word list \<Rightarrow> ('t, 'v) hub \<Rightarrow> ('t, 'v) hub" where
  "Unsubscribe topic ss h =
     (if subscribers h = (\<lambda>_. None) then h
      else if ss = [] then h\<lparr>subscribers := (subscribers h)(topic := None)\<rparr>
      else case subscribers h topic of
        None \<Rightarrow> h
      | Some ids \<Rightarrow>
          (if ids = [] then h
           else h\<lparr>subscribers := (subscribers h)(topic := Some (filter (\<lambda>i. i \<notin> set ss) ids))\<rparr>))"

fun publish_loop :: "64 word list \<Rightarrow> 'v \<Rightarrow> int \<Rightarrow> (64 word \<Rightarrow> 'v chan) \<Rightarrow> (int \<times> (64 word \<Rightarrow> 'v chan)) go" where
  "publish_loop [] v nn s = Inr (nn, s)"
| "publish_loop (i # is) v nn s =
     (if nn \<le> 0 then Inr (nn, s)
      else case publish v (s i) of
        Inl p \<Rightarrow> Inl p
      | Inr c \<Rightarrow> publish_loop is v (nn - 1) (s(i := c)))"

definition PublishN :: "64 word list \<Rightarrow> 't \<Rightarrow> 'v \<Rightarrow> int \<Rightarrow> ('t, 'v) hub \<Rightarrow> (int \<times> ('t, 'v) hub) go" where
  "PublishN visit topic value n h =
     (let n = (if n < 0 then max_int else n)
      in if n = 0 then Inr (0, h)
         else if subscribers h = (\<lambda>_. None) then Inr (0, h)
         else let ids = (case subscribers h topic of Some ids \<Rightarrow> ids | None \<Rightarrow> []);
                  n = min n (int (length ids))
              in case publish_loop visit value n (subs h) of
                   Inl p \<Rightarrow> Inl p
                 | Inr (nn, s) \<Rightarrow> Inr (n - nn, h\<lparr>subs := s\<rparr>))"

definition Publish :: "64 word list \<Rightarrow> 't \<Rightarrow> 'v \<Rightarrow> ('t, 'v) hub \<Rightarrow> (int \<times> ('t, 'v) hub) go" where
  "Publish visit topic value h = PublishN visit topic value (-1) h"

subsection \<open>What publishing does\<close>

definition topic_ids :: "('t, 'v) hub \<Rightarrow> 't \<Rightarrow> 64 word list" where
  "topic_ids h topic = (case subscribers h topic of Some ids \<Rightarrow> ids | None \<Rightarrow> [])"

text \<open>All a subscriber has been sent, taken or not.\<close>

definition mailbox :: "'v chan \<Rightarrow> 'v list" where
  "mailbox c = received c @ queue c"

text \<open>A receiver only blocks on an empty channel.\<close>

definition chan_ok :: "'v chan \<Rightarrow> bool" where
  "chan_ok c \<longleftrightarrow> (receivers c > 0 \<longrightarrow> queue c = []) \<and> length (queue c) \<le> capacity c"

definition accepts_now :: "'v chan \<Rightarrow> bool" where
  "accepts_now c \<longleftrightarrow> receivers c > 0 \<or> length (queue c) < capacity c"

lemma publish_open:
  assumes "\<not> closed c" and "chan_ok c"
  shows "\<exists>c'. publish v c = Inr c' \<and> mailbox c' = mailbox c @ (if accepts_now c then [v] else [])
    \<and> chan_ok c' \<and> \<not> closed c' \<and> capacity c' = capacity c"
  using assms by (auto simp: publish_def mailbox_def chan_ok_def accepts_now_def)

lemma publish_loop_open:
  "distinct is \<Longrightarrow> \<forall>i\<in>set is. \<not> closed (s i) \<and> chan_ok (s i) \<Longrightarrow> 0 \<le> nn \<Longrightarrow>
    \<exists>s'. publish_loop is v nn s = Inr (nn - min nn (int (length is)), s')
      \<and> (\<forall>i. i \<notin> set (take (nat nn) is) \<longrightarrow> s' i = s i)
      \<and> (\<forall>i\<in>set (take (nat nn) is). mailbox (s' i) = mailbox (s i) @ (if accepts_now (s i) then [v] else [])
            \<and> chan_ok (s' i) \<and> \<not> closed (s' i) \<and> capacity (s' i) = capacity (s i))"
proof (induction "is" arbitrary: nn s)
  case Nil
  then show ?case by simp
next
  case (Cons i "is")
  show ?case
  proof (cases "nn \<le> 0")
    case True
    then have "nn = 0" using Cons.prems(3) by simp
    then show ?thesis by simp
  next
    case False
    obtain c where c: "publish v (s i) = Inr c" "mailbox c = mailbox (s i) @ (if accepts_now (s i) then [v] else [])"
      "chan_ok c" "\<not> closed c" "capacity c = capacity (s i)" using publish_open [of "s i" v] Cons.prems(2) by auto
    have "\<forall>j\<in>set is. \<not> closed ((s(i := c)) j) \<and> chan_ok ((s(i := c)) j)" using Cons.prems(1,2) by auto
    moreover have "distinct is" "0 \<le> nn - 1" using Cons.prems(1) False by simp_all
    ultimately obtain s' where
      s': "publish_loop is v (nn - 1) (s(i := c)) = Inr (nn - 1 - min (nn - 1) (int (length is)), s')"
      "\<forall>j. j \<notin> set (take (nat (nn - 1)) is) \<longrightarrow> s' j = (s(i := c)) j"
      "\<forall>j\<in>set (take (nat (nn - 1)) is). mailbox (s' j) = mailbox ((s(i := c)) j) @ (if accepts_now ((s(i := c)) j) then [v] else [])
            \<and> chan_ok (s' j) \<and> \<not> closed (s' j) \<and> capacity (s' j) = capacity ((s(i := c)) j)"
      using Cons.IH [of "s(i := c)" "nn - 1"] by blast
    have tk: "take (nat nn) (i # is) = i # take (nat (nn - 1)) is"
      using False by (simp add: take_Cons' nat_diff_distrib)
    have ni: "i \<notin> set (take (nat (nn - 1)) is)" using Cons.prems(1) by (auto dest: in_set_takeD)
    have "s' i = c" using s'(2) ni by simp
    moreover have "j \<noteq> i" if "j \<in> set (take (nat (nn - 1)) is)" for j using ni that by blast
    moreover have "publish_loop (i # is) v nn s = Inr (nn - min nn (int (length (i # is))), s')"
      using False c(1) s'(1) by simp
    ultimately show ?thesis using s'(2,3) c unfolding tk by auto
  qed
qed

lemma publish_loop_closed:
  "i \<in> set is \<Longrightarrow> closed (s i) \<Longrightarrow> distinct is \<Longrightarrow> int (length is) \<le> nn \<Longrightarrow>
    publish_loop is v nn s = Inl SendOnClosed"
proof (induction "is" arbitrary: nn s)
  case Nil
  then show ?case by simp
next
  case (Cons j "is")
  have pos: "\<not> nn \<le> 0" using Cons.prems(4) by auto
  show ?case
  proof (cases "closed (s j)")
    case True
    then show ?thesis using pos by (simp add: publish_def)
  next
    case False
    then obtain c where c: "publish v (s j) = Inr c"
      by (cases "receivers (s j) > 0"; cases "length (queue (s j)) < capacity (s j)") (simp_all add: publish_def)
    have "i \<noteq> j" using False Cons.prems(2) by blast
    then have "publish_loop is v (nn - 1) (s(j := c)) = Inl SendOnClosed"
      using Cons.prems by (intro Cons.IH) auto
    with pos c show ?thesis by simp
  qed
qed

lemma publish_loop_take: "0 \<le> nn \<Longrightarrow> publish_loop is v nn s = publish_loop (take (nat nn) is) v nn s"
proof (induction "is" arbitrary: nn s)
  case (Cons i "is")
  show ?case
  proof (cases "nn \<le> 0")
    case True
    then show ?thesis using Cons.prems by simp
  next
    case False
    then have "take (nat nn) (i # is) = i # take (nat (nn - 1)) is" by (simp add: take_Cons' nat_diff_distrib)
    with False Cons.IH [of "nn - 1"] show ?thesis by (simp split: sum.split)
  qed
qed simp

text \<open>The hub's invariant: each topic lists a subscriber once, and no registered channel is closed.\<close>

definition hub_ok :: "('t, 'v) hub \<Rightarrow> bool" where
  "hub_ok h \<longleftrightarrow> (\<forall>topic. distinct (topic_ids h topic)
     \<and> (\<forall>i\<in>set (topic_ids h topic). \<not> closed (subs h i) \<and> chan_ok (subs h i)))"

text \<open>The counter has not wrapped: every registered id is one it has handed out.\<close>

definition ids_issued :: "('t, 'v) hub \<Rightarrow> bool" where
  "ids_issued h \<longleftrightarrow> internalSubscriberID h \<noteq> - 1
     \<and> (\<forall>topic. \<forall>i\<in>set (topic_ids h topic). i \<le> internalSubscriberID h)"

lemma unat_inc: "(n :: 64 word) \<noteq> - 1 \<Longrightarrow> unat (n + 1) = Suc (unat n)"
  using unatSuc [of n] eq_neg_iff_add_eq_0 [of n 1] by (simp add: add.commute)

lemma word_inc_fresh: "(i :: 64 word) \<le> n \<Longrightarrow> n \<noteq> - 1 \<Longrightarrow> i \<noteq> n + 1"
  using unat_inc [of n] by (auto simp: word_le_nat_alt)

lemma word_le_inc: "(i :: 64 word) \<le> n \<Longrightarrow> n \<noteq> - 1 \<Longrightarrow> i \<le> n + 1"
  using unat_inc [of n] by (simp add: word_le_nat_alt)

lemma Subscribe_new:
  assumes "ids_issued h"
  obtains h' where "Subscribe topic q h = (internalSubscriberID h + 1, h')"
    and "\<And>t. internalSubscriberID h + 1 \<notin> set (topic_ids h t)"
    and "topic_ids h' = (\<lambda>t. if t = topic then topic_ids h topic @ [internalSubscriberID h + 1] else topic_ids h t)"
    and "subs h' = (subs h)(internalSubscriberID h + 1 :=
          \<lparr>queue = [], capacity = (if q \<le> 0 then 0 else nat q), receivers = 0, received = [], closed = False\<rparr>)"
    and "internalSubscriberID h' = internalSubscriberID h + 1"
proof -
  have new: "internalSubscriberID h + 1 \<notin> set (topic_ids h t)" for t
    using assms word_inc_fresh [of _ "internalSubscriberID h"] unfolding ids_issued_def by blast
  then show thesis using new [of topic] that [of "snd (Subscribe topic q h)"]
    by (auto simp: Subscribe_def newChannelSubscriber_def Let_def topic_ids_def fun_eq_iff split: option.splits)
qed

lemma Unsubscribe_topics: "topic_ids (Unsubscribe topic ss h) = (\<lambda>t. if t = topic
    then (if ss = [] then [] else filter (\<lambda>i. i \<notin> set ss) (topic_ids h topic)) else topic_ids h t)"
  by (auto simp: Unsubscribe_def topic_ids_def fun_eq_iff split: option.splits)

lemma Unsubscribe_chans [simp]: "subs (Unsubscribe topic ss h) = subs h"
    "internalSubscriberID (Unsubscribe topic ss h) = internalSubscriberID h"
  by (simp_all add: Unsubscribe_def split: option.splits)

text \<open>The subscribers a publication reaches; it panics exactly when one of them has closed its channel.\<close>

definition reached_by :: "64 word list \<Rightarrow> int \<Rightarrow> 64 word set" where
  "reached_by visit n = (if n < 0 then set visit else set (take (nat n) visit))"

lemma PublishN_effect:
  assumes ids: "distinct (topic_ids h topic)" "\<forall>i\<in>set (topic_ids h topic). chan_ok (subs h i)"
    and visit: "mset visit = mset (topic_ids h topic)" and len: "int (length visit) \<le> max_int"
  shows "\<exists>i\<in>reached_by visit n. closed (subs h i) \<Longrightarrow> PublishN visit topic v n h = Inl SendOnClosed"
    and "\<forall>i\<in>reached_by visit n. \<not> closed (subs h i) \<Longrightarrow> \<exists>h'. PublishN visit topic v n h
      = Inr (if n < 0 then int (length visit) else min n (int (length visit)), h')
    \<and> subscribers h' = subscribers h \<and> internalSubscriberID h' = internalSubscriberID h
    \<and> (\<forall>i. i \<notin> reached_by visit n \<longrightarrow> subs h' i = subs h i)
    \<and> (\<forall>i\<in>reached_by visit n. mailbox (subs h' i) = mailbox (subs h i) @ (if accepts_now (subs h i) then [v] else [])
         \<and> chan_ok (subs h' i) \<and> \<not> closed (subs h' i) \<and> capacity (subs h' i) = capacity (subs h i))"
proof -
  have set: "set visit = set (topic_ids h topic)" and dist: "distinct visit" and l: "length visit = length (topic_ids h topic)"
    using visit ids(1) mset_eq_setD mset_eq_imp_distinct_iff mset_eq_length by blast+
  define n1 where "n1 = (if n < 0 then max_int else n)"
  define n2 where "n2 = min n1 (int (length visit))"
  define front where "front = take (nat n2) visit"
  have n2: "0 \<le> n2" "n2 = (if n < 0 then int (length visit) else min n (int (length visit)))"
    using len by (auto simp: n1_def n2_def)
  have tk: "set front = reached_by visit n" by (auto simp: front_def n2 min_def reached_by_def)
  have fr: "distinct front" "int (length front) = n2" "\<forall>i\<in>set front. chan_ok (subs h i)"
    using dist n2(1) set ids(2) by (auto simp: front_def n2_def dest: in_set_takeD)
  have loop: "publish_loop visit v n2 (subs h) = publish_loop front v n2 (subs h)"
    unfolding front_def by (rule publish_loop_take [OF n2(1)])
  have walk: "PublishN visit topic v n h = (case publish_loop visit v n2 (subs h) of
      Inl p \<Rightarrow> Inl p | Inr (nn, s) \<Rightarrow> Inr (n2 - nn, h\<lparr>subs := s\<rparr>))"
    if "n1 \<noteq> 0" "subscribers h \<noteq> (\<lambda>_. None)"
    using that unfolding n2_def l by (simp add: PublishN_def Let_def n1_def [symmetric] topic_ids_def [symmetric])
  have idle: "n2 = 0" "PublishN visit topic v n h = Inr (0, h)" if "n1 = 0 \<or> subscribers h = (\<lambda>_. None)"
  proof -
    have "topic_ids h topic = []" if "subscribers h = (\<lambda>_. None)" using that by (simp add: topic_ids_def)
    moreover have "0 \<le> n1" by (simp add: n1_def)
    ultimately show "n2 = 0" using that l by (auto simp: n2_def)
    show "PublishN visit topic v n h = Inr (0, h)" using that by (auto simp: PublishN_def n1_def Let_def split: if_splits)
  qed
  show "PublishN visit topic v n h = Inl SendOnClosed" if closed: "\<exists>i\<in>reached_by visit n. closed (subs h i)"
  proof -
    obtain i where i: "i \<in> set front" "closed (subs h i)" using closed tk by blast
    then have "publish_loop front v n2 (subs h) = Inl SendOnClosed" using fr by (intro publish_loop_closed) simp_all
    moreover have "n2 \<noteq> 0" using i(1) fr(2) by auto
    ultimately show ?thesis using idle(1) walk loop by (cases "n1 = 0 \<or> subscribers h = (\<lambda>_. None)") auto
  qed
  assume opened: "\<forall>i\<in>reached_by visit n. \<not> closed (subs h i)"
  have "\<forall>i\<in>set front. \<not> closed (subs h i) \<and> chan_ok (subs h i)" using opened fr(3) tk by simp
  from publish_loop_open [OF fr(1) this n2(1), of v] obtain s' where s': "publish_loop front v n2 (subs h) = Inr (0, s')"
    "\<forall>i. i \<notin> set front \<longrightarrow> s' i = subs h i"
    "\<forall>i\<in>set front. mailbox (s' i) = mailbox (subs h i) @ (if accepts_now (subs h i) then [v] else [])
        \<and> chan_ok (s' i) \<and> \<not> closed (s' i) \<and> capacity (s' i) = capacity (subs h i)"
    using fr(2) by auto
  show "\<exists>h'. PublishN visit topic v n h = Inr (if n < 0 then int (length visit) else min n (int (length visit)), h')
    \<and> subscribers h' = subscribers h \<and> internalSubscriberID h' = internalSubscriberID h
    \<and> (\<forall>i. i \<notin> reached_by visit n \<longrightarrow> subs h' i = subs h i)
    \<and> (\<forall>i\<in>reached_by visit n. mailbox (subs h' i) = mailbox (subs h i) @ (if accepts_now (subs h i) then [v] else [])
         \<and> chan_ok (subs h' i) \<and> \<not> closed (subs h' i) \<and> capacity (subs h' i) = capacity (subs h i))"
  proof (cases "n1 = 0 \<or> subscribers h = (\<lambda>_. None)")
    case True
    have "front = []" using idle(1) [OF True] by (simp add: front_def)
    then have "reached_by visit n = {}" using tk by simp
    with idle [OF True] show ?thesis unfolding n2(2) [symmetric] by simp
  next
    case False
    then have "PublishN visit topic v n h = Inr (n2, h\<lparr>subs := s'\<rparr>)" using walk loop s'(1) by simp
    then show ?thesis using s'(2,3) unfolding n2(2) [symmetric] tk [symmetric] by simp
  qed
qed

lemma PublishN_works:
  assumes ok: "hub_ok h" and visit: "mset visit = mset (topic_ids h topic)"
    and len: "int (length visit) \<le> max_int"
  shows "\<exists>h'. PublishN visit topic v n h
      = Inr (if n < 0 then int (length visit) else min n (int (length visit)), h')
    \<and> subscribers h' = subscribers h \<and> internalSubscriberID h' = internalSubscriberID h
    \<and> (let reached = (if n < 0 then set visit else set (take (nat n) visit))
       in (\<forall>i. i \<notin> reached \<longrightarrow> subs h' i = subs h i)
        \<and> (\<forall>i\<in>reached. mailbox (subs h' i) = mailbox (subs h i) @ (if accepts_now (subs h i) then [v] else [])
             \<and> chan_ok (subs h' i) \<and> \<not> closed (subs h' i) \<and> capacity (subs h' i) = capacity (subs h i)))"
proof -
  have ids: "distinct (topic_ids h topic)" "\<forall>i\<in>set (topic_ids h topic). chan_ok (subs h i)"
    "\<forall>i\<in>set (topic_ids h topic). \<not> closed (subs h i)" using ok by (simp_all add: hub_ok_def)
  have "reached_by visit n \<subseteq> set (topic_ids h topic)"
    using mset_eq_setD [OF visit] by (auto simp: reached_by_def dest: in_set_takeD)
  then have "\<forall>i\<in>reached_by visit n. \<not> closed (subs h i)" using ids(3) by blast
  from PublishN_effect(2) [OF ids(1,2) visit len this, of v]
  show ?thesis unfolding reached_by_def Let_def .
qed

lemma Publish_closed:
  assumes "distinct (topic_ids h topic)" and "i \<in> set (topic_ids h topic)" and "mset visit = mset (topic_ids h topic)"
    and "int (length visit) \<le> max_int" and "closed (subs h i)"
  shows "Publish visit topic v h = Inl SendOnClosed"
proof -
  have set: "set visit = set (topic_ids h topic)" and dist: "distinct visit" and l: "length visit = length (topic_ids h topic)"
    using assms(1,3) mset_eq_setD mset_eq_imp_distinct_iff mset_eq_length by blast+
  have ne: "subscribers h \<noteq> (\<lambda>_. None)" using assms(2) by (auto simp: topic_ids_def)
  have "publish_loop visit v (int (length visit)) (subs h) = Inl SendOnClosed"
    using assms(2,5) dist set by (intro publish_loop_closed [of i]) auto
  moreover have "min max_int (int (length (topic_ids h topic))) = int (length visit)" using l assms(4) by simp
  ultimately show ?thesis using ne
    by (simp add: Publish_def PublishN_def Let_def topic_ids_def [symmetric])
qed

subsection \<open>Properties\<close>

text \<open>
  C28: in whatever order the runtime walks the subscribers, \<open>PublishN\<close> neither blocks nor panics
  while no registered channel is closed; it reaches \<open>n\<close> different subscribers of the topic, or
  all of them when there are fewer or \<open>n\<close> is negative, and returns how many; each of those that can
  take a value has it appended to its mailbox once, the others lose it, and every other subscriber
  is untouched. The hub's invariant is kept.
\<close>

theorem PublishN_reaches:
  assumes "hub_ok h" and "mset visit = mset (topic_ids h topic)" and "int (length visit) \<le> max_int"
  shows "\<exists>h'. PublishN visit topic v n h
      = Inr (if n < 0 then int (length visit) else min n (int (length visit)), h')
    \<and> subscribers h' = subscribers h \<and> hub_ok h'
    \<and> (let reached = (if n < 0 then set visit else set (take (nat n) visit))
       in (\<forall>i. i \<notin> reached \<longrightarrow> subs h' i = subs h i)
        \<and> (\<forall>i\<in>reached. mailbox (subs h' i) = mailbox (subs h i) @ (if accepts_now (subs h i) then [v] else [])))"
proof -
  define reached where "reached = (if n < 0 then set visit else set (take (nat n) visit))"
  obtain h' where h': "PublishN visit topic v n h
      = Inr (if n < 0 then int (length visit) else min n (int (length visit)), h')"
    "subscribers h' = subscribers h" "\<forall>i. i \<notin> reached \<longrightarrow> subs h' i = subs h i"
    "\<forall>i\<in>reached. mailbox (subs h' i) = mailbox (subs h i) @ (if accepts_now (subs h i) then [v] else [])
        \<and> chan_ok (subs h' i) \<and> \<not> closed (subs h' i)"
    using PublishN_works [OF assms, of v n] unfolding reached_def [symmetric] Let_def by blast
  have "topic_ids h' = topic_ids h" using h'(2) by (auto simp: topic_ids_def fun_eq_iff)
  then have "hub_ok h'" using assms(1) h'(3,4) unfolding hub_ok_def by metis
  with h' show ?thesis unfolding reached_def [symmetric] Let_def by blast
qed

definition empty_hub :: "(string, nat) hub" where
  "empty_hub = \<lparr>subscribers = (\<lambda>_. None),
     subs = (\<lambda>_. \<lparr>queue = [], capacity = 0, receivers = 0, received = [], closed = False\<rparr>), internalSubscriberID = 0\<rparr>"

theorem PublishN_reaches_witness:
  "\<exists>h'. PublishN [2, 1] ''t'' 7 (- 1) (snd (Subscribe ''t'' 1 (snd (Subscribe ''t'' 3 empty_hub)))) = Inr (2, h')
    \<and> mailbox (subs h' 1) = [7]"
proof -
  let ?h = "snd (Subscribe ''t'' 1 (snd (Subscribe ''t'' 3 empty_hub)))"
  have ids: "topic_ids ?h = (\<lambda>t. if t = ''t'' then [1, 2] else [])"
    by (auto simp: Subscribe_def newChannelSubscriber_def empty_hub_def topic_ids_def Let_def)
  have chans: "subs ?h 1 = \<lparr>queue = [], capacity = 3, receivers = 0, received = [], closed = False\<rparr>"
    "subs ?h 2 = \<lparr>queue = [], capacity = 1, receivers = 0, received = [], closed = False\<rparr>"
    by (simp_all add: Subscribe_def newChannelSubscriber_def empty_hub_def Let_def)
  have "hub_ok ?h" unfolding hub_ok_def ids using chans by (simp add: chan_ok_def)
  moreover have "mset [2, 1] = mset (topic_ids ?h ''t'')" by (simp add: ids)
  ultimately obtain h' where "PublishN [2, 1] ''t'' 7 (- 1) ?h = Inr (2, h')"
    "mailbox (subs h' 1) = mailbox (subs ?h 1) @ (if accepts_now (subs ?h 1) then [7] else [])"
    using PublishN_reaches [of ?h "[2, 1]" "''t''" 7 "- 1"] by (auto simp: Let_def)
  moreover have "mailbox (subs ?h 1) = []" "accepts_now (subs ?h 1)" unfolding chans by (simp_all add: mailbox_def accepts_now_def)
  ultimately show ?thesis by auto
qed

text \<open>
  \<open>Subscribe\<close> adds one subscriber, of a new id and with an empty mailbox, to its topic and
  changes nothing else; the hub's \<open>Unsubscribe\<close> takes exactly the named subscribers out of the
  topic, or all of them when none is named; both keep the invariant.
\<close>

theorem Subscribe_Unsubscribe:
  assumes ok: "hub_ok h" and ids: "ids_issued h"
  shows "(case Subscribe topic q h of (i, h') \<Rightarrow> hub_ok h' \<and> (\<forall>t. i \<notin> set (topic_ids h t))
        \<and> topic_ids h' topic = topic_ids h topic @ [i] \<and> mailbox (subs h' i) = []
        \<and> (\<forall>t. t \<noteq> topic \<longrightarrow> topic_ids h' t = topic_ids h t) \<and> (\<forall>j. j \<noteq> i \<longrightarrow> subs h' j = subs h j))
    \<and> (case Unsubscribe topic ss h of h' \<Rightarrow> hub_ok h' \<and> subs h' = subs h
        \<and> topic_ids h' topic = (if ss = [] then [] else filter (\<lambda>i. i \<notin> set ss) (topic_ids h topic))
        \<and> (\<forall>t. t \<noteq> topic \<longrightarrow> topic_ids h' t = topic_ids h t))"
proof (rule conjI)
  define i where "i = internalSubscriberID h + 1"
  obtain h' where sub: "Subscribe topic q h = (i, h')" and new: "\<And>t. i \<notin> set (topic_ids h t)"
    and tops: "topic_ids h' = (\<lambda>t. if t = topic then topic_ids h topic @ [i] else topic_ids h t)"
    and subs: "subs h' = (subs h)(i := \<lparr>queue = [], capacity = (if q \<le> 0 then 0 else nat q), receivers = 0, received = [], closed = False\<rparr>)"
    unfolding i_def by (rule Subscribe_new [OF ids, of topic q]) blast
  have "hub_ok h'" using ok new unfolding hub_ok_def tops subs by (auto simp: chan_ok_def)
  then show "case Subscribe topic q h of (i, h') \<Rightarrow> hub_ok h' \<and> (\<forall>t. i \<notin> set (topic_ids h t))
        \<and> topic_ids h' topic = topic_ids h topic @ [i] \<and> mailbox (subs h' i) = []
        \<and> (\<forall>t. t \<noteq> topic \<longrightarrow> topic_ids h' t = topic_ids h t) \<and> (\<forall>j. j \<noteq> i \<longrightarrow> subs h' j = subs h j)"
    using new by (simp add: sub tops subs mailbox_def)
next
  have "hub_ok (Unsubscribe topic ss h)" using ok unfolding hub_ok_def Unsubscribe_topics by auto
  then show "case Unsubscribe topic ss h of h' \<Rightarrow> hub_ok h' \<and> subs h' = subs h
        \<and> topic_ids h' topic = (if ss = [] then [] else filter (\<lambda>i. i \<notin> set ss) (topic_ids h topic))
        \<and> (\<forall>t. t \<noteq> topic \<longrightarrow> topic_ids h' t = topic_ids h t)"
    by (simp add: Unsubscribe_topics)
qed

theorem Subscribe_Unsubscribe_witness:
  "fst (Subscribe ''t'' 3 empty_hub) \<notin> set (topic_ids empty_hub ''u'')"
proof -
  have "hub_ok empty_hub" "ids_issued empty_hub"
    by (simp_all add: hub_ok_def ids_issued_def empty_hub_def topic_ids_def)
  from Subscribe_Unsubscribe [OF this, of "''t''" 3 "[]"] show ?thesis by (auto split: prod.splits)
qed

text \<open>
  A subscriber's own \<open>Unsubscribe\<close> closes its channel but leaves it in the hub: from then on
  publishing to the topic panics, in whatever order the subscribers are walked.
\<close>

theorem closed_subscriber_panics:
  assumes "hub_ok h" and "i \<in> set (topic_ids h topic)" and "mset visit = mset (topic_ids h topic)"
    and "int (length visit) \<le> max_int" and "Unsubscribe_channel (subs h i) = Inr c"
  shows "Publish visit topic v (h\<lparr>subs := (subs h)(i := c)\<rparr>) = Inl SendOnClosed"
proof -
  let ?h = "h\<lparr>subs := (subs h)(i := c)\<rparr>"
  have "topic_ids ?h topic = topic_ids h topic" by (simp add: topic_ids_def)
  moreover have "closed (subs ?h i)" using assms(5) by (auto simp: Unsubscribe_channel_def split: if_splits)
  ultimately show ?thesis using assms(1-4) Publish_closed [of ?h topic i visit v] by (simp add: hub_ok_def)
qed

theorem closed_subscriber_panics_witness:
  "\<exists>c h. Unsubscribe_channel (subs h 1) = Inr c \<and> Publish [1] ''t'' (7::nat) (h\<lparr>subs := (subs h)(1 := c)\<rparr>) = Inl SendOnClosed"
proof -
  define h where "h = snd (Subscribe ''t'' 3 empty_hub)"
  have ids: "topic_ids h = (\<lambda>t. if t = ''t'' then [1] else [])"
    by (auto simp: h_def Subscribe_def newChannelSubscriber_def empty_hub_def topic_ids_def Let_def)
  have ch: "subs h 1 = \<lparr>queue = [], capacity = 3, receivers = 0, received = [], closed = False\<rparr>"
    by (simp add: h_def Subscribe_def newChannelSubscriber_def empty_hub_def Let_def)
  have "hub_ok h" unfolding hub_ok_def ids using ch by (simp add: chan_ok_def)
  moreover have "Unsubscribe_channel (subs h 1) = Inr ((subs h 1)\<lparr>closed := True\<rparr>)" by (simp add: Unsubscribe_channel_def ch)
  ultimately show ?thesis
    using closed_subscriber_panics [of h 1 "''t''" "[1]" "(subs h 1)\<lparr>closed := True\<rparr>" 7] by (auto simp: ids)
qed

end
