(* ===== verification/TaskGroup.thy ===== *)
theory TaskGroup
  imports Ex
begin

text \<open>
  \<^verbatim>\<open>threads/group.go\<close>: running a group of tasks, as a transition system of the goroutines of
  \<open>Run\<close>, the goroutine that called it, and the caller's context. A section under \<open>errorAccess\<close> is
  one step; so is each send, receive and call between two of them. What a task returns is free.
\<close>

subsection \<open>State\<close>

record group =
  names :: "string list"
  fastFail :: bool
  concurrency :: "nat option"
  cleanup :: bool

definition newGroup :: group where
  "newGroup = \<lparr>names = [], fastFail = False, concurrency = None, cleanup = False\<rparr>"

definition Append :: "string \<Rightarrow> group \<Rightarrow> group" where
  "Append name g = g\<lparr>names := names g @ [name]\<rparr>"

definition Append0 :: "group \<Rightarrow> group" where
  "Append0 g = g\<lparr>names := names g @ [[]]\<rparr>"

definition FastFail :: "group \<Rightarrow> group" where
  "FastFail g = g\<lparr>fastFail := True\<rparr>"

text \<open>Whether there is a cleanup function.\<close>

definition Cleanup :: "group \<Rightarrow> group" where
  "Cleanup g = g\<lparr>cleanup := True\<rparr>"

text \<open>A channel with \<open>n\<close> tokens in it; \<open>make\<close> panics on a negative size.\<close>

definition Concurrency :: "int \<Rightarrow> group \<Rightarrow> group go" where
  "Concurrency n g =
     (if n < 0 then Inl (PanicMsg ''makechan: size out of range'') else Inr (g\<lparr>concurrency := Some (nat n)\<rparr>))"

text \<open>
  A task goroutine: about to start, in the task, with the task's result, past the lock with the
  count at zero, about to give its token back, done.
\<close>

datatype tpc = Starting | Running | Recording "go_error option" | Finishing | Returning | Done

text \<open>Where the caller of \<open>Run\<close> is.\<close>

datatype mpc = Selecting | CleaningUp | Awaiting | Returned "go_error option"

text \<open>
  \<open>cancelCause\<close>: the cause of \<open>taskCancelContext\<close> once it is done; \<open>finished\<close>: \<open>taskContext\<close> is done;
  \<open>upstream\<close>: the error of the caller's context once that is done; \<open>tokens\<close>: what is in the queue;
  \<open>cleaned\<close>: the cleanup function has been called; \<open>upstreamErr\<close>: the local flag
  of \<open>Run\<close>; \<open>recorded\<close> is not in the code: the results the
  tasks returned, in the order they were recorded.
\<close>

record run =
  taskCount :: int
  returnError :: "go_error option"
  cancelCause :: "go_error option"
  finished :: bool
  upstream :: "go_error option"
  tokens :: nat
  cleaned :: bool
  upstreamErr :: bool
  recorded :: "(nat \<times> go_error option) list"
  tpcs :: "nat \<Rightarrow> tpc"
  main :: mpc

abbreviation taskSucceedError :: go_error where
  "taskSucceedError \<equiv> Sentinel ''threads.taskSucceedError'' ''task succeed''"

subsection \<open>The steps of the code\<close>

text \<open>Cancelling a context keeps the first cause.\<close>

definition taskCancel :: "go_error \<Rightarrow> run \<Rightarrow> run" where
  "taskCancel e r = (if cancelCause r = None then r\<lparr>cancelCause := Some e\<rparr> else r)"

definition taskFinish :: "run \<Rightarrow> run" where
  "taskFinish r = r\<lparr>finished := True\<rparr>"

text \<open>\<^verbatim>\<open>errors.Join\<close> of two errors.\<close>

definition errors_Join :: "go_error option \<Rightarrow> go_error option \<Rightarrow> go_error option" where
  "errors_Join a b = (case (a, b) of
      (None, None) \<Rightarrow> None
    | (Some x, None) \<Rightarrow> Some (JoinedError [x])
    | (None, Some y) \<Rightarrow> Some (JoinedError [y])
    | (Some x, Some y) \<Rightarrow> Some (JoinedError [x, y]))"

text \<open>
  The start of a \<open>Run\<close> whose queue is full: no earlier \<open>Run\<close> of the group still has tokens out.
\<close>

definition start_run :: "group \<Rightarrow> run" where
  "start_run g = \<lparr>taskCount = int (length (names g)), returnError = None, cancelCause = None, finished = False,
     upstream = None, tokens = (case concurrency g of Some n \<Rightarrow> n | None \<Rightarrow> 0), cleaned = False,
     upstreamErr = False, recorded = [],
     tpcs = (\<lambda>_. Starting), main = Selecting\<rparr>"

text \<open>A task that is cancelled while it waits for a token.\<close>

definition skip_task :: "nat \<Rightarrow> run \<Rightarrow> run" where
  "skip_task t r =
     (let r1 = r\<lparr>taskCount := wrap64 (taskCount r - 1), tpcs := (tpcs r)(t := Done)\<rparr>
      in if taskCount r1 = 0 then taskFinish (taskCancel taskSucceedError r1) else r1)"

text \<open>The section that records a task's result.\<close>

definition record_result :: "group \<Rightarrow> nat \<Rightarrow> go_error option \<Rightarrow> run \<Rightarrow> run" where
  "record_result g t err r =
     (let r1 = (case err of
          None \<Rightarrow> r
        | Some e \<Rightarrow>
            (let e' = (if names g ! t \<noteq> [] then WrapError (names g ! t @ '' : '' @ err_msg e) (Some e) else e);
                 r0 = r\<lparr>returnError := errors_Join (returnError r) (Some e')\<rparr>
             in if fastFail g then taskCancel e' r0 else r0));
          r2 = r1\<lparr>taskCount := wrap64 (taskCount r1 - 1), recorded := recorded r1 @ [(t, err)]\<rparr>
      in r2\<lparr>tpcs := (tpcs r2)(t := if taskCount r2 = 0 then Finishing else Returning)\<rparr>)"

definition finish_tasks :: "nat \<Rightarrow> run \<Rightarrow> run" where
  "finish_tasks t r = (let r1 = taskFinish (taskCancel taskSucceedError r) in r1\<lparr>tpcs := (tpcs r1)(t := Returning)\<rparr>)"

text \<open>What \<open>Run\<close> returns in the end.\<close>

definition Run_result :: "run \<Rightarrow> go_error option" where
  "Run_result r = (if upstreamErr r then upstream r else returnError r)"

subsection \<open>Interleaving\<close>

text \<open>
  \<open>task_end\<close> is the task function's return, with any error: task functions are taken to return and
  not to panic; when, is free.
\<close>

inductive run_step :: "group \<Rightarrow> run \<Rightarrow> run \<Rightarrow> bool" for g :: group where
  task_start: "t < length (names g) \<Longrightarrow> tpcs r t = Starting \<Longrightarrow> concurrency g = None \<Longrightarrow>
    run_step g r (r\<lparr>tpcs := (tpcs r)(t := Running)\<rparr>)"
| task_acquire: "t < length (names g) \<Longrightarrow> tpcs r t = Starting \<Longrightarrow> concurrency g = Some n \<Longrightarrow> tokens r = Suc k \<Longrightarrow>
    run_step g r (r\<lparr>tokens := k, tpcs := (tpcs r)(t := Running)\<rparr>)"
| task_skip: "t < length (names g) \<Longrightarrow> tpcs r t = Starting \<Longrightarrow> concurrency g = Some n \<Longrightarrow> cancelCause r \<noteq> None \<Longrightarrow>
    run_step g r (skip_task t r)"
| task_end: "tpcs r t = Running \<Longrightarrow> run_step g r (r\<lparr>tpcs := (tpcs r)(t := Recording err)\<rparr>)"
| task_record: "tpcs r t = Recording err \<Longrightarrow> run_step g r (record_result g t err r)"
| task_finish: "tpcs r t = Finishing \<Longrightarrow> run_step g r (finish_tasks t r)"
| task_return: "tpcs r t = Returning \<Longrightarrow> concurrency g = None \<Longrightarrow>
    run_step g r (r\<lparr>tpcs := (tpcs r)(t := Done)\<rparr>)"
| task_release: "tpcs r t = Returning \<Longrightarrow> concurrency g = Some n \<Longrightarrow> tokens r < n \<Longrightarrow>
    run_step g r (r\<lparr>tokens := Suc (tokens r), tpcs := (tpcs r)(t := Done)\<rparr>)"
| main_cancelled: "main r = Selecting \<Longrightarrow> cancelCause r \<noteq> None \<Longrightarrow> run_step g r (r\<lparr>main := CleaningUp\<rparr>)"
| main_upstream: "main r = Selecting \<Longrightarrow> upstream r = Some e \<Longrightarrow>
    run_step g r ((taskCancel e r)\<lparr>upstreamErr := True, main := CleaningUp\<rparr>)"
| main_cleanup: "main r = CleaningUp \<Longrightarrow> run_step g r (r\<lparr>cleaned := cleanup g, main := Awaiting\<rparr>)"
| main_return: "main r = Awaiting \<Longrightarrow> finished r \<Longrightarrow> run_step g r (r\<lparr>main := Returned (Run_result r)\<rparr>)"
| caller_cancels: "upstream r = None \<Longrightarrow> run_step g r (r\<lparr>upstream := Some e\<rparr>)"
| cancel_spreads: "upstream r = Some e \<Longrightarrow> run_step g r (taskCancel e r)"

inductive run_reach :: "group \<Rightarrow> run \<Rightarrow> bool" for g :: group where
  run_starts: "run_reach g (start_run g)"
| run_goes: "run_reach g r \<Longrightarrow> run_step g r r' \<Longrightarrow> run_reach g r'"

subsection \<open>The invariant\<close>

text \<open>Tasks still to be counted down, and tasks that hold a token.\<close>

fun unfinished :: "tpc \<Rightarrow> bool" where
  "unfinished Starting = True"
| "unfinished Running = True"
| "unfinished (Recording _) = True"
| "unfinished _ = False"

fun holding :: "tpc \<Rightarrow> bool" where
  "holding Starting = False"
| "holding Done = False"
| "holding _ = True"

definition those :: "(tpc \<Rightarrow> bool) \<Rightarrow> group \<Rightarrow> run \<Rightarrow> nat set" where
  "those P g r = {t. t < length (names g) \<and> P (tpcs r t)}"

definition run_inv :: "group \<Rightarrow> run \<Rightarrow> bool" where
  "run_inv g r \<longleftrightarrow> taskCount r = int (card (those unfinished g r))
     \<and> (finished r \<or> (\<exists>t. tpcs r t = Finishing) \<longrightarrow> those unfinished g r = {} \<and> 0 < length (names g))
     \<and> (\<forall>n. concurrency g = Some n \<longrightarrow> tokens r + card (those holding g r) = n)
     \<and> (\<forall>t\<ge>length (names g). tpcs r t = Starting)
     \<and> (\<forall>e. main r = Returned e \<longrightarrow> finished r)"

lemma finite_those [simp]: "finite (those P g r)"
  by (simp add: those_def)

lemma those_upd:
  assumes "t < length (names g)" and "tpcs r' = (tpcs r)(t := p)"
  shows "those P g r' = (if P p then insert t (those P g r) else those P g r - {t})"
  using assms by (auto simp: those_def)

lemma those_mem: "t < length (names g) \<Longrightarrow> t \<in> those P g r \<longleftrightarrow> P (tpcs r t)"
  by (simp add: those_def)

lemma those_cong: "tpcs r' = tpcs r \<Longrightarrow> those P g r' = those P g r"
  by (simp add: those_def)

lemma taskCancel_simps [simp]:
  "taskCount (taskCancel e r) = taskCount r" "finished (taskCancel e r) = finished r" "tokens (taskCancel e r) = tokens r"
  "tpcs (taskCancel e r) = tpcs r" "main (taskCancel e r) = main r" "returnError (taskCancel e r) = returnError r"
  "upstream (taskCancel e r) = upstream r" "recorded (taskCancel e r) = recorded r"
  by (simp_all add: taskCancel_def)

lemma card_those_upd:
  assumes "t < length (names g)" and "tpcs r' = (tpcs r)(t := p)"
  shows "int (card (those P g r')) = int (card (those P g r)) + of_bool (P p) - of_bool (P (tpcs r t))"
proof (cases "P (tpcs r t)")
  case True
  then have m: "t \<in> those P g r" using assms(1) by (simp add: those_mem)
  then have "0 < card (those P g r)" by (auto simp: card_gt_0_iff)
  with m True show ?thesis by (auto simp: those_upd [OF assms] insert_absorb)
next
  case False
  then have "t \<notin> those P g r" using assms(1) by (simp add: those_mem)
  with False show ?thesis by (auto simp: those_upd [OF assms])
qed

lemma run_invD:
  assumes "run_inv g r"
  shows "taskCount r = int (card (those unfinished g r))"
    and "finished r \<Longrightarrow> those unfinished g r = {}" and "finished r \<Longrightarrow> 0 < length (names g)"
    and "tpcs r t = Finishing \<Longrightarrow> those unfinished g r = {}"
    and "tpcs r t \<noteq> Starting \<Longrightarrow> t < length (names g)"
    and "concurrency g = Some n \<Longrightarrow> tokens r + card (those holding g r) = n"
    and "main r = Returned e \<Longrightarrow> finished r"
proof -
  show "tpcs r t \<noteq> Starting \<Longrightarrow> t < length (names g)"
    using assms not_le unfolding run_inv_def by metis
qed (use assms in \<open>auto simp: run_inv_def\<close>)

text \<open>
  A step of task \<open>t\<close>, which moves to \<open>p\<close>: what has to hold of the count, the tokens and the two
  signals.
\<close>

lemma run_inv_task:
  assumes inv: "run_inv g r" and t: "t < length (names g)" and pcs: "tpcs r' = (tpcs r)(t := p)"
    and count: "taskCount r' = taskCount r - of_bool (unfinished (tpcs r t)) + of_bool (unfinished p)"
    and signals: "finished r' \<or> p = Finishing \<Longrightarrow> \<not> finished r \<Longrightarrow> those unfinished g r \<subseteq> {t} \<and> \<not> unfinished p"
    and later: "unfinished p \<Longrightarrow> unfinished (tpcs r t)"
    and toks: "concurrency g \<noteq> None \<Longrightarrow>
      int (tokens r') = int (tokens r) + of_bool (holding (tpcs r t)) - of_bool (holding p)"
    and main: "main r' = main r" and fin: "finished r \<Longrightarrow> finished r'"
  shows "run_inv g r'"
proof -
  note c = card_those_upd [OF t pcs]
  note d = run_invD [OF inv]
  have shrink: "those unfinished g r' \<subseteq> those unfinished g r"
    using later t by (auto simp: those_upd [OF t pcs] those_mem)
  have count': "taskCount r' = int (card (those unfinished g r'))" using count d(1) c [of unfinished] by simp
  have sig: "those unfinished g r' = {} \<and> 0 < length (names g)"
    if "finished r' \<or> (\<exists>u. tpcs r' u = Finishing)"
  proof (cases "finished r \<or> (\<exists>u. tpcs r u = Finishing)")
    case True
    then have "those unfinished g r = {}" using d(2,4) by blast
    then show ?thesis using shrink t by auto
  next
    case False
    then have "finished r' \<or> p = Finishing" using that by (auto simp: pcs split: if_splits)
    then have "those unfinished g r \<subseteq> {t} \<and> \<not> unfinished p" using signals False by blast
    then show ?thesis using t by (auto simp: those_upd [OF t pcs])
  qed
  have "tokens r' + card (those holding g r') = n" if n: "concurrency g = Some n" for n
    using toks d(6) [OF n] c [of holding] n by auto
  moreover have "\<forall>u\<ge>length (names g). tpcs r' u = Starting" using inv t by (simp add: pcs run_inv_def)
  moreover have "\<forall>e. main r' = Returned e \<longrightarrow> finished r'" using d(7) main fin by metis
  ultimately show ?thesis using count' sig unfolding run_inv_def by blast
qed

text \<open>A step that moves no task.\<close>

lemma run_inv_other:
  assumes "run_inv g r" and "tpcs r' = tpcs r" and "taskCount r' = taskCount r" and "tokens r' = tokens r"
    and "finished r' = finished r" and "\<And>e. main r' = Returned e \<Longrightarrow> finished r"
  shows "run_inv g r'"
  using assms those_cong [OF assms(2)] unfolding run_inv_def by auto

lemma single_left:
  assumes "card S = 1" and "t \<in> S"
  shows "S \<subseteq> {t}"
  using assms by (auto simp: card_1_singleton_iff)

lemma count_down:
  assumes inv: "run_inv g r" and small: "int (length (names g)) \<le> max_int"
    and t: "t < length (names g)" and u: "unfinished (tpcs r t)"
  shows "wrap64 (taskCount r - 1) = taskCount r - 1"
    and "taskCount r - 1 = 0 \<Longrightarrow> those unfinished g r \<subseteq> {t}"
proof -
  have m: "t \<in> those unfinished g r" using t u by (simp add: those_mem)
  then have "0 < card (those unfinished g r)" by (auto simp: card_gt_0_iff)
  moreover have "card (those unfinished g r) \<le> length (names g)"
    using card_mono [of "{..<length (names g)}" "those unfinished g r"] by (auto simp: those_def)
  ultimately show "wrap64 (taskCount r - 1) = taskCount r - 1"
    using run_invD(1) [OF inv] small by (intro wrap64_nonneg) auto
  show "those unfinished g r \<subseteq> {t}" if "taskCount r - 1 = 0"
    using single_left [OF _ m] run_invD(1) [OF inv] that by simp
qed

lemma skip_task_inv:
  assumes inv: "run_inv g r" and small: "int (length (names g)) \<le> max_int"
    and t: "t < length (names g)" and p: "tpcs r t = Starting"
  shows "run_inv g (skip_task t r)"
proof -
  have u: "unfinished (tpcs r t)" using p by simp
  note c = count_down [OF inv small t u]
  show ?thesis
  proof (rule run_inv_task [OF inv t, of _ Done])
    show "finished (skip_task t r) \<or> Done = Finishing \<Longrightarrow> \<not> finished r \<Longrightarrow>
        those unfinished g r \<subseteq> {t} \<and> \<not> unfinished Done"
      using c by (auto simp: skip_task_def Let_def taskFinish_def split: if_splits)
  qed (use c p in \<open>auto simp: skip_task_def Let_def taskFinish_def\<close>)
qed

lemma record_result_inv:
  assumes inv: "run_inv g r" and small: "int (length (names g)) \<le> max_int" and p: "tpcs r t = Recording err"
  shows "run_inv g (record_result g t err r)"
proof -
  have t: "t < length (names g)" using run_invD(5) [OF inv] p by force
  have u: "unfinished (tpcs r t)" using p by simp
  note c = count_down [OF inv small t u]
  have r': "tpcs (record_result g t err r) = (tpcs r)(t := if taskCount r - 1 = 0 then Finishing else Returning)"
    "taskCount (record_result g t err r) = taskCount r - 1"
    "tokens (record_result g t err r) = tokens r" "finished (record_result g t err r) = finished r"
    "main (record_result g t err r) = main r"
    using c(1) by (cases err; simp add: record_result_def Let_def)+
  show ?thesis
    by (rule run_inv_task [OF inv t r'(1)]) (use c p in \<open>auto simp: r' split: if_splits\<close>)
qed

lemma run_step_inv [step_inv]:
  assumes "run_step g r r'" and "run_inv g r" and small: "int (length (names g)) \<le> max_int"
  shows "run_inv g r'"
  using assms(1,2)
proof (induction rule: run_step.induct)
  case (task_start t r)
  show ?case by (rule run_inv_task [OF task_start(4,1), of _ Running]) (use task_start in auto)
next
  case (task_acquire t r n k)
  show ?case by (rule run_inv_task [OF task_acquire(5,1), of _ Running]) (use task_acquire in auto)
next
  case (task_skip t r n)
  then show ?case using skip_task_inv small by blast
next
  case (task_end r t err)
  have "t < length (names g)" using run_invD(5) [OF task_end(2)] task_end(1) by force
  then show ?case by (rule run_inv_task [OF task_end(2), of _ _ "Recording err"]) (use task_end in auto)
next
  case (task_record r t err)
  then show ?case using record_result_inv small by blast
next
  case (task_finish r t)
  have t: "t < length (names g)" using run_invD(5) [OF task_finish(2)] task_finish(1) by force
  have e: "those unfinished g r = {}" using run_invD(4) [OF task_finish(2,1)] .
  show ?case
    by (rule run_inv_task [OF task_finish(2) t, of _ Returning])
      (use task_finish e in \<open>auto simp: finish_tasks_def Let_def taskFinish_def\<close>)
next
  case (task_return r t)
  have "t < length (names g)" using run_invD(5) [OF task_return(3)] task_return(1) by force
  then show ?case by (rule run_inv_task [OF task_return(3), of _ _ Done]) (use task_return in auto)
next
  case (task_release r t n)
  have "t < length (names g)" using run_invD(5) [OF task_release(4)] task_release(1) by force
  then show ?case by (rule run_inv_task [OF task_release(4), of _ _ Done]) (use task_release in auto)
next
  case (main_cancelled r)
  then show ?case by (intro run_inv_other [OF main_cancelled(3)]) auto
next
  case (main_upstream r e)
  then show ?case by (intro run_inv_other [OF main_upstream(3)]) auto
next
  case (main_cleanup r)
  then show ?case by (intro run_inv_other [OF main_cleanup(2)]) auto
next
  case (main_return r)
  then show ?case by (intro run_inv_other [OF main_return(3)]) auto
next
  case (caller_cancels r e)
  then show ?case using run_invD(7) [OF caller_cancels(2)] by (intro run_inv_other [OF caller_cancels(2)]) auto
next
  case (cancel_spreads r e)
  then show ?case using run_invD(7) [OF cancel_spreads(2)] by (intro run_inv_other [OF cancel_spreads(2)]) auto
qed

lemma run_reach_inv:
  assumes "run_reach g r" and small: "int (length (names g)) \<le> max_int"
  shows "run_inv g r"
  using assms(1)
proof (induction rule: run_reach.induct)
  case run_starts
  have "those unfinished g (start_run g) = {..<length (names g)}" "those holding g (start_run g) = {}"
    by (auto simp: those_def start_run_def)
  then show ?case by (auto simp: run_inv_def start_run_def)
next
  case (run_goes r r')
  show ?case by (rule run_step_inv [OF run_goes(2,3) small])
qed

text \<open>The collected error speaks for exactly the errors the tasks returned.\<close>

lemma errors_Is_Join: "errors_Is (errors_Join a b) x \<longleftrightarrow> errors_Is a x \<or> errors_Is b x"
  by (auto simp: errors_Join_def errors_Is_def split: option.split)

lemma errors_Join_None: "errors_Join a b = None \<longleftrightarrow> a = None \<and> b = None"
  by (auto simp: errors_Join_def split: option.split)

definition errors_collected :: "run \<Rightarrow> bool" where
  "errors_collected r \<longleftrightarrow> (\<forall>x. errors_Is (returnError r) x \<longleftrightarrow> (\<exists>e\<in>snd ` set (recorded r). errors_Is e x))
     \<and> (returnError r = None \<longleftrightarrow> (\<forall>e\<in>snd ` set (recorded r). e = None))"

lemma record_result_collects:
  assumes "errors_collected r"
  shows "errors_collected (record_result g t err r)"
proof -
  define named where "named = (case err of None \<Rightarrow> None
      | Some e \<Rightarrow> Some (if names g ! t \<noteq> [] then WrapError (names g ! t @ '' : '' @ err_msg e) (Some e) else e))"
  have n: "errors_Is named x = errors_Is err x" "named = None \<longleftrightarrow> err = None" for x
    by (auto simp: named_def errors_Is_def split: option.split)
  have "recorded (record_result g t err r) = recorded r @ [(t, err)]"
    by (cases err) (simp_all add: record_result_def Let_def)
  moreover have "returnError (record_result g t err r)
      = (if err = None then returnError r else errors_Join (returnError r) named)"
    by (cases err) (simp_all add: record_result_def Let_def named_def)
  moreover have "\<not> errors_Is None x" for x by (simp add: errors_Is_def)
  ultimately show ?thesis
    using assms n by (cases "err = None") (auto simp: errors_collected_def errors_Is_Join errors_Join_None)
qed

lemma run_reach_collects: "run_reach g r \<Longrightarrow> errors_collected r"
proof (induction rule: run_reach.induct)
  case run_starts
  then show ?case by (simp add: errors_collected_def start_run_def errors_Is_def)
next
  case (run_goes r r')
  from run_goes(2,3) show ?case
  proof (induction rule: run_step.induct)
    case (task_record r t err)
    then show ?case using record_result_collects by blast
  qed (simp_all add: errors_collected_def skip_task_def finish_tasks_def taskFinish_def Let_def)
qed

lemma run_reach_returned:
  "run_reach g r \<Longrightarrow> main r = Returned e \<Longrightarrow> int (length (names g)) \<le> max_int \<Longrightarrow>
    those unfinished g r = {}"
  using run_invD(2,7) run_reach_inv by metis

text \<open>What the caller of \<open>Run\<close> gets, and when the cleanup function has been called.\<close>

definition caller_inv :: "group \<Rightarrow> run \<Rightarrow> bool" where
  "caller_inv g r \<longleftrightarrow> (upstreamErr r \<longrightarrow> upstream r \<noteq> None)
     \<and> (\<forall>e. main r = Returned e \<longrightarrow> (upstreamErr r \<longrightarrow> e = upstream r) \<and> (\<not> upstreamErr r \<longrightarrow> e = returnError r))
     \<and> (cleaned r \<longleftrightarrow> cleanup g \<and> (\<exists>e. main r = Awaiting \<or> main r = Returned e))"

lemma cleaned_simps [simp]:
  "cleaned (taskCancel e r) = cleaned r" "cleaned (skip_task t r) = cleaned r" "cleaned (record_result g t err r) = cleaned r"
  "cleaned (finish_tasks t r) = cleaned r"
  by (auto simp: taskCancel_def skip_task_def record_result_def finish_tasks_def taskFinish_def Let_def split: option.splits)

lemma upstreamErr_simps [simp]:
  "upstreamErr (taskCancel e r) = upstreamErr r" "upstreamErr (skip_task t r) = upstreamErr r"
  "upstreamErr (record_result g t err r) = upstreamErr r" "upstreamErr (finish_tasks t r) = upstreamErr r"
  by (auto simp: taskCancel_def skip_task_def record_result_def finish_tasks_def taskFinish_def Let_def split: option.splits)

lemma run_step_caller:
  assumes "run_step g r r'" and inv: "run_inv g r" and c: "caller_inv g r"
  shows "caller_inv g r'"
  using assms
proof (induction rule: run_step.induct)
  case (task_skip t r n)
  have "main (skip_task t r) = main r" "returnError (skip_task t r) = returnError r" "upstream (skip_task t r) = upstream r"
    by (auto simp: skip_task_def taskFinish_def Let_def)
  with task_skip show ?case by (simp add: caller_inv_def)
next
  case (task_record r t err)
  have t: "t < length (names g)" using run_invD(5) [OF task_record(2), of t] task_record(1) by simp
  have "\<not> finished r" using run_invD(2) [OF task_record(2)] those_mem [OF t, of unfinished r] task_record(1) by auto
  then have "main r \<noteq> Returned e" for e using run_invD(7) [OF task_record(2)] by blast
  moreover have "main (record_result g t err r) = main r" "upstream (record_result g t err r) = upstream r"
    by (auto simp: record_result_def Let_def split: option.splits)
  ultimately show ?case using task_record(3) by (simp add: caller_inv_def)
next
  case (task_finish r t)
  have "main (finish_tasks t r) = main r" "returnError (finish_tasks t r) = returnError r" "upstream (finish_tasks t r) = upstream r"
    by (auto simp: finish_tasks_def taskFinish_def Let_def)
  with task_finish show ?case by (simp add: caller_inv_def)
next
  case (caller_cancels r e)
  then show ?case by (auto simp: caller_inv_def)
next
  case (main_return r)
  then show ?case by (auto simp: caller_inv_def Run_result_def)
qed (auto simp: caller_inv_def)

lemma run_reach_caller:
  assumes "run_reach g r" and small: "int (length (names g)) \<le> max_int"
  shows "caller_inv g r"
  using assms(1)
proof (induction rule: run_reach.induct)
  case run_starts
  show ?case by (simp add: caller_inv_def start_run_def)
next
  case (run_goes r r')
  show ?case by (rule run_step_caller [OF run_goes(2) run_reach_inv [OF run_goes(1) small] run_goes(3)])
qed

text \<open>The wait of \<open>Run\<close> and the flag it sets.\<close>

lemma main_kept:
  "main (skip_task t r) = main r" "main (record_result g t err r) = main r" "main (finish_tasks t r) = main r"
  by (auto simp: skip_task_def record_result_def finish_tasks_def taskFinish_def Let_def split: option.splits)

lemma branch_kept: "run_step g r r' \<Longrightarrow> main r \<noteq> Selecting \<Longrightarrow> upstreamErr r' = upstreamErr r"
  by (induction rule: run_step.induct) simp_all

lemma no_branch_yet: "run_reach g r \<Longrightarrow> main r = Selecting \<Longrightarrow> \<not> upstreamErr r"
proof (induction rule: run_reach.induct)
  case run_starts
  show ?case by (simp add: start_run_def)
next
  case (run_goes r r')
  from run_goes(2,3,4) show ?case by (induction rule: run_step.induct) (simp_all add: main_kept)
qed

lemma wait_branch:
  assumes "run_reach g r" and "run_step g r r'" and "main r = Selecting" and "main r' \<noteq> Selecting"
  shows "if upstreamErr r' then upstream r \<noteq> None else cancelCause r \<noteq> None"
  using assms(2,3,4) no_branch_yet [OF assms(1,3)] by (induction rule: run_step.induct) (simp_all add: main_kept)

text \<open>A run of one task to its end, for use in examples.\<close>

lemma example_run:
  "\<exists>r. run_reach (Cleanup (Append ''a'' newGroup)) r \<and> main r = Returned None"
proof -
  let ?g = "Cleanup (Append ''a'' newGroup)"
  have g: "names ?g = [''a'']" "concurrency ?g = None" "fastFail ?g = False"
    by (simp_all add: Append_def newGroup_def Cleanup_def)
  define r0 where "r0 = start_run ?g"
  define r1 where "r1 = r0\<lparr>tpcs := (tpcs r0)(0 := Running)\<rparr>"
  define r2 where "r2 = r1\<lparr>tpcs := (tpcs r1)(0 := Recording None)\<rparr>"
  define r3 where "r3 = record_result ?g 0 None r2"
  define r4 where "r4 = finish_tasks 0 r3"
  define r5 where "r5 = r4\<lparr>main := CleaningUp\<rparr>"
  define r6 where "r6 = r5\<lparr>cleaned := cleanup ?g, main := Awaiting\<rparr>"
  have a: "run_reach ?g r0" unfolding r0_def by (rule run_starts)
  have "run_reach ?g r1" unfolding r1_def
    by (rule run_goes [OF a task_start]) (simp_all add: g r0_def start_run_def)
  then have b: "run_reach ?g r2" unfolding r2_def by (rule run_goes [OF _ task_end]) (simp add: r1_def)
  have "run_reach ?g r3" unfolding r3_def by (rule run_goes [OF b task_record]) (simp add: r2_def)
  moreover have "tpcs r3 0 = Finishing" "main r3 = Selecting" "returnError r3 = None"
    by (simp_all add: r3_def r2_def r1_def r0_def record_result_def start_run_def Let_def g go_int)
  ultimately have c: "run_reach ?g r4" "main r4 = Selecting" "cancelCause r4 \<noteq> None" "finished r4" "returnError r4 = None"
    using run_goes [OF \<open>run_reach ?g r3\<close> task_finish]
    by (simp_all add: r4_def finish_tasks_def taskFinish_def taskCancel_def Let_def)
  have "run_reach ?g r5" unfolding r5_def by (rule run_goes [OF c(1) main_cancelled [OF c(2,3)]])
  then have d: "run_reach ?g r6" unfolding r6_def by (rule run_goes [OF _ main_cleanup]) (simp add: r5_def)
  have "upstreamErr r4 = False" by (simp add: r4_def r3_def r2_def r1_def r0_def start_run_def)
  then have f: "main r6 = Awaiting" "finished r6" "Run_result r6 = None" using c by (simp_all add: r6_def r5_def Run_result_def)
  from run_goes [OF d main_return [OF f(1,2)]] f(3) show ?thesis by (intro exI conjI) auto
qed

subsection \<open>Properties\<close>

text \<open>
  C24: \<open>Run\<close> does not return while a task is still to run or running: when it has returned, every
  task of the group has been counted down, and the task functions are through; the cleanup function,
  when there is one, has been called by then. Task functions are taken to return; what
  they return and when is free.
\<close>

theorem Run_waits_for_tasks:
  assumes "run_reach g r" and "int (length (names g)) \<le> max_int" and "main r = Returned e" and "t < length (names g)"
  shows "(tpcs r t = Finishing \<or> tpcs r t = Returning \<or> tpcs r t = Done) \<and> (cleaned r \<longleftrightarrow> cleanup g)"
proof -
  have "those unfinished g r = {}" using run_reach_returned assms by blast
  then have "\<not> unfinished (tpcs r t)" using assms(4) by (auto simp: those_def)
  moreover have "cleaned r \<longleftrightarrow> cleanup g" using run_reach_caller [OF assms(1,2)] assms(3) by (auto simp: caller_inv_def)
  ultimately show ?thesis by (cases "tpcs r t") auto
qed

theorem Run_waits_for_tasks_witness:
  "\<exists>r. run_reach (Cleanup (Append ''a'' newGroup)) r \<and> main r = Returned None \<and> cleaned r
    \<and> (tpcs r 0 = Finishing \<or> tpcs r 0 = Returning \<or> tpcs r 0 = Done)"
proof -
  let ?g = "Cleanup (Append ''a'' newGroup)"
  obtain r where r: "run_reach ?g r" "main r = Returned None" using example_run by blast
  have "0 < length (names ?g)" "int (length (names ?g)) \<le> max_int" "cleanup ?g"
    by (simp_all add: Append_def newGroup_def Cleanup_def)
  with Run_waits_for_tasks [OF r(1) _ r(2)] r show ?thesis by blast
qed

text \<open>
  C26: \<open>Run\<close> returns the error of the caller's context, which is not nil, if its wait took the branch of that
  context, and the error it has collected if it did not; it takes the one branch only when the
  caller's context is done, and the other only when the tasks' context is cancelled. The collected
  error is nil exactly when every recorded task result is nil, and \<^verbatim>\<open>errors.Is\<close> finds in it exactly
  what it finds in some task's error, names notwithstanding.
\<close>

theorem Run_collects_errors:
  assumes "run_reach g r" and "int (length (names g)) \<le> max_int"
  shows "(main r = Returned e \<longrightarrow> e = (if upstreamErr r then upstream r else returnError r) \<and> (upstreamErr r \<longrightarrow> e \<noteq> None))
    \<and> (run_step g r r' \<longrightarrow> main r = Selecting \<longrightarrow> main r' \<noteq> Selecting \<longrightarrow>
        (if upstreamErr r' then upstream r \<noteq> None else cancelCause r \<noteq> None))
    \<and> (run_step g r r' \<longrightarrow> main r \<noteq> Selecting \<longrightarrow> upstreamErr r' = upstreamErr r)
    \<and> (returnError r = None \<longleftrightarrow> (\<forall>e\<in>snd ` set (recorded r). e = None))
    \<and> (errors_Is (returnError r) x \<longleftrightarrow> (\<exists>e\<in>snd ` set (recorded r). errors_Is e x))"
proof (intro conjI)
  note c = run_reach_collects [OF assms(1), unfolded errors_collected_def]
  show "main r = Returned e \<longrightarrow> e = (if upstreamErr r then upstream r else returnError r) \<and> (upstreamErr r \<longrightarrow> e \<noteq> None)"
    using run_reach_caller [OF assms] by (auto simp: caller_inv_def)
  show "run_step g r r' \<longrightarrow> main r = Selecting \<longrightarrow> main r' \<noteq> Selecting \<longrightarrow>
        (if upstreamErr r' then upstream r \<noteq> None else cancelCause r \<noteq> None)"
    using wait_branch [OF assms(1)] by blast
  show "run_step g r r' \<longrightarrow> main r \<noteq> Selecting \<longrightarrow> upstreamErr r' = upstreamErr r"
    using branch_kept by blast
  show "returnError r = None \<longleftrightarrow> (\<forall>e\<in>snd ` set (recorded r). e = None)" by (rule conjunct2 [OF c])
  show "errors_Is (returnError r) x \<longleftrightarrow> (\<exists>e\<in>snd ` set (recorded r). errors_Is e x)" by (rule spec [OF conjunct1 [OF c]])
qed

theorem Run_collects_errors_witness:
  "\<exists>r. run_reach (Cleanup (Append ''a'' newGroup)) r \<and> main r = Returned None
    \<and> (returnError r = None) = (snd ` set (recorded r) \<subseteq> {None})"
proof -
  let ?g = "Cleanup (Append ''a'' newGroup)"
  obtain r where r: "run_reach ?g r" "main r = Returned None" using example_run by blast
  have "int (length (names ?g)) \<le> max_int" by (simp add: Append_def newGroup_def Cleanup_def)
  then have "returnError r = None \<longleftrightarrow> (\<forall>e\<in>snd ` set (recorded r). e = None)"
    using Run_collects_errors [OF r(1), of None r "[]"] by (simp only:)
  then have "(returnError r = None) = (snd ` set (recorded r) \<subseteq> {None})"
    by (simp only: subset_iff singleton_iff Ball_def)
  with r show ?thesis by (intro exI conjI)
qed

text \<open>
  C27: once \<open>Concurrency(n)\<close> has been called on a group, whatever was and is appended to it, at no time of a
  run are more than \<open>n\<close> of its tasks running.
\<close>

theorem Concurrency_limits:
  assumes "Concurrency n g0 = Inr g1" and "concurrency g = concurrency g1"
    and "run_reach g r" and "int (length (names g)) \<le> max_int"
  shows "int (card {t. t < length (names g) \<and> tpcs r t = Running}) \<le> n"
proof -
  have n: "concurrency g = Some (nat n)" "0 \<le> n" using assms(1,2) by (auto simp: Concurrency_def split: if_splits)
  have "{t. t < length (names g) \<and> tpcs r t = Running} \<subseteq> those holding g r" by (auto simp: those_def)
  then have "card {t. t < length (names g) \<and> tpcs r t = Running} \<le> card (those holding g r)"
    by (intro card_mono) auto
  with run_invD(6) [OF run_reach_inv [OF assms(3,4)] n(1)] n(2) show ?thesis by simp
qed

theorem Concurrency_limits_witness:
  "\<exists>g. Concurrency 2 (Append ''a'' newGroup) = Inr g
    \<and> int (card {t. t < length (names g) \<and> tpcs (start_run g) t = Running}) \<le> 2"
proof -
  let ?g = "(Append ''a'' newGroup)\<lparr>concurrency := Some 2\<rparr>"
  have c: "Concurrency 2 (Append ''a'' newGroup) = Inr ?g" by (simp add: Concurrency_def)
  have "int (card {t. t < length (names ?g) \<and> tpcs (start_run ?g) t = Running}) \<le> 2"
    by (rule Concurrency_limits [OF c refl run_starts]) (simp add: Append_def newGroup_def)
  with c show ?thesis by blast
qed

text \<open>
  A group without tasks never finishes: nobody is left to finish the task context, so \<open>Run\<close>
  does not return, not even when the caller's context is cancelled.
\<close>

theorem empty_group_hangs:
  assumes "run_reach g r" and "names g = []"
  shows "main r \<noteq> Returned e"
proof
  assume "main r = Returned e"
  then have "finished r" using run_invD(7) [OF run_reach_inv [OF assms(1)]] assms(2) by simp
  then show False using run_invD(3) [OF run_reach_inv [OF assms(1)]] assms(2) by simp
qed

theorem empty_group_hangs_witness:
  "main (start_run newGroup) \<noteq> Returned None"
  by (rule empty_group_hangs [OF run_starts]) (simp add: newGroup_def)

end
