(* ===== verification/GroupProgress.thy ===== *)
theory GroupProgress
  imports TaskGroup
begin

text \<open>
  That \<^verbatim>\<open>Group.Run\<close> comes to its end: every step of a run either changes nothing or brings the run
  nearer to its end (\<open>run_measure\<close>), and until the run has returned some step changes something.
\<close>

subsection \<open>The measure\<close>

fun task_left :: "tpc \<Rightarrow> nat" where
  "task_left Starting = 5"
| "task_left Running = 4"
| "task_left (Recording _) = 3"
| "task_left Finishing = 2"
| "task_left Returning = 1"
| "task_left Done = 0"

fun main_left :: "mpc \<Rightarrow> nat" where
  "main_left Selecting = 3"
| "main_left CleaningUp = 2"
| "main_left Awaiting = 1"
| "main_left (Returned _) = 0"

definition run_measure :: "group \<Rightarrow> run \<Rightarrow> nat" where
  "run_measure g r = (\<Sum>t<length (names g). task_left (tpcs r t)) + main_left (main r)
     + (if upstream r = None then 1 else 0) + (if cancelCause r = None then 1 else 0)"

lemma measure_task:
  assumes "t < length (names g)" and "tpcs r' = (tpcs r)(t := p)" and "task_left p < task_left (tpcs r t)"
    and "main r' = main r" and "upstream r' = upstream r" and "cancelCause r' = None \<Longrightarrow> cancelCause r = None"
  shows "run_measure g r' < run_measure g r"
proof -
  have "(\<Sum>u<length (names g). task_left (tpcs r' u)) < (\<Sum>u<length (names g). task_left (tpcs r u))"
    by (rule sum_strict_mono_ex1) (use assms(1-3) in auto)
  then show ?thesis using assms(4-6) by (auto simp: run_measure_def)
qed

lemma taskCancel_cause [simp]: "cancelCause (taskCancel e r) = (if cancelCause r = None then Some e else cancelCause r)"
  by (simp add: taskCancel_def)

lemma measure_main:
  "main_left m < main_left (main r) \<Longrightarrow> tpcs r' = tpcs r \<Longrightarrow> main r' = m \<Longrightarrow> upstream r' = upstream r \<Longrightarrow>
    (cancelCause r' = None \<Longrightarrow> cancelCause r = None) \<Longrightarrow> run_measure g r' < run_measure g r"
  by (auto simp: run_measure_def)

lemma record_result_cause:
  "cancelCause r \<noteq> None \<Longrightarrow> cancelCause (record_result g t err r) \<noteq> None"
  "tpcs (record_result g t err r) = (tpcs r)(t := if wrap64 (taskCount r - 1) = 0 then Finishing else Returning)"
  "main (record_result g t err r) = main r" "upstream (record_result g t err r) = upstream r"
  "finished (record_result g t err r) = finished r"
  by (auto simp: record_result_def Let_def split: option.splits)

lemma skip_task_cause:
  "cancelCause r \<noteq> None \<Longrightarrow> cancelCause (skip_task t r) \<noteq> None"
  "tpcs (skip_task t r) = (tpcs r)(t := Done)" "main (skip_task t r) = main r" "upstream (skip_task t r) = upstream r"
  "finished (skip_task t r) \<longleftrightarrow> finished r \<or> wrap64 (taskCount r - 1) = 0"
  by (auto simp: skip_task_def taskFinish_def Let_def)

lemma cause_kept:
  "cancelCause (record_result g t err r) = None \<Longrightarrow> cancelCause r = None"
  "cancelCause (skip_task t r) = None \<Longrightarrow> cancelCause r = None"
  using record_result_cause(1) skip_task_cause(1) by blast+

lemma run_step_measure:
  assumes "run_step g r r'" and inv: "run_inv g r"
  shows "r' = r \<or> run_measure g r' < run_measure g r"
  using assms
proof (induction rule: run_step.induct)
  case (task_start t r)
  then show ?case by (intro disjI2 measure_task [of t _ _ _ Running]) auto
next
  case (task_acquire t r n k)
  then show ?case by (intro disjI2 measure_task [of t _ _ _ Running]) auto
next
  case (task_skip t r n)
  then show ?case by (intro disjI2 measure_task [OF _ skip_task_cause(2)]) (auto simp: skip_task_cause(2-) dest: cause_kept)
next
  case (task_end r t err)
  then have "t < length (names g)" using run_invD(5) [of g r t] by simp
  with task_end show ?case by (intro disjI2 measure_task [of t _ _ _ "Recording err"]) auto
next
  case (task_record r t err)
  then have "t < length (names g)" using run_invD(5) [of g r t] by simp
  with task_record show ?case
    by (intro disjI2 measure_task [OF _ record_result_cause(2)]) (auto simp: record_result_cause(2-) dest: cause_kept)
next
  case (task_finish r t)
  then have "t < length (names g)" using run_invD(5) [of g r t] by simp
  with task_finish show ?case
    by (intro disjI2 measure_task [of t _ _ _ Returning]) (auto simp: finish_tasks_def taskFinish_def Let_def split: if_splits)
next
  case (task_return r t)
  then have "t < length (names g)" using run_invD(5) [of g r t] by simp
  with task_return show ?case by (intro disjI2 measure_task [of t _ _ _ Done]) auto
next
  case (task_release r t n)
  then have "t < length (names g)" using run_invD(5) [of g r t] by simp
  with task_release show ?case by (intro disjI2 measure_task [of t _ _ _ Done]) auto
next
  case (cancel_spreads r e)
  then show ?case by (cases "cancelCause r") (auto simp: run_measure_def taskCancel_def)
qed (auto intro!: measure_main simp: run_measure_def)

subsection \<open>No deadlock\<close>

text \<open>Somebody will finish the task context, or has; whoever does cancels the other one before.\<close>

definition end_inv :: "group \<Rightarrow> run \<Rightarrow> bool" where
  "end_inv g r \<longleftrightarrow> (those unfinished g r = {} \<and> 0 < length (names g) \<longrightarrow> finished r \<or> (\<exists>t. tpcs r t = Finishing))
     \<and> (finished r \<longrightarrow> cancelCause r \<noteq> None)"

lemma end_inv_keep:
  assumes inv: "end_inv g r" and "finished r \<Longrightarrow> finished r'" and "finished r' \<Longrightarrow> cancelCause r' \<noteq> None"
    and "those unfinished g r' = {} \<Longrightarrow> those unfinished g r = {}"
    and "\<And>t. tpcs r t = Finishing \<Longrightarrow> tpcs r' t = Finishing \<or> finished r'"
  shows "end_inv g r'"
  using assms unfolding end_inv_def by blast

lemma skip_end:
  assumes inv: "run_inv g r" and small: "int (length (names g)) \<le> max_int" and t: "t < length (names g)"
    and p: "tpcs r t = Starting" and e: "end_inv g r" and c: "cancelCause r \<noteq> None"
  shows "end_inv g (skip_task t r)"
proof -
  have u: "unfinished (tpcs r t)" using p by simp
  have m: "those unfinished g (skip_task t r) = those unfinished g r - {t}"
    by (rule trans [OF those_upd [OF t skip_task_cause(2)]]) simp
  have "card (those unfinished g r) = 1" if "those unfinished g r - {t} = {}"
  proof -
    have "those unfinished g r = {t}" using that t u those_mem [of t g unfinished r] by blast
    then show ?thesis by simp
  qed
  then have "finished (skip_task t r)" if "those unfinished g r - {t} = {}"
    using that count_down(1) [OF inv small t u] run_invD(1) [OF inv] by (simp add: skip_task_cause)
  moreover have "\<not> finished r" using run_invD(2) [OF inv] t u by (auto simp: those_def)
  ultimately show ?thesis using c unfolding end_inv_def m
    by (simp add: skip_task_cause(1))
qed

lemma record_end:
  assumes inv: "run_inv g r" and small: "int (length (names g)) \<le> max_int" and p: "tpcs r t = Recording err"
    and e: "end_inv g r"
  shows "end_inv g (record_result g t err r)" (is "end_inv g ?r")
proof -
  have t: "t < length (names g)" using run_invD(5) [OF inv] p by force
  have u: "unfinished (tpcs r t)" using p by simp
  have m: "those unfinished g ?r = those unfinished g r - {t}"
    by (rule trans [OF those_upd [OF t record_result_cause(2)]]) simp
  have "card (those unfinished g r) = 1" if "those unfinished g r - {t} = {}"
  proof -
    have "those unfinished g r = {t}" using that t u those_mem [of t g unfinished r] by blast
    then show ?thesis by simp
  qed
  then have "tpcs ?r t = Finishing" if "those unfinished g r - {t} = {}"
    using that count_down(1) [OF inv small t u] run_invD(1) [OF inv] by (simp add: record_result_cause)
  moreover have "\<not> finished r" using run_invD(2) [OF inv] t u by (auto simp: those_def)
  ultimately show ?thesis unfolding end_inv_def m
    by (simp add: record_result_cause(5)) blast
qed

lemma run_step_end:
  assumes "run_step g r r'" and "run_inv g r" and "end_inv g r" and small: "int (length (names g)) \<le> max_int"
  shows "end_inv g r'"
  using assms(1-3)
proof (induction rule: run_step.induct)
  case (task_skip t r n)
  then show ?case using skip_end small by blast
next
  case (task_record r t err)
  then show ?case using record_end small by blast
next
  case (task_finish r t)
  then show ?case by (auto simp: end_inv_def finish_tasks_def taskFinish_def Let_def)
next
  case (task_start t r)
  then have "those unfinished g (r\<lparr>tpcs := (tpcs r)(t := Running)\<rparr>) = those unfinished g r" by (auto simp: those_def)
  with task_start show ?case by (intro end_inv_keep [OF task_start(5)]) (auto simp: end_inv_def)
next
  case (task_acquire t r n k)
  then have "those unfinished g (r\<lparr>tokens := k, tpcs := (tpcs r)(t := Running)\<rparr>) = those unfinished g r" by (auto simp: those_def)
  with task_acquire show ?case by (intro end_inv_keep [OF task_acquire(6)]) (auto simp: end_inv_def)
next
  case (task_end r t err)
  then have "those unfinished g (r\<lparr>tpcs := (tpcs r)(t := Recording err)\<rparr>) = those unfinished g r" by (auto simp: those_def)
  with task_end show ?case by (intro end_inv_keep [OF task_end(3)]) (auto simp: end_inv_def)
next
  case (task_return r t)
  then have "those unfinished g (r\<lparr>tpcs := (tpcs r)(t := Done)\<rparr>) = those unfinished g r" by (auto simp: those_def)
  with task_return show ?case by (intro end_inv_keep [OF task_return(4)]) (auto simp: end_inv_def)
next
  case (task_release r t n)
  then have "those unfinished g (r\<lparr>tokens := Suc (tokens r), tpcs := (tpcs r)(t := Done)\<rparr>) = those unfinished g r"
    by (auto simp: those_def)
  with task_release show ?case by (intro end_inv_keep [OF task_release(5)]) (auto simp: end_inv_def)
qed (auto simp: end_inv_def those_def)

lemma run_reach_end:
  assumes "run_reach g r" and small: "int (length (names g)) \<le> max_int"
  shows "end_inv g r"
  using assms(1)
proof (induction rule: run_reach.induct)
  case run_starts
  have "those unfinished g (start_run g) = {..<length (names g)}" by (auto simp: those_def start_run_def)
  then show ?case by (auto simp: end_inv_def start_run_def)
next
  case (run_goes r r')
  show ?case by (rule run_step_end [OF run_goes(2) run_reach_inv [OF run_goes(1) small] run_goes(3) small])
qed

lemma task_moves:
  assumes t: "t < length (names g)" and p: "tpcs r t \<noteq> Done" and inv: "run_inv g r" and tok: "concurrency g \<noteq> Some 0"
  shows "\<exists>r'. run_step g r r' \<and> r' \<noteq> r"
proof -
  have moved: "r' \<noteq> r" if "tpcs r' u = q" "q \<noteq> tpcs r u" for r' u q using that by auto
  have holder: "\<exists>r'. run_step g r r' \<and> r' \<noteq> r" if h: "u < length (names g)" "holding (tpcs r u)" for u
  proof (cases "tpcs r u")
    case Running
    then show ?thesis using task_end [OF Running, of g None] moved [of _ u "Recording None"] by (intro exI conjI) auto
  next
    case (Recording err)
    have "tpcs (record_result g u err r) u \<noteq> tpcs r u" using Recording by (simp add: record_result_cause(2))
    then show ?thesis using task_record [OF Recording, of g] by (metis moved)
  next
    case Finishing
    have "tpcs (finish_tasks u r) u \<noteq> tpcs r u" using Finishing by (simp add: finish_tasks_def Let_def)
    then show ?thesis using task_finish [OF Finishing, of g] by (metis moved)
  next
    case Returning
    show ?thesis
    proof (cases "concurrency g")
      case None
      then show ?thesis using task_return [OF Returning None] Returning moved [of _ u Done] by (intro exI conjI) auto
    next
      case (Some n)
      have "u \<in> those holding g r" using h by (simp add: those_def)
      then have "0 < card (those holding g r)" by (auto simp: card_gt_0_iff)
      then have "tokens r < n" using run_invD(6) [OF inv Some] by simp
      from task_release [OF Returning Some this] show ?thesis using Returning moved [of _ u Done] by (intro exI conjI) auto
    qed
  qed (use h in simp_all)
  show ?thesis
  proof (cases "tpcs r t = Starting")
    case True
    show ?thesis
    proof (cases "concurrency g")
      case None
      from task_start [OF t True None] show ?thesis using True moved [of _ t Running] by (intro exI conjI) auto
    next
      case (Some n)
      show ?thesis
      proof (cases "tokens r")
        case 0
        then have "card (those holding g r) \<noteq> 0" using run_invD(6) [OF inv Some] tok Some by simp
        then have "those holding g r \<noteq> {}" by auto
        then show ?thesis using holder by (auto simp: those_def)
      next
        case (Suc k)
        from task_acquire [OF t True Some Suc] show ?thesis using True moved [of _ t Running] by (intro exI conjI) auto
      qed
    qed
  next
    case False
    then have "holding (tpcs r t)" using p by (cases "tpcs r t") simp_all
    with t show ?thesis by (rule holder)
  qed
qed

lemma main_moves:
  assumes all_done: "\<And>t. t < length (names g) \<Longrightarrow> tpcs r t = Done" and ne: "names g \<noteq> []"
    and inv: "run_inv g r" and e: "end_inv g r" and m: "\<And>err. main r \<noteq> Returned err"
  shows "\<exists>r'. run_step g r r' \<and> r' \<noteq> r"
proof -
  have "those unfinished g r = {}" using all_done by (auto simp: those_def)
  moreover have "tpcs r t \<noteq> Finishing" for t
    using all_done [of t] run_invD(5) [OF inv, of t] by (cases "t < length (names g)") auto
  ultimately have f: "finished r" "cancelCause r \<noteq> None" using e ne by (auto simp: end_inv_def)
  have moved: "r' \<noteq> r" if "main r' = q" "q \<noteq> main r" for r' q using that by auto
  show ?thesis
  proof (cases "main r")
    case Selecting
    from main_cancelled [OF Selecting f(2)] show ?thesis using Selecting moved [of _ CleaningUp] by (intro exI conjI) auto
  next
    case CleaningUp
    from main_cleanup [OF CleaningUp] show ?thesis using CleaningUp moved [of _ Awaiting] by (intro exI conjI) auto
  next
    case Awaiting
    from main_return [OF Awaiting f(1)] show ?thesis using Awaiting moved by (intro exI conjI) auto
  qed (use m in simp)
qed

lemma run_moves:
  assumes "run_reach g r" and "int (length (names g)) \<le> max_int" and "names g \<noteq> []" and "concurrency g \<noteq> Some 0"
    and "\<And>err. main r \<noteq> Returned err"
  shows "\<exists>r'. run_step g r r' \<and> r' \<noteq> r"
proof (cases "\<exists>t<length (names g). tpcs r t \<noteq> Done")
  case True
  then show ?thesis using task_moves [OF _ _ run_reach_inv [OF assms(1,2)] assms(4)] by blast
next
  case False
  then show ?thesis
    using main_moves [OF _ assms(3) run_reach_inv [OF assms(1,2)] run_reach_end [OF assms(1,2)] assms(5)] by blast
qed

lemma run_can_return:
  assumes "run_reach g r" and small: "int (length (names g)) \<le> max_int" and "names g \<noteq> []" and "concurrency g \<noteq> Some 0"
  shows "\<exists>r' err. (run_step g)\<^sup>*\<^sup>* r r' \<and> main r' = Returned err"
  using assms(1)
proof (induction "run_measure g r" arbitrary: r rule: less_induct)
  case less
  show ?case
  proof (cases "\<exists>err. main r = Returned err")
    case True
    then show ?thesis by blast
  next
    case False
    then obtain r1 where r1: "run_step g r r1" "r1 \<noteq> r" using run_moves [OF less(2) small assms(3,4)] by blast
    then have "run_measure g r1 < run_measure g r" using run_step_measure run_reach_inv [OF less(2) small] by blast
    then obtain r' err where "(run_step g)\<^sup>*\<^sup>* r1 r'" "main r' = Returned err"
      using less(1) run_goes [OF less(2) r1(1)] by blast
    then show ?thesis using r1(1) by (meson converse_rtranclp_into_rtranclp)
  qed
qed

subsection \<open>Properties\<close>

text \<open>
  C25: \<open>Run\<close> of a group with tasks, and with room for at least one of them if its concurrency is limited,
  comes to its end. From every state that it reaches it can go on to return; until it has returned
  some step changes the state; and every step that changes the state makes the measure smaller, so
  that no more than \<open>run_measure\<close> many of them remain. The task functions are taken to return, and no
  earlier \<open>Run\<close> of the group to hold tokens of its queue.
\<close>

theorem Run_returns:
  assumes "run_reach g r" and "int (length (names g)) \<le> max_int" and "names g \<noteq> []" and "concurrency g \<noteq> Some 0"
  shows "(\<exists>r' err. (run_step g)\<^sup>*\<^sup>* r r' \<and> main r' = Returned err)
    \<and> ((\<exists>err. main r = Returned err) \<or> (\<exists>r'. run_step g r r' \<and> r' \<noteq> r))
    \<and> (\<forall>r'. run_step g r r' \<longrightarrow> r' = r \<or> run_measure g r' < run_measure g r)"
  using run_can_return [OF assms] run_moves [OF assms] run_step_measure [OF _ run_reach_inv [OF assms(1,2)]] by blast

theorem Run_returns_witness:
  "\<exists>g. Concurrency 1 (Append ''a'' newGroup) = Inr g \<and> run_measure g (start_run g) = 10
    \<and> (\<exists>r' err. (run_step g)\<^sup>*\<^sup>* (start_run g) r' \<and> main r' = Returned err)"
proof -
  let ?g = "(Append ''a'' newGroup)\<lparr>concurrency := Some 1\<rparr>"
  have c: "Concurrency 1 (Append ''a'' newGroup) = Inr ?g" by (simp add: Concurrency_def)
  have g: "names ?g = [''a'']" "concurrency ?g = Some 1" by (simp_all add: Append_def newGroup_def)
  have "\<exists>r' err. (run_step ?g)\<^sup>*\<^sup>* (start_run ?g) r' \<and> main r' = Returned err"
    by (rule conjunct1 [OF Run_returns [OF run_starts]]) (simp_all add: Append_def newGroup_def)
  moreover have "run_measure ?g (start_run ?g) = 10" unfolding run_measure_def g start_run_def by simp
  ultimately show ?thesis using c by blast
qed

end
