(* ===== verification/Values.thy ===== *)
theory Values
  imports Prelude
begin

text \<open>
  \<^verbatim>\<open>values\<close> and \<^verbatim>\<open>enhancements/maplib\<close>: zero values and defaults, and helpers on maps. A Go map is
  a partial function, the nil map is \<open>None\<close>; the zero value of a type is a parameter.
\<close>

subsection \<open>zero.go\<close>

text \<open>A value as reflection sees it: its kind, and for the kinds that can be nil, whether it is.\<close>

datatype kind = Ptr | Interface | SliceKind | MapKind | ChanKind | FuncKind | OtherKind

datatype reflected = NilInterface | Reflected kind bool

definition IsNil :: "reflected \<Rightarrow> bool" where
  "IsNil v = (case v of
      NilInterface \<Rightarrow> True
    | Reflected k nl \<Rightarrow> (k = Ptr \<or> k = Interface \<or> k = SliceKind \<or> k = MapKind \<or> k = ChanKind \<or> k = FuncKind) \<and> nl)"

definition Zero :: "'a \<Rightarrow> 'a" where
  "Zero vv = vv"

definition ZeroValue :: "'a \<Rightarrow> 'a \<Rightarrow> 'a" where
  "ZeroValue vv v = Zero vv"

subsection \<open>defaults.go\<close>

definition UseDefaultNil :: "('a \<Rightarrow> reflected) \<Rightarrow> 'a \<Rightarrow> 'a \<Rightarrow> 'a" where
  "UseDefaultNil reflect real dft = (if IsNil (reflect real) then dft else real)"

definition UseDefault :: "'a \<Rightarrow> 'a \<Rightarrow> 'a \<Rightarrow> 'a" where
  "UseDefault vv real dft = (let zero = Zero vv in if zero = real then dft else real)"

definition UseDefaultIF :: "'a \<Rightarrow> 'a \<Rightarrow> ('a \<Rightarrow> bool) \<Rightarrow> 'a" where
  "UseDefaultIF real dft test = (if test real then dft else real)"

definition UseBetween :: "'a::linorder \<Rightarrow> 'a \<Rightarrow> 'a \<Rightarrow> 'a" where
  "UseBetween real mn mx = (if real < mn then mn else if real > mx then mx else real)"

lemma UseBetween_range: "mn \<le> mx \<Longrightarrow> mn \<le> UseBetween real mn mx \<and> UseBetween real mn mx \<le> mx"
  by (auto simp: UseBetween_def)

lemma UseBetween_id: "mn \<le> real \<Longrightarrow> real \<le> mx \<Longrightarrow> UseBetween real mn mx = real"
  by (auto simp: UseBetween_def)

lemma UseBetween_clamp: "mn \<le> mx \<Longrightarrow> UseBetween real mn mx = max mn (min real mx)"
  by (auto simp: UseBetween_def max_def min_def)

text \<open>With the bounds the wrong way round the lower one wins below it and the upper one above it.\<close>

lemma UseBetween_swapped: "mx < mn \<Longrightarrow> UseBetween real mn mx = (if real < mn then mn else mx)"
  by (auto simp: UseBetween_def)

subsection \<open>slice.go, func.go\<close>

definition NewSlice :: "'a list \<Rightarrow> 'a list" where
  "NewSlice vv = vv"

definition Append_Slice :: "'a list \<Rightarrow> 'a list \<Rightarrow> 'a list" where
  "Append_Slice s v = s @ v"

definition Filter_func :: "('a \<Rightarrow> bool) \<Rightarrow> 'a \<Rightarrow> bool" where
  "Filter_func f v = f v"

subsection \<open>maplib\<close>

fun IndexMap_loop :: "nat \<Rightarrow> 'e list \<Rightarrow> ('e \<Rightarrow> nat option) \<Rightarrow> ('e \<Rightarrow> nat option)" where
  "IndexMap_loop i [] ret = ret"
| "IndexMap_loop i (v # vs) ret = IndexMap_loop (Suc i) vs (ret(v := Some i))"

definition IndexMap :: "'e list \<Rightarrow> ('e \<Rightarrow> nat option)" where
  "IndexMap s = IndexMap_loop 0 s (\<lambda>_. None)"

fun FromSliceFunc_loop :: "(nat \<Rightarrow> 'e \<Rightarrow> 'k) \<Rightarrow> nat \<Rightarrow> 'e list \<Rightarrow> ('k \<Rightarrow> 'e option) \<Rightarrow> ('k \<Rightarrow> 'e option)" where
  "FromSliceFunc_loop fn i [] ret = ret"
| "FromSliceFunc_loop fn i (v # vs) ret = FromSliceFunc_loop fn (Suc i) vs (ret(fn i v := Some v))"

definition FromSliceFunc :: "'e list \<Rightarrow> (nat \<Rightarrow> 'e \<Rightarrow> 'k) \<Rightarrow> ('k \<Rightarrow> 'e option)" where
  "FromSliceFunc s fn = (if length s = 0 then (\<lambda>_. None) else FromSliceFunc_loop fn 0 s (\<lambda>_. None))"

text \<open>\<open>IndexMap\<close> maps an element to its last position.\<close>

lemma IndexMap_loop_eq:
  "IndexMap_loop i vs ret v =
    (if v \<in> set vs then Some (i + (GREATEST j. j < length vs \<and> vs ! j = v)) else ret v)"
proof (induction vs arbitrary: i ret)
  case Nil
  then show ?case by simp
next
  case (Cons x vs)
  show ?case
  proof (cases "v \<in> set vs")
    case True
    let ?P = "\<lambda>j. j < length vs \<and> vs ! j = v"
    have ex: "\<exists>j. ?P j" using True by (auto simp: in_set_conv_nth)
    have bound: "\<And>j. ?P j \<Longrightarrow> j \<le> length vs" by simp
    have "(GREATEST j. j < length (x # vs) \<and> (x # vs) ! j = v) = Suc (GREATEST j. ?P j)"
    proof (rule Greatest_equality)
      show "Suc (GREATEST j. ?P j) < length (x # vs) \<and> (x # vs) ! Suc (GREATEST j. ?P j) = v"
        using GreatestI_ex_nat [of ?P, OF ex bound] by simp
    next
      fix j assume "j < length (x # vs) \<and> (x # vs) ! j = v"
      then show "j \<le> Suc (GREATEST j. ?P j)"
        using Greatest_le_nat [of ?P _, OF _ bound] by (cases j) auto
    qed
    with True show ?thesis by (simp add: Cons.IH)
  next
    case False
    show ?thesis
    proof (cases "v = x")
      case True
      have "(GREATEST j. j < length (x # vs) \<and> (x # vs) ! j = v) = 0"
      proof (rule Greatest_equality)
        show "0 < length (x # vs) \<and> (x # vs) ! 0 = v" using True by simp
      next
        fix j assume "j < length (x # vs) \<and> (x # vs) ! j = v"
        then show "j \<le> 0" using False by (cases j) auto
      qed
      with True False show ?thesis using Cons.IH [of "Suc i" "ret(x := Some i)"]
        by (simp del: fun_upd_apply add: fun_upd_same)
    next
      case ne: False
      with False show ?thesis by (simp add: Cons.IH)
    qed
  qed
qed

definition Merge :: "('k \<Rightarrow> 'v option) option \<Rightarrow> ('k \<Rightarrow> 'v option) option \<Rightarrow> ('k \<Rightarrow> 'v option) option" where
  "Merge destination source =
     (case destination of
        None \<Rightarrow> source
      | Some d \<Rightarrow> (case source of None \<Rightarrow> destination | Some s \<Rightarrow> Some (\<lambda>k. case s k of Some v \<Rightarrow> Some v | None \<Rightarrow> d k)))"

definition Copy_map :: "('k \<Rightarrow> 'v option) option \<Rightarrow> ('k \<Rightarrow> 'v option) option" where
  "Copy_map source = (case source of None \<Rightarrow> source | Some s \<Rightarrow> Some (\<lambda>k. case s k of Some v \<Rightarrow> Some v | None \<Rightarrow> None))"

text \<open>
  \<open>Merge0\<close> and \<open>Copy0\<close> give each slice of the source an array of its own; \<open>fresh k\<close> is the array
  allocated for key \<open>k\<close>. A slice here is its array and its contents.
\<close>

definition Merge0 :: "('k \<Rightarrow> nat) \<Rightarrow> ('k \<Rightarrow> (nat \<times> 'e list) option) option \<Rightarrow> ('k \<Rightarrow> (nat \<times> 'e list) option) option
    \<Rightarrow> ('k \<Rightarrow> (nat \<times> 'e list) option) option" where
  "Merge0 fresh destination source =
     (case destination of
        None \<Rightarrow> source
      | Some d \<Rightarrow> (case source of
            None \<Rightarrow> destination
          | Some s \<Rightarrow> Some (\<lambda>k. case s k of Some (_, v) \<Rightarrow> Some (fresh k, v) | None \<Rightarrow> d k)))"

definition Copy0 :: "('k \<Rightarrow> nat) \<Rightarrow> ('k \<Rightarrow> (nat \<times> 'e list) option) option \<Rightarrow> ('k \<Rightarrow> (nat \<times> 'e list) option) option" where
  "Copy0 fresh source =
     (case source of None \<Rightarrow> source | Some s \<Rightarrow> Some (\<lambda>k. case s k of Some (_, v) \<Rightarrow> Some (fresh k, v) | None \<Rightarrow> None))"

lemma Merge_override: "Merge (Some d) (Some s) = Some (d ++ s)"
  by (auto simp: Merge_def map_add_def)

lemma Copy_map_id: "Copy_map s = s"
  by (auto simp: Copy_map_def split: option.split)

text \<open>
  \<open>Copy0\<close> shares no array with its source; \<open>Merge0\<close> does share them all when the destination is nil.
\<close>

lemma Copy0_separate:
  assumes "\<forall>k a v. s k = Some (a, v) \<longrightarrow> a \<notin> range fresh"
  shows "Copy0 fresh (Some s) = Some t \<Longrightarrow> t k = Some (a, v) \<Longrightarrow> s k' \<noteq> Some (a, v')"
  using assms by (auto simp: Copy0_def split: option.splits) (metis rangeI)

lemma Merge0_nil_shares: "Merge0 fresh None (Some s) = Some s"
  by (simp add: Merge0_def)

subsection \<open>Sets\<close>

type_synonym 'k goset = "'k \<Rightarrow> bool option"

definition NewSet :: "'k goset" where
  "NewSet = (\<lambda>_. None)"

definition Add :: "'k \<Rightarrow> 'k goset \<Rightarrow> 'k goset" where
  "Add k s = s(k := Some True)"

definition Del :: "'k \<Rightarrow> 'k goset \<Rightarrow> 'k goset" where
  "Del k s = s(k := None)"

definition Contains :: "'k goset \<Rightarrow> 'k \<Rightarrow> bool" where
  "Contains s k = (s k \<noteq> None)"

definition NewSetFromSlice :: "'k list \<Rightarrow> 'k goset" where
  "NewSetFromSlice s = foldl (\<lambda>set k. Add k set) NewSet s"

fun ContainAll_loop :: "'k goset \<Rightarrow> 'k list \<Rightarrow> bool \<Rightarrow> bool" where
  "ContainAll_loop s [] contain = contain"
| "ContainAll_loop s (k # ks) contain = (if contain then ContainAll_loop s ks (Contains s k) else contain)"

definition ContainAll :: "'k goset \<Rightarrow> 'k list \<Rightarrow> bool" where
  "ContainAll s ks = ContainAll_loop s ks True"

definition Contain :: "('k \<Rightarrow> 'v option) option \<Rightarrow> 'k \<Rightarrow> bool" where
  "Contain m k = (case m of None \<Rightarrow> False | Some f \<Rightarrow> f k \<noteq> None)"

lemma Contains_Add [simp]: "Contains (Add k s) j \<longleftrightarrow> j = k \<or> Contains s j"
  by (auto simp: Contains_def Add_def)

lemma Contains_Del [simp]: "Contains (Del k s) j \<longleftrightarrow> j \<noteq> k \<and> Contains s j"
  by (simp add: Contains_def Del_def)

lemma Contains_foldl: "Contains (foldl (\<lambda>set k. Add k set) s ks) j \<longleftrightarrow> j \<in> set ks \<or> Contains s j"
  by (induction ks arbitrary: s) auto

lemma Contains_NewSetFromSlice: "Contains (NewSetFromSlice ks) j \<longleftrightarrow> j \<in> set ks"
  by (simp add: NewSetFromSlice_def Contains_foldl) (simp add: Contains_def NewSet_def)

lemma ContainAll_loop_False [simp]: "\<not> ContainAll_loop s ks False"
  by (cases ks) auto

lemma ContainAll_loop_eq: "ContainAll_loop s ks True \<longleftrightarrow> (\<forall>k\<in>set ks. Contains s k)"
proof (induction ks)
  case (Cons k ks)
  then show ?case by (cases "Contains s k") auto
qed simp

lemma ContainAll_eq: "ContainAll s ks \<longleftrightarrow> (\<forall>k\<in>set ks. Contains s k)"
  by (simp add: ContainAll_def ContainAll_loop_eq)

text \<open>
  The map and set helpers. \<open>IndexMap\<close> gives each element its last index; \<open>Merge\<close> into a map that
  is not nil is the source overriding the destination, key by key; a set made from a slice has the
  slice's elements, and \<open>ContainAll\<close> is the subset test in spite of its early stop.
\<close>

theorem maplib_correct:
  "IndexMap s x = (if x \<in> set s then Some (GREATEST j. j < length s \<and> s ! j = x) else None)
    \<and> Merge (Some d) (Some m) = Some (d ++ m)
    \<and> (ContainAll (NewSetFromSlice s) t \<longleftrightarrow> set t \<subseteq> set s)"
  by (auto simp: IndexMap_def IndexMap_loop_eq Merge_override ContainAll_eq Contains_NewSetFromSlice)

end
