(* ===== verification/Registry.thy ===== *)
theory Registry
  imports Ex
begin

text \<open>
  \<^verbatim>\<open>registry/context.go\<close>: services kept in a context by type, and \<^verbatim>\<open>services/inf.go\<close>: the start and
  close sequences of a service. Every operation of a registry runs under its lock, so it is one
  function.
\<close>

subsection \<open>Types, dynamic values, contexts\<close>

text \<open>
  A type parameter is a concrete type or an interface; a value stored in an \<open>any\<close> has its dynamic type
  beside it. \<open>implements d i\<close>: the type \<open>d\<close> has the methods of the interface \<open>i\<close>.
\<close>

datatype gotype = Concrete string | Iface string | PtrTo gotype

datatype 'v any = NilAny | Any gotype 'v

fun has_type :: "(gotype \<Rightarrow> string \<Rightarrow> bool) \<Rightarrow> gotype \<Rightarrow> gotype \<Rightarrow> bool" where
  "has_type implements d (Iface i) = implements d i"
| "has_type implements d t = (d = t)"

text \<open>The assertion \<open>v.(T)\<close> with one result.\<close>

definition type_assert :: "(gotype \<Rightarrow> string \<Rightarrow> bool) \<Rightarrow> 'v any \<Rightarrow> gotype \<Rightarrow> 'v any go" where
  "type_assert implements v t = (case v of
      NilAny \<Rightarrow> Inl TypeAssertion
    | Any d x \<Rightarrow> if has_type implements d t then Inr v else Inl TypeAssertion)"

text \<open>
  A context is a chain; only the values under the registry's key matter here. A registry is kept by
  reference.
\<close>

datatype ctx = Background | WithOther ctx | WithRegistry ctx nat

record 'v registries =
  services :: "nat \<Rightarrow> gotype \<Rightarrow> 'v any"
  next_registry :: nat

subsection \<open>The default registry\<close>

text \<open>The key for \<open>T\<close> is the nil pointer of type \<open>*T\<close>; a missing key reads as nil.\<close>

definition NewRegistry :: "'v registries \<Rightarrow> nat \<times> 'v registries" where
  "NewRegistry w = (next_registry w,
     w\<lparr>services := (services w)(next_registry w := (\<lambda>_. NilAny)), next_registry := Suc (next_registry w)\<rparr>)"

definition Register :: "nat \<Rightarrow> gotype \<Rightarrow> 'v any \<Rightarrow> 'v registries \<Rightarrow> 'v any \<times> 'v registries" where
  "Register r key service w = (services w r key,
     w\<lparr>services := (services w)(r := (services w r)(key := service))\<rparr>)"

definition Get_service :: "nat \<Rightarrow> gotype \<Rightarrow> 'v registries \<Rightarrow> 'v any" where
  "Get_service r key w = services w r key"

subsection \<open>Contexts and registries\<close>

fun ctx_Value :: "ctx \<Rightarrow> nat option" where
  "ctx_Value Background = None"
| "ctx_Value (WithOther c) = ctx_Value c"
| "ctx_Value (WithRegistry c r) = Some r"

text \<open>A nil context has no \<open>Value\<close> to call.\<close>

definition FromContext :: "ctx option \<Rightarrow> nat option go" where
  "FromContext c = (case c of None \<Rightarrow> Inl NilDereference | Some c \<Rightarrow> Inr (ctx_Value c))"

definition NewServiceContext :: "ctx option \<Rightarrow> 'v registries \<Rightarrow> ctx \<times> nat \<times> 'v registries" where
  "NewServiceContext c w =
     (case (case c of None \<Rightarrow> (Background, None) | Some c \<Rightarrow> (c, ctx_Value c)) of
        (c', None) \<Rightarrow> (case NewRegistry w of (st, w') \<Rightarrow> (WithRegistry c' st, st, w'))
      | (c', Some r) \<Rightarrow> (c', r, w))"

definition ContextFrom :: "(gotype \<Rightarrow> string \<Rightarrow> bool) \<Rightarrow> 'v any \<Rightarrow> gotype \<Rightarrow> ctx option \<Rightarrow> 'v registries \<Rightarrow> ('v any \<times> bool) go" where
  "ContextFrom implements zero t c w =
     (case FromContext c of
        Inl p \<Rightarrow> Inl p
      | Inr None \<Rightarrow> Inr (zero, False)
      | Inr (Some r) \<Rightarrow>
          (let v = Get_service r (PtrTo t) w
           in if v = NilAny then Inr (zero, False)
              else case type_assert implements v t of Inl p \<Rightarrow> Inl p | Inr x \<Rightarrow> Inr (x, True)))"

definition ContextFromPtr :: "(gotype \<Rightarrow> string \<Rightarrow> bool) \<Rightarrow> gotype \<Rightarrow> ctx option \<Rightarrow> 'v registries \<Rightarrow> 'v any go" where
  "ContextFromPtr implements t c w =
     (case FromContext c of
        Inl p \<Rightarrow> Inl p
      | Inr None \<Rightarrow> Inr NilAny
      | Inr (Some r) \<Rightarrow>
          (let v = Get_service r (PtrTo t) w
           in if v = NilAny then Inr NilAny else type_assert implements v (PtrTo t)))"

definition ContextWith :: "gotype \<Rightarrow> ctx option \<Rightarrow> 'v any \<Rightarrow> 'v registries \<Rightarrow> (ctx \<times> 'v registries) go" where
  "ContextWith t c v w =
     (case FromContext c of
        Inl p \<Rightarrow> Inl p
      | Inr None \<Rightarrow> (case NewServiceContext c w of
            (c', r, w') \<Rightarrow> Inr (c', snd (Register r (PtrTo t) v w')))
      | Inr (Some r) \<Rightarrow> Inr (the c, snd (Register r (PtrTo t) v w)))"

definition MustContextWith :: "gotype \<Rightarrow> ctx option \<Rightarrow> 'v any \<Rightarrow> 'v registries \<Rightarrow> 'v registries go" where
  "MustContextWith t c v w =
     (case FromContext c of
        Inl p \<Rightarrow> Inl p
      | Inr None \<Rightarrow> Inl (PanicMsg ''services : missing service registry in context'')
      | Inr (Some r) \<Rightarrow> Inr (snd (Register r (PtrTo t) v w)))"

subsection \<open>Life cycles\<close>

text \<open>
  A service, by the methods its type has: the mandatory ones, and the hooks \<open>PreStart\<close>, \<open>PostStart\<close>,
  \<open>PreClose\<close>, \<open>PostClose\<close> where it implements them. A method acts on the service's state.
\<close>

type_synonym 's hook = "'s \<Rightarrow> go_error option \<times> 's"

record 's lifecycle =
  PreStart :: "(ctx \<Rightarrow> 's hook) option"
  Start_method :: "ctx \<Rightarrow> 's hook"
  PostStart :: "(ctx \<Rightarrow> 's hook) option"
  PreClose :: "'s hook option"
  Close_method :: "'s hook"
  PostClose :: "'s hook option"

definition NoopService :: "'s lifecycle" where
  "NoopService = \<lparr>PreStart = None, Start_method = (\<lambda>_ s. (None, s)), PostStart = None,
     PreClose = None, Close_method = (\<lambda>s. (None, s)), PostClose = None\<rparr>"

definition Start :: "ctx option \<Rightarrow> 's lifecycle \<Rightarrow> 's \<Rightarrow> go_error option \<times> 's" where
  "Start c lf s =
     (let c = (case c of None \<Rightarrow> Background | Some c \<Rightarrow> c)
      in case (case PreStart lf of Some pre \<Rightarrow> pre c s | None \<Rightarrow> (None, s)) of
           (Some e, s1) \<Rightarrow> (Some (Cause (Some e) ''PreStart''), s1)
         | (None, s1) \<Rightarrow>
             (case Start_method lf c s1 of
                (Some e, s2) \<Rightarrow> (Some (Cause (Some e) ''Start''), s2)
              | (None, s2) \<Rightarrow>
                  (case (case PostStart lf of Some post \<Rightarrow> post c s2 | None \<Rightarrow> (None, s2)) of
                     (Some e, s3) \<Rightarrow> (Some (Cause (Some e) ''PostStart''), s3)
                   | (None, s3) \<Rightarrow> (None, s3))))"

definition Close_lifecycle :: "'s lifecycle \<Rightarrow> 's \<Rightarrow> go_error option \<times> 's" where
  "Close_lifecycle lf s =
     (case (case PreClose lf of Some pre \<Rightarrow> pre s | None \<Rightarrow> (None, s)) of
        (Some e, s1) \<Rightarrow> (Some (Cause (Some e) ''PreClose''), s1)
      | (None, s1) \<Rightarrow>
          (case Close_method lf s1 of
             (Some e, s2) \<Rightarrow> (Some (Cause (Some e) ''Close''), s2)
           | (None, s2) \<Rightarrow>
               (case (case PostClose lf of Some post \<Rightarrow> post s2 | None \<Rightarrow> (None, s2)) of
                  (Some e, s3) \<Rightarrow> (Some (Cause (Some e) ''PostClose''), s3)
                | (None, s3) \<Rightarrow> (None, s3))))"

text \<open>The specification: named stages in order, up to the first that fails.\<close>

fun stages :: "(string \<times> 's hook) list \<Rightarrow> 's \<Rightarrow> go_error option \<times> 's" where
  "stages [] s = (None, s)"
| "stages ((name, f) # rest) s = (case f s of
      (Some e, s') \<Rightarrow> (Some (Cause (Some e) name), s')
    | (None, s') \<Rightarrow> stages rest s')"

definition stage :: "string \<Rightarrow> 's hook option \<Rightarrow> (string \<times> 's hook) list" where
  "stage name f = (case f of None \<Rightarrow> [] | Some h \<Rightarrow> [(name, h)])"

subsection \<open>Properties\<close>

lemma has_type_refl: "\<forall>i. t \<noteq> Iface i \<Longrightarrow> has_type implements t t"
  by (cases t) auto

text \<open>
  What \<open>ContextWith\<close> registers under a type, \<open>ContextFrom\<close> finds again under that type, in the
  context it returned, provided the value is not nil and is of the type; every other type in
  every registry keeps its service; and when the context had a registry already, every context
  that shares it sees the service.
\<close>

theorem ContextWith_roundtrip:
  assumes "has_type implements d t"
  shows "\<exists>c' w'. ContextWith t (Some c) (Any d x) w = Inr (c', w')
    \<and> ContextFrom implements zero t (Some c') w' = Inr (Any d x, True)
    \<and> (\<forall>r u. u \<noteq> PtrTo t \<longrightarrow> r < next_registry w \<longrightarrow> services w' r u = services w r u)
    \<and> (\<forall>r. ctx_Value c = Some r \<longrightarrow> c' = c \<and> (\<forall>c2. ctx_Value c2 = Some r \<longrightarrow>
          ContextFrom implements zero t (Some c2) w' = Inr (Any d x, True)))"
  using assms
  by (cases "ctx_Value c")
    (auto simp: ContextWith_def FromContext_def NewServiceContext_def NewRegistry_def Register_def
      ContextFrom_def Get_service_def type_assert_def)

theorem ContextWith_roundtrip_witness:
  "\<exists>c' w'. ContextWith (Concrete ''int'') (Some Background) (Any (Concrete ''int'') (7::nat))
      \<lparr>services = (\<lambda>_ _. NilAny), next_registry = 0\<rparr> = Inr (c', w')
    \<and> ContextFrom (\<lambda>_ _. False) NilAny (Concrete ''int'') (Some c') w' = Inr (Any (Concrete ''int'') 7, True)"
  using ContextWith_roundtrip [of "\<lambda>_ _. False" "Concrete ''int''" "Concrete ''int''" Background "7::nat"
      "\<lparr>services = (\<lambda>_ _. NilAny), next_registry = 0\<rparr>" NilAny]
  by auto

text \<open>
  \<open>ContextFromPtr\<close> looks under the same key as \<open>ContextFrom\<close> but asserts the pointer type: after
  \<open>ContextWith\<close> of a value of a concrete type it panics instead of returning nil.
\<close>

theorem ContextFromPtr_panics:
  assumes "ContextWith (Concrete n) (Some c) (Any (Concrete n) x) w = Inr (c', w')"
  shows "ContextFromPtr implements (Concrete n) (Some c') w' = Inl TypeAssertion"
  using assms
  by (cases "ctx_Value c")
    (auto simp: ContextWith_def FromContext_def NewServiceContext_def NewRegistry_def Register_def
      ContextFromPtr_def Get_service_def type_assert_def)

theorem ContextFromPtr_panics_witness:
  "ContextFromPtr (\<lambda>_ _. False) (Concrete ''int'') (Some (WithRegistry Background 0))
    (snd (Register 0 (PtrTo (Concrete ''int'')) (Any (Concrete ''int'') (7::nat))
      (snd (NewRegistry \<lparr>services = (\<lambda>_ _. NilAny), next_registry = 0\<rparr>)))) = Inl TypeAssertion"
  by (rule ContextFromPtr_panics [of "''int''" Background 7 "\<lparr>services = (\<lambda>_ _. NilAny), next_registry = 0\<rparr>"])
    (simp add: ContextWith_def FromContext_def NewServiceContext_def NewRegistry_def)

text \<open>
  \<open>Start\<close> runs \<open>PreStart\<close>, \<open>Start\<close> and \<open>PostStart\<close> in this order, each that exists once, and stops
  at the first that fails, with that stage's error under its name; \<open>Close\<close> likewise with its three.
\<close>

theorem lifecycle_stages:
  "Start (Some c) lf s = stages (stage ''PreStart'' (map_option (\<lambda>f. f c) (PreStart lf))
      @ [(''Start'', Start_method lf c)] @ stage ''PostStart'' (map_option (\<lambda>f. f c) (PostStart lf))) s
    \<and> Close_lifecycle lf s = stages (stage ''PreClose'' (PreClose lf) @ [(''Close'', Close_method lf)]
      @ stage ''PostClose'' (PostClose lf)) s"
  by (cases "PreStart lf"; cases "PostStart lf"; cases "PreClose lf"; cases "PostClose lf")
    (auto simp: Start_def Close_lifecycle_def stage_def Let_def split: prod.split option.split)

end
