(* ===== verification/Slog.thy ===== *)
theory Slog
  imports Ex
begin

text \<open>
  The data of the logging packages: what they use of \<^verbatim>\<open>log/slog\<close> (levels, values, attributes), and
  \<^verbatim>\<open>log/format.go\<close>, \<^verbatim>\<open>log/metadata.go\<close>, \<^verbatim>\<open>log/attrs.go\<close> and \<open>ParseLevel\<close> of \<^verbatim>\<open>log/move.go\<close>. Strings
  are taken as ASCII where the code changes case or trims.
\<close>

subsection \<open>Printing numbers\<close>

fun dec_nat :: "nat \<Rightarrow> string" where
  "dec_nat n = (if n < 10 then [char_of (48 + n)] else dec_nat (n div 10) @ [char_of (48 + n mod 10)])"

declare dec_nat.simps [simp del]

definition dec_int :: "int \<Rightarrow> string" where
  "dec_int i = (if i < 0 then ''-'' @ dec_nat (nat (- i)) else dec_nat (nat i))"

text \<open>The formats \<open>%+d\<close> and \<open>%d\<close> of \<^verbatim>\<open>fmt\<close> are \<open>dec_signed\<close> and \<open>dec_int\<close>.\<close>

definition dec_signed :: "int \<Rightarrow> string" where
  "dec_signed i = (if i < 0 then dec_int i else ''+'' @ dec_int i)"

fun dec_value :: "string \<Rightarrow> nat" where
  "dec_value s = foldl (\<lambda>v c. v * 10 + (of_char c - 48)) 0 s"

lemma char_of_digits [simp]:
  "char_of (48::nat) = CHR ''0''"
  "char_of (49::nat) = CHR ''1''"
  "char_of (50::nat) = CHR ''2''"
  "char_of (51::nat) = CHR ''3''"
  "char_of (52::nat) = CHR ''4''"
  "char_of (53::nat) = CHR ''5''"
  "char_of (54::nat) = CHR ''6''"
  "char_of (55::nat) = CHR ''7''"
  "char_of (56::nat) = CHR ''8''"
  "char_of (57::nat) = CHR ''9''"
  by code_simp+

lemma of_char_of_digit: "d < 10 \<Longrightarrow> of_char (char_of (48 + d) :: char) = (48 + d :: nat)"
  by simp

lemma dec_value_dec_nat: "dec_value (dec_nat n) = n"
proof (induction n rule: dec_nat.induct)
  case (1 n)
  show ?case
  proof (cases "n < 10")
    case True
    then show ?thesis by (subst dec_nat.simps) (simp add: of_char_of_digit)
  next
    case False
    then have "dec_value (dec_nat n) = dec_value (dec_nat (n div 10)) * 10 + n mod 10"
      by (subst dec_nat.simps) (simp add: of_char_of_digit)
    with 1 False show ?thesis by simp
  qed
qed

lemma dec_nat_inj: "dec_nat m = dec_nat n \<longleftrightarrow> m = n"
  by (metis dec_value_dec_nat)

lemma dec_nat_digits: "c \<in> set (dec_nat n) \<Longrightarrow> 48 \<le> (of_char c :: nat) \<and> (of_char c :: nat) \<le> 57"
proof (induction n rule: dec_nat.induct)
  case (1 n)
  have "n mod 10 < 10" by simp
  then have "of_char (char_of (48 + n mod 10) :: char) = (48 + n mod 10 :: nat)" by (rule of_char_of_digit)
  with 1 show ?case by (subst (asm) dec_nat.simps) (auto simp: of_char_of_digit split: if_splits)
qed

subsection \<open>Levels\<close>

abbreviation (input) LevelDebug :: int where "LevelDebug \<equiv> - 4"
abbreviation (input) LevelInfo :: int where "LevelInfo \<equiv> 0"
abbreviation (input) LevelWarn :: int where "LevelWarn \<equiv> 4"
abbreviation (input) LevelError :: int where "LevelError \<equiv> 8"

definition LevelDisable :: int where
  "LevelDisable = LevelError + 1"

text \<open>\<^verbatim>\<open>slog.Level.String\<close>.\<close>

definition Level_String :: "int \<Rightarrow> string" where
  "Level_String l =
     (let str = (\<lambda>base v. if v = 0 then base else base @ dec_signed v)
      in if l < LevelInfo then str ''DEBUG'' (l - LevelDebug)
         else if l < LevelWarn then str ''INFO'' (l - LevelInfo)
         else if l < LevelError then str ''WARN'' (l - LevelWarn)
         else str ''ERROR'' (l - LevelError))"

definition CommonLevelFormatter :: "int \<Rightarrow> string" where
  "CommonLevelFormatter l = Level_String l"

definition EqualLengthLevelFormatter :: "int \<Rightarrow> string" where
  "EqualLengthLevelFormatter l =
     (let str = (\<lambda>base v. if v = 0 then base else base @ ''+'' @ dec_int v)
      in if l < LevelInfo then str ''DEBUG'' (l - LevelDebug)
         else if l < LevelWarn then str ''INFO '' (l - LevelInfo)
         else if l < LevelError then str ''WARN '' (l - LevelWarn)
         else str ''ERROR'' (l - LevelError))"

text \<open>\<open>color\<close> is the colouring of \<^verbatim>\<open>aurora\<close>: the name of the colour and the text.\<close>

definition ColorLevelFormatter :: "(string \<Rightarrow> string \<Rightarrow> string) \<Rightarrow> int \<Rightarrow> string" where
  "ColorLevelFormatter color l =
     (let str = (\<lambda>base v. if v = 0 then base else base @ ''+'' @ color ''red'' (dec_int v))
      in if l < LevelInfo then str (color ''white'' ''DEBUG'') (l - LevelDebug)
         else if l < LevelWarn then str (color ''cyan'' ''INFO '') (l - LevelInfo)
         else if l < LevelError then str (color ''yellow'' ''WARN '') (l - LevelWarn)
         else str (color ''red'' ''ERROR'') (l - LevelError))"

text \<open>\<open>strings.TrimSpace\<close> and \<open>strings.ToUpper\<close> on ASCII.\<close>

definition is_space :: "char \<Rightarrow> bool" where
  "is_space c \<longleftrightarrow> (of_char c :: nat) \<in> {9, 10, 11, 12, 13, 32}"

definition strings_TrimSpace :: "string \<Rightarrow> string" where
  "strings_TrimSpace s = rev (dropWhile is_space (rev (dropWhile is_space s)))"

definition to_upper :: "char \<Rightarrow> char" where
  "to_upper c = (let n = of_char c :: nat in if 97 \<le> n \<and> n \<le> 122 then char_of (n - 32) else c)"

definition strings_ToUpper :: "string \<Rightarrow> string" where
  "strings_ToUpper s = map to_upper s"

definition ParseLevel :: "string \<Rightarrow> int \<times> bool" where
  "ParseLevel s =
     (let us = strings_ToUpper (strings_TrimSpace s)
      in if us = ''DEBUG'' then (LevelDebug, True)
         else if us = ''INFO'' then (LevelInfo, True)
         else if us = ''WARN'' \<or> us = ''WARNING'' then (LevelWarn, True)
         else if us = ''ERROR'' then (LevelError, True)
         else if us = ''OFF'' \<or> us = ''QUIET'' \<or> us = ''DISABLED'' then (LevelDisable, True)
         else (0, False))"

subsection \<open>Values and attributes\<close>

text \<open>
  \<^verbatim>\<open>slog.Value\<close>: a string, a time, a group, a value of another kind with its text, or a \<open>LogValuer\<close>, with
  the text \<^verbatim>\<open>fmt\<close> gives it (for a \<open>ValueFunc\<close> the address of the function) and the value it returns.
\<close>

datatype 't sval =
    StringValue string
  | TimeValue 't
  | TextValue string
  | GroupValue "(string \<times> 't sval) list"
  | LogValuer string "'t sval"

type_synonym 't attr = "string \<times> 't sval"

text \<open>\<open>Value.Resolve\<close>: a hundred rounds of \<open>LogValue\<close> at most.\<close>

fun resolve_upto :: "nat \<Rightarrow> 't sval \<Rightarrow> 't sval" where
  "resolve_upto 0 v = TextValue ''LogValue called too many times''"
| "resolve_upto (Suc n) (LogValuer a v) = resolve_upto n v"
| "resolve_upto (Suc n) v = v"

definition Resolve :: "'t sval \<Rightarrow> 't sval" where
  "Resolve v = resolve_upto 100 v"

lemma resolve_upto_id: "0 < n \<Longrightarrow> \<forall>a x. v \<noteq> LogValuer a x \<Longrightarrow> resolve_upto n v = v"
  by (cases n; cases v) auto

lemma Resolve_plain [simp]:
  "Resolve (StringValue s) = StringValue s" "Resolve (TimeValue t) = TimeValue t"
  "Resolve (TextValue s) = TextValue s" "Resolve (GroupValue as) = GroupValue as"
  by (simp_all add: Resolve_def resolve_upto_id)

text \<open>\<open>Value.String\<close> and \<open>Attr.String\<close>; \<open>tm\<close> prints a time.\<close>

fun value_String :: "('t \<Rightarrow> string) \<Rightarrow> 't sval \<Rightarrow> string" where
  "value_String tm (StringValue s) = s"
| "value_String tm (TimeValue t) = tm t"
| "value_String tm (TextValue s) = s"
| "value_String tm (GroupValue as) = ''['' @ strings_Join (map (\<lambda>(k, v). k @ ''='' @ value_String tm v) as) '' '' @ '']''"
| "value_String tm (LogValuer a v) = a"

definition attr_String :: "('t \<Rightarrow> string) \<Rightarrow> 't attr \<Rightarrow> string" where
  "attr_String tm a = fst a @ ''='' @ value_String tm (snd a)"

text \<open>\<open>AttrError\<close>: \<open>addr\<close> is the address of the closure it makes.\<close>

definition AttrError :: "string \<Rightarrow> go_error option \<Rightarrow> 't attr go" where
  "AttrError addr err = (case err of
      None \<Rightarrow> Inl (PanicMsg ''log error on a nil error'')
    | Some e \<Rightarrow> Inr (''error'', LogValuer addr (StringValue (err_msg e))))"

subsection \<open>Metadata\<close>

definition metadataPrefix :: string where
  "metadataPrefix = ''_builtin.enhancements.metadata''"

datatype 't metadata_arg = ArgString string | ArgAttr "'t attr" | ArgValue "'t sval" | ArgAny "'t sval"

text \<open>An \<open>any\<close> argument: \<open>ArgAny\<close> carries what \<^verbatim>\<open>slog.AnyValue\<close> makes of it.\<close>

definition NewMetadata :: "string \<Rightarrow> 't metadata_arg \<Rightarrow> 't attr" where
  "NewMetadata name v =
     (strings_Join [metadataPrefix, name] '':'',
      case v of ArgString s \<Rightarrow> StringValue s | ArgAttr a \<Rightarrow> snd a | ArgValue x \<Rightarrow> x | ArgAny x \<Rightarrow> x)"

text \<open>The counter is a variable of the package.\<close>

definition buildAnonymousKey :: "64 word \<Rightarrow> string \<times> 64 word" where
  "buildAnonymousKey anonymousKey =
     (let n = anonymousKey + 1 in (''anonymous'' @ ''.'' @ dec_nat (unat n), n))"

definition NewFixedMetadata :: "'t metadata_arg \<Rightarrow> 64 word \<Rightarrow> 't attr \<times> 64 word" where
  "NewFixedMetadata v anonymousKey =
     (case buildAnonymousKey anonymousKey of (key, n) \<Rightarrow> (NewMetadata key v, n))"

text \<open>\<open>strings.SplitN(s, ":", 2)\<close>.\<close>

definition SplitN_colon :: "string \<Rightarrow> string list" where
  "SplitN_colon s =
     (if CHR '':'' \<in> set s then [takeWhile (\<lambda>c. c \<noteq> CHR '':'') s, tl (dropWhile (\<lambda>c. c \<noteq> CHR '':'') s)] else [s])"

fun SplitMetadata_loop :: "'t attr list \<Rightarrow> 't attr list \<Rightarrow> 't attr list \<Rightarrow> 't attr list \<times> 't attr list" where
  "SplitMetadata_loop [] meta extra = (meta, extra)"
| "SplitMetadata_loop (attr # attrs) meta extra =
     (let splitN = SplitN_colon (fst attr)
      in if length splitN < 2 \<or> splitN ! 0 \<noteq> metadataPrefix then SplitMetadata_loop attrs meta (extra @ [attr])
         else SplitMetadata_loop attrs (meta @ [(splitN ! 1, snd attr)]) extra)"

definition SplitMetadata :: "'t attr list \<Rightarrow> 't attr list \<times> 't attr list" where
  "SplitMetadata attrs = SplitMetadata_loop attrs [] []"

subsection \<open>Facts\<close>

definition ends_digit :: "string \<Rightarrow> bool" where
  "ends_digit s \<longleftrightarrow> s \<noteq> [] \<and> 48 \<le> (of_char (last s) :: nat) \<and> (of_char (last s) :: nat) \<le> 57"

lemma dec_nat_not_Nil [simp]: "dec_nat n \<noteq> []"
  by (subst dec_nat.simps) simp

lemma ends_digit_append [simp]: "ends_digit (s @ dec_nat n)"
  using dec_nat_digits [of "last (dec_nat n)" n] by (simp add: ends_digit_def)

lemma ends_digit_printed [simp]: "ends_digit (s @ dec_int i)" "ends_digit (s @ dec_signed i)"
  using ends_digit_append [of "s @ ''-''" "nat (- i)"] ends_digit_append [of "s @ ''+''" "nat i"]
    ends_digit_append [of s "nat i"]
  by (simp_all add: dec_int_def dec_signed_def)

lemma ends_digit_Cons [simp]: "s \<noteq> [] \<Longrightarrow> ends_digit (c # s) = ends_digit s"
  by (simp add: ends_digit_def)

lemma dec_not_Nil [simp]: "dec_int i \<noteq> []" "dec_signed i \<noteq> []"
  by (simp_all add: dec_int_def dec_signed_def)

lemmas ends_digit_dec [simp] = ends_digit_printed [of "[]", simplified]

lemma TrimSpace_ends:
  assumes "s \<noteq> []" and "\<not> is_space (last s)"
  shows "strings_TrimSpace s = dropWhile is_space s \<and> dropWhile is_space s \<noteq> [] \<and> last (dropWhile is_space s) = last s"
proof -
  have ne: "dropWhile is_space s \<noteq> []" using assms by auto
  moreover have "last (dropWhile is_space s) = last s"
    using last_appendR [OF ne, of "takeWhile is_space s"] by simp
  moreover have "\<not> is_space (hd (rev (dropWhile is_space s)))" using ne calculation(2) assms(2) by (simp add: hd_rev)
  then have "dropWhile is_space (rev (dropWhile is_space s)) = rev (dropWhile is_space s)"
    using ne by (cases "rev (dropWhile is_space s)") auto
  ultimately show ?thesis by (simp add: strings_TrimSpace_def)
qed

lemma ends_digit_upper:
  assumes "ends_digit s" shows "ends_digit (strings_ToUpper (strings_TrimSpace s))"
proof -
  have s: "s \<noteq> []" "\<not> is_space (last s)" using assms by (auto simp: ends_digit_def is_space_def)
  have "to_upper (last s) = last s" using assms by (simp add: ends_digit_def to_upper_def Let_def)
  with TrimSpace_ends [OF s] assms show ?thesis by (simp add: ends_digit_def strings_ToUpper_def last_map)
qed

lemma ParseLevel_digit: "ends_digit s \<Longrightarrow> ParseLevel s = (0, False)"
  using ends_digit_upper [of s] by (auto simp: ParseLevel_def Let_def ends_digit_def)

text \<open>Splitting the attributes is filtering them.\<close>

definition is_metadata :: "'t attr \<Rightarrow> bool" where
  "is_metadata a \<longleftrightarrow> (\<exists>name. fst a = metadataPrefix @ '':'' @ name)"

lemma no_colon_prefix: "CHR '':'' \<notin> set metadataPrefix"
  by (simp add: metadataPrefix_def)

lemma SplitN_colon_join: "CHR '':'' \<notin> set p \<Longrightarrow> SplitN_colon (p @ '':'' @ name) = [p, name]"
  by (induction p) (auto simp: SplitN_colon_def)

lemma SplitN_colon_metadata:
  "(length (SplitN_colon k) < 2 \<or> SplitN_colon k ! 0 \<noteq> metadataPrefix) \<longleftrightarrow> \<not> (\<exists>name. k = metadataPrefix @ '':'' @ name)"
proof
  show "\<not> (\<exists>name. k = metadataPrefix @ '':'' @ name)"
    if "length (SplitN_colon k) < 2 \<or> SplitN_colon k ! 0 \<noteq> metadataPrefix"
    using that SplitN_colon_join [OF no_colon_prefix] by auto
next
  assume n: "\<not> (\<exists>name. k = metadataPrefix @ '':'' @ name)"
  show "length (SplitN_colon k) < 2 \<or> SplitN_colon k ! 0 \<noteq> metadataPrefix"
  proof (rule ccontr)
    assume "\<not> ?thesis"
    then have c: "CHR '':'' \<in> set k" "takeWhile (\<lambda>c. c \<noteq> CHR '':'') k = metadataPrefix"
      by (auto simp: SplitN_colon_def split: if_splits)
    then obtain rest where "dropWhile (\<lambda>c. c \<noteq> CHR '':'') k = CHR '':'' # rest"
      using hd_dropWhile [of "\<lambda>c. c \<noteq> CHR '':''" k] by (cases "dropWhile (\<lambda>c. c \<noteq> CHR '':'') k") auto
    with c have "k = metadataPrefix @ '':'' @ rest" using takeWhile_dropWhile_id [of "\<lambda>c. c \<noteq> CHR '':''" k] by simp
    with n show False by blast
  qed
qed

lemma SplitMetadata_loop_append:
  "SplitMetadata_loop (as @ bs) meta extra
    = SplitMetadata_loop bs (fst (SplitMetadata_loop as meta extra)) (snd (SplitMetadata_loop as meta extra))"
  by (induction as meta extra rule: SplitMetadata_loop.induct) (auto simp: Let_def)

lemma SplitMetadata_loop_eq:
  "SplitMetadata_loop as meta extra = (meta @ map (\<lambda>a. (drop (Suc (length metadataPrefix)) (fst a), snd a)) (filter is_metadata as),
      extra @ filter (\<lambda>a. \<not> is_metadata a) as)"
proof (induction as meta extra rule: SplitMetadata_loop.induct)
  case (1 meta extra)
  show ?case by simp
next
  case (2 attr attrs meta extra)
  show ?case
  proof (cases "is_metadata attr")
    case True
    then obtain name where k: "fst attr = metadataPrefix @ '':'' @ name" by (auto simp: is_metadata_def)
    have "SplitN_colon (fst attr) = [metadataPrefix, name]" unfolding k by (rule SplitN_colon_join [OF no_colon_prefix])
    with 2 True k show ?thesis by (simp add: Let_def)
  next
    case False
    then have "length (SplitN_colon (fst attr)) < 2 \<or> SplitN_colon (fst attr) ! 0 \<noteq> metadataPrefix"
      using SplitN_colon_metadata [of "fst attr"] by (simp add: is_metadata_def)
    with 2 False show ?thesis by (simp add: Let_def)
  qed
qed

lemma SplitMetadata_eq:
  "SplitMetadata as = (map (\<lambda>a. (drop (Suc (length metadataPrefix)) (fst a), snd a)) (filter is_metadata as),
      filter (\<lambda>a. \<not> is_metadata a) as)"
  by (simp add: SplitMetadata_def SplitMetadata_loop_eq)

lemma is_metadata_NewMetadata [simp]: "is_metadata (NewMetadata name v)"
  by (simp add: is_metadata_def NewMetadata_def)

text \<open>Anonymous metadata never shares a key, as long as the counter does not come round.\<close>

lemma anonymous_keys_differ:
  "buildAnonymousKey a = (k, a') \<Longrightarrow> buildAnonymousKey b = (k', b') \<Longrightarrow> k = k' \<longleftrightarrow> a = b"
  by (auto simp: buildAnonymousKey_def Let_def dec_nat_inj unsigned_word_eqI dest!: unsigned_word_eqI)

subsection \<open>Properties\<close>

text \<open>
  A level printed by either of the plain formatters is read back by \<open>ParseLevel\<close> when it is one
  of the four named levels, the padding of the equal-length names notwithstanding; every other
  level, whose text carries an offset, is refused.
\<close>

theorem level_roundtrip:
  "ParseLevel (CommonLevelFormatter l) = (if l \<in> {LevelDebug, LevelInfo, LevelWarn, LevelError} then (l, True) else (0, False))
   \<and> ParseLevel (EqualLengthLevelFormatter l)
      = (if l \<in> {LevelDebug, LevelInfo, LevelWarn, LevelError} then (l, True) else (0, False))"
proof (cases "l \<in> {LevelDebug, LevelInfo, LevelWarn, LevelError}")
  case True
  have "ParseLevel ''DEBUG'' = (LevelDebug, True)" "ParseLevel ''INFO'' = (LevelInfo, True)"
    "ParseLevel ''WARN'' = (LevelWarn, True)" "ParseLevel ''ERROR'' = (LevelError, True)"
    "ParseLevel ''INFO '' = (LevelInfo, True)" "ParseLevel ''WARN '' = (LevelWarn, True)"
    by (simp_all add: ParseLevel_def strings_TrimSpace_def strings_ToUpper_def is_space_def to_upper_def Let_def)
  with True show ?thesis by (auto simp: CommonLevelFormatter_def Level_String_def EqualLengthLevelFormatter_def Let_def)
next
  case False
  then have "ends_digit (CommonLevelFormatter l)" and "ends_digit (EqualLengthLevelFormatter l)"
    by (auto simp: CommonLevelFormatter_def Level_String_def EqualLengthLevelFormatter_def Let_def)
  with False show ?thesis by (simp add: ParseLevel_digit)
qed

text \<open>
  C18: what \<open>NewMetadata\<close> marks, \<open>SplitMetadata\<close> finds: among any attributes it separates the marked
  ones, with their names (which may contain the separator) and values, from the others, keeping
  the order of both.
\<close>

theorem metadata_roundtrip:
  "SplitMetadata (as @ NewMetadata name v # bs)
    = (fst (SplitMetadata as) @ (name, snd (NewMetadata name v)) # fst (SplitMetadata bs),
       snd (SplitMetadata as) @ snd (SplitMetadata bs))
   \<and> (\<not> is_metadata a \<longrightarrow> SplitMetadata (as @ a # bs)
    = (fst (SplitMetadata as) @ fst (SplitMetadata bs), snd (SplitMetadata as) @ a # snd (SplitMetadata bs)))"
  by (simp add: SplitMetadata_eq) (simp add: NewMetadata_def)

theorem metadata_roundtrip_witness:
  "SplitMetadata [(''a'', TextValue ''1''), NewMetadata ''x:y'' (ArgString ''v''), (''b'', TextValue ''2'')]
    = ([(''x:y'', StringValue ''v'')], [(''a'', TextValue ''1''), (''b'', TextValue (''2'' :: string) :: nat sval)])"
proof -
  have "\<not> is_metadata (''a'', TextValue ''1'' :: nat sval)" "\<not> is_metadata (''b'', TextValue ''2'' :: nat sval)"
    by (simp_all add: is_metadata_def metadataPrefix_def)
  then show ?thesis
    using metadata_roundtrip [of "[(''a'', TextValue ''1'')]" "''x:y''" "ArgString ''v''" "[(''b'', TextValue ''2'' :: nat sval)]"]
      metadata_roundtrip [of "[]" "[]" "ArgString []" "[]" "(''a'', TextValue ''1'' :: nat sval)"]
      metadata_roundtrip [of "[]" "[]" "ArgString []" "[]" "(''b'', TextValue ''2'' :: nat sval)"]
    by (simp add: NewMetadata_def SplitMetadata_def)
qed

end
