(* ===== verification/Console.thy ===== *)
theory Console
  imports Slog BufWriter Values Lifecycle
begin

text \<open>
  \<^verbatim>\<open>log/loghandler\<close>: the console handler with its per-record state, and \<open>SafeWriter\<close> of
  \<^verbatim>\<open>enhancements/iolib/rw.go\<close>, through which it writes. Strings become bytes where they meet the
  buffered writer. The handler's functions for times and levels are fields; \<open>tm\<close> is the text
  \<^verbatim>\<open>slog\<close> itself gives a time. \<open>None\<close> is "does not return".
\<close>

subsection \<open>SafeWriter\<close>

text \<open>
  The writer behind a mutex. \<open>Write\<close> takes the mutex and gives it back when it returns; it is one
  atomic step for everybody else (\<open>ConsoleShared\<close> takes it apart). A panic of the writer is passed on; with it
  no state is, so that the deferred \<open>Unlock\<close> does not show. \<open>NewSafeWriter\<close> uses a writer that says it is thread safe as it is.
\<close>

record 'w SafeWriter =
  sw_writer :: 'w
  sw_locked :: bool

definition SafeWriter_Write :: "'w write_fn \<Rightarrow> 'w SafeWriter write_fn" where
  "SafeWriter_Write wr s p =
     (case wr (sw_writer (s\<lparr>sw_locked := True\<rparr>)) p of
        Inl q \<Rightarrow> Inl q
      | Inr (n, e, w') \<Rightarrow> Inr (n, e, s\<lparr>sw_writer := w', sw_locked := False\<rparr>))"

datatype 'w safe_writer = AsItIs 'w | Guarded "'w SafeWriter"

definition NewSafeWriter :: "('w \<Rightarrow> bool) \<Rightarrow> 'w \<Rightarrow> 'w safe_writer" where
  "NewSafeWriter ThreadSafe w = (if ThreadSafe w then AsItIs w else Guarded \<lparr>sw_writer = w, sw_locked = False\<rparr>)"

definition safe_Write :: "'w write_fn \<Rightarrow> 'w safe_writer write_fn" where
  "safe_Write wr s p =
     (case s of
        AsItIs w \<Rightarrow> (case wr w p of Inl q \<Rightarrow> Inl q | Inr (n, e, w') \<Rightarrow> Inr (n, e, AsItIs w'))
      | Guarded g \<Rightarrow> (case SafeWriter_Write wr g p of Inl q \<Rightarrow> Inl q | Inr (n, e, g') \<Rightarrow> Inr (n, e, Guarded g')))"

subsection \<open>The state of one record\<close>

definition bytes :: "string \<Rightarrow> byte list" where
  "bytes s = map of_char s"

record ('w, 't) consoleHandlerState =
  cErr :: "go_error option"
  cbuffer :: "'w BufWriter"
  cgroup :: string
  clevel :: "int \<Rightarrow> string"
  ctime :: "'t \<Rightarrow> string"

text \<open>Sequencing of steps that may panic or not return.\<close>

definition go_bind :: "'a go option \<Rightarrow> ('a \<Rightarrow> 'b go option) \<Rightarrow> 'b go option" where
  "go_bind m f = (case m of None \<Rightarrow> None | Some (Inl p) \<Rightarrow> Some (Inl p) | Some (Inr a) \<Rightarrow> f a)"

definition go_return :: "'a \<Rightarrow> 'a go option" where
  "go_return a = Some (Inr a)"

type_synonym ('w, 't) cs_step = "('w, 't) consoleHandlerState \<Rightarrow> ('w, 't) consoleHandlerState go option"

text \<open>\<open>BufWriter.WriteString\<close>, \<open>Write\<close> and \<open>WriteByte\<close> with the error kept in the state.\<close>

definition put_string :: "'w write_fn \<Rightarrow> string \<Rightarrow> ('w, 't) cs_step" where
  "put_string wr str s =
     go_bind (BufWriter_WriteString wr None (cbuffer s) (bytes str))
       (\<lambda>(n, e, bw). go_return (s\<lparr>cErr := e, cbuffer := bw\<rparr>))"

definition put_byte :: "'w write_fn \<Rightarrow> char \<Rightarrow> ('w, 't) cs_step" where
  "put_byte wr c s =
     go_bind (BufWriter_WriteByte wr (cbuffer s) (of_char c)) (\<lambda>(e, bw). go_return (s\<lparr>cErr := e, cbuffer := bw\<rparr>))"

definition state_Write :: "'w write_fn \<Rightarrow> string \<Rightarrow> ('w, 't) cs_step" where
  "state_Write wr p s =
     (if cErr s \<noteq> None then go_return s
      else go_bind (BufWriter_Write wr (cbuffer s) (bytes p))
             (\<lambda>(n, e, bw). go_return (s\<lparr>cErr := e, cbuffer := bw\<rparr>)))"

definition state_WriteString :: "'w write_fn \<Rightarrow> string \<Rightarrow> ('w, 't) cs_step" where
  "state_WriteString wr str s = (if cErr s \<noteq> None then go_return s else put_string wr str s)"

definition WriteTime :: "'w write_fn \<Rightarrow> 't \<Rightarrow> ('w, 't) cs_step" where
  "WriteTime wr t s = (if cErr s \<noteq> None then go_return s else put_string wr (ctime s t) s)"

definition WriteLevel :: "'w write_fn \<Rightarrow> int \<Rightarrow> ('w, 't) cs_step" where
  "WriteLevel wr l s = (if cErr s \<noteq> None then go_return s else put_string wr (clevel s l) s)"

definition NextLine :: "'w write_fn \<Rightarrow> ('w, 't) cs_step" where
  "NextLine wr s = (if cErr s \<noteq> None then go_return s else put_byte wr CHR 0x0A s)"

definition Space :: "'w write_fn \<Rightarrow> ('w, 't) cs_step" where
  "Space wr s = (if cErr s \<noteq> None then go_return s else put_byte wr CHR '' '' s)"

definition writeElement :: "'w write_fn \<Rightarrow> string \<Rightarrow> char option \<Rightarrow> ('w, 't) cs_step" where
  "writeElement wr str sfx s =
     (if cErr s \<noteq> None then go_return s
      else go_bind (if length str > 0 then put_string wr str s else go_return s)
        (\<lambda>s1. if cErr s1 \<noteq> None then go_return s1
              else (case sfx of None \<Rightarrow> go_return s1 | Some c \<Rightarrow> put_byte wr c s1)))"


lemma go_bind_cong [fundef_cong]:
  "m = m' \<Longrightarrow> (\<And>a. m' = Some (Inr a) \<Longrightarrow> f a = f' a) \<Longrightarrow> go_bind m f = go_bind m' f'"
  by (auto simp: go_bind_def split: option.splits sum.splits)

lemma go_bind_simps [simp]:
  "go_bind (go_return a) f = f a" "go_bind None f = None" "go_bind (Some (Inl p)) f = Some (Inl p)"
  "go_bind (Some (Inr a)) f = f a"
  by (simp_all add: go_bind_def go_return_def)

lemma Resolve_group_size: "resolve_upto n v = GroupValue as \<Longrightarrow> size (GroupValue as) \<le> size v"
  by (induction n v rule: resolve_upto.induct) auto

lemma member_size: "(k, x) \<in> set as \<Longrightarrow> size x < size (GroupValue as)"
  by (induction as) auto

definition quoted :: "string \<Rightarrow> string" where
  "quoted str = (if CHR '' '' \<in> set str then ''`'' @ str @ ''`'' else str)"

text \<open>\<open>WriteAttr\<close> reports whether to go on; \<open>WriteGroup\<close> is its loop over the members of a group.\<close>

function (sequential)
  WriteAttr :: "'w write_fn \<Rightarrow> ('t \<Rightarrow> string) \<Rightarrow> string \<Rightarrow> 't sval
    \<Rightarrow> ('w, 't) consoleHandlerState \<Rightarrow> (bool \<times> ('w, 't) consoleHandlerState) go option"
  and WriteGroup :: "'w write_fn \<Rightarrow> ('t \<Rightarrow> string) \<Rightarrow> string \<Rightarrow> (string \<times> 't sval) list
    \<Rightarrow> ('w, 't) consoleHandlerState \<Rightarrow> (bool \<times> ('w, 't) consoleHandlerState) go option"
where
  "WriteAttr wr tm key v s =
     (if cErr s \<noteq> None then go_return (False, s)
      else go_bind (Space wr s) (\<lambda>s1.
        if cErr s1 \<noteq> None then go_return (False, s1)
        else let key = (if key = [] then ''!BADKEY'' else key)
          in case Resolve v of
               GroupValue as \<Rightarrow> WriteGroup wr tm key as s1
             | value \<Rightarrow>
                 go_bind (if length (cgroup s1) \<noteq> 0 then writeElement wr (cgroup s1) (Some CHR ''.'') s1 else go_return s1)
                   (\<lambda>s2. if cErr s2 \<noteq> None then go_return (False, s2)
                     else let valueStr = (case value of TimeValue t \<Rightarrow> ctime s2 t | _ \<Rightarrow> value_String tm value)
                       in go_bind (writeElement wr (key @ ''='' @ quoted valueStr) (Some CHR '' '') s2)
                            (\<lambda>s3. go_return (cErr s3 = None, s3)))))"
| "WriteGroup wr tm key [] s = go_return (True, s)"
| "WriteGroup wr tm key ((k, v) # as) s =
     go_bind (WriteAttr wr tm (key @ ''.'' @ k) v s)
       (\<lambda>(go_on, s1). if \<not> go_on then go_return (False, s1) else WriteGroup wr tm key as s1)"
  by pat_completeness auto
termination
  by (relation "measure (\<lambda>x. case x of Inl (wr, tm, key, v, s) \<Rightarrow> size v
      | Inr (wr, tm, key, as, s) \<Rightarrow> size_list (size_prod (\<lambda>_. 0) size) as)")
    (auto simp: Resolve_def dest: Resolve_group_size)

declare WriteAttr.simps [simp del]

text \<open>The loop of \<open>Record.Attrs\<close>.\<close>

fun record_Attrs :: "'w write_fn \<Rightarrow> ('t \<Rightarrow> string) \<Rightarrow> 't attr list \<Rightarrow> ('w, 't) cs_step" where
  "record_Attrs wr tm [] s = go_return s"
| "record_Attrs wr tm ((k, v) # as) s =
     go_bind (WriteAttr wr tm k v s) (\<lambda>(go_on, s1). if go_on then record_Attrs wr tm as s1 else go_return s1)"

record source =
  File :: string
  Line :: int
  Function :: string

definition source_line :: "bool \<Rightarrow> source \<Rightarrow> string" where
  "source_line debug src =
     (if debug then ''Caller: '' @ File src @ '':'' @ dec_int (Line src) @ '' '' @ Function src @ '' \<newline>''
      else ''Caller: '' @ Function src @ '' \<newline>'')"

definition Source :: "'w write_fn \<Rightarrow> bool \<Rightarrow> source \<Rightarrow> ('w, 't) cs_step" where
  "Source wr debug src s =
     (if cErr s \<noteq> None then go_return s else writeElement wr (source_line debug src) None s)"

function groupValues :: "('t \<Rightarrow> string) \<Rightarrow> 't sval \<Rightarrow> string list" where
  "groupValues tm v = (case Resolve v of
      GroupValue as \<Rightarrow> concat (map (groupValues tm) (map snd as))
    | value \<Rightarrow> [value_String tm value])"
  by pat_completeness auto
termination
proof (relation "measure (\<lambda>(tm, v). size v)", goal_cases)
  case (2 tm v as x)
  from Resolve_group_size [of 100 v as] 2(1) have "size (GroupValue as) \<le> size v" by (simp add: Resolve_def)
  moreover have "size x < size (GroupValue as)" using member_size [of _ x as] 2(2) by auto
  ultimately show ?case by simp
qed simp

definition WriteMeta :: "'w write_fn \<Rightarrow> ('t \<Rightarrow> string) \<Rightarrow> 't attr \<Rightarrow> ('w, 't) cs_step" where
  "WriteMeta wr tm meta s =
     (if cErr s \<noteq> None then go_return s
      else go_bind (Space wr s) (\<lambda>s1.
        if cErr s1 \<noteq> None then go_return s1
        else case Resolve (snd meta) of
          GroupValue as \<Rightarrow>
            writeElement wr (''['' @ strings_Join (groupValues tm (GroupValue as)) '' '' @ '']'') None s1
        | value \<Rightarrow>
            (let str = value_String tm value;
                 str = (if length str = 0 then ''!EMPTY'' else str)
             in writeElement wr (''['' @ str @ '']'') None s1)))"

subsection \<open>The handler\<close>

text \<open>
  The writer, which all clones of a handler share, is not a field here but is passed along; it is taken to
  have no \<open>WriteString\<close> of its own, as \<open>SafeWriter\<close> has none. A nil
  \<open>groupPrefix\<close> is the empty one, as the code uses it.
\<close>

record 't ConsoleHandler =
  hlevel :: int
  sourceLevel :: int
  enableTime :: bool
  timeFormat :: "'t \<Rightarrow> string"
  levelFormat :: "int \<Rightarrow> string"
  groupPrefix :: string
  preFormatedAttr :: string
  metadata :: "'t attr list"

record 't ConsoleHandlerOption =
  optLevel :: int
  optSourceLevel :: int
  EnableTime :: bool
  TimeFormatter :: "('t \<Rightarrow> string) option"
  LevelFormatter :: "(int \<Rightarrow> string) option"

text \<open>\<open>clone\<close> copies the slices too, so that handlers share none.\<close>

definition clone_handler :: "'t ConsoleHandler \<Rightarrow> 't ConsoleHandler" where
  "clone_handler h =
     \<lparr>hlevel = hlevel h, sourceLevel = sourceLevel h, enableTime = enableTime h, timeFormat = timeFormat h,
      levelFormat = levelFormat h, groupPrefix = groupPrefix h, preFormatedAttr = preFormatedAttr h, metadata = metadata h\<rparr>"

lemma clone_handler_id [simp]: "clone_handler h = h"
  by (simp add: clone_handler_def)

text \<open>\<open>DiscardHandler\<close> is \<^verbatim>\<open>slog.DiscardHandler\<close>.\<close>

datatype 't Handler = DiscardHandler | Console "'t ConsoleHandler"

text \<open>\<open>nothing\<close>: the writer is nil or \<^verbatim>\<open>io.Discard\<close>; \<open>rfc3339\<close> is \<open>RFC3339TimeFormatter\<close>.\<close>

definition NewConsoleHandler :: "('t \<Rightarrow> string) \<Rightarrow> bool \<Rightarrow> 't ConsoleHandlerOption \<Rightarrow> 't Handler" where
  "NewConsoleHandler rfc3339 nothing opt =
     (if nothing then DiscardHandler
      else Console \<lparr>hlevel = optLevel opt, sourceLevel = optSourceLevel opt, enableTime = EnableTime opt,
        timeFormat = (case TimeFormatter opt of None \<Rightarrow> rfc3339 | Some f \<Rightarrow> f),
        levelFormat = (case LevelFormatter opt of None \<Rightarrow> EqualLengthLevelFormatter | Some f \<Rightarrow> f),
        groupPrefix = [], preFormatedAttr = [], metadata = []\<rparr>)"

definition Enabled :: "'t ConsoleHandler \<Rightarrow> int \<Rightarrow> bool" where
  "Enabled h level \<longleftrightarrow> hlevel h \<le> level"

definition defaultBufferSize :: int where
  "defaultBufferSize = 16384"

definition newState :: "nat \<Rightarrow> 't ConsoleHandler \<Rightarrow> 'w \<Rightarrow> allocator
    \<Rightarrow> (('w, 't) consoleHandlerState \<times> allocator) go" where
  "newState choice h w al =
     (case NewSize choice defaultBufferSize al of
        Inl p \<Rightarrow> Inl p
      | Inr (b, al1) \<Rightarrow>
          (case NewBufWriter choice w (Some b) al1 of
             Inl p \<Rightarrow> Inl p
           | Inr (bw, al2) \<Rightarrow>
               Inr (\<lparr>cErr = None, cbuffer = bw, cgroup = groupPrefix h, clevel = levelFormat h, ctime = timeFormat h\<rparr>, al2)))"

text \<open>
  What a record and the process bring along: the record's source is its program counter looked up,
  absent when it has none; \<open>now\<close> is \<^verbatim>\<open>time.Now\<close>, \<open>is_zero\<close> is \<^verbatim>\<open>Time.IsZero\<close>.
\<close>

record 't Record =
  Time :: 't
  Level :: int
  Message :: string
  Attrs :: "'t attr list"
  SourceOf :: "source option"

record 't log_env =
  slog_time :: "'t \<Rightarrow> string"
  is_zero :: "'t \<Rightarrow> bool"
  now :: 't
  debug :: bool

text \<open>The early return after a step that failed, and what follows it.\<close>

definition checked :: "string \<Rightarrow> ('w, 't) consoleHandlerState
    \<Rightarrow> (go_error option \<times> ('w, 't) consoleHandlerState) go option
    \<Rightarrow> (go_error option \<times> ('w, 't) consoleHandlerState) go option" where
  "checked due s k = (if cErr s \<noteq> None then go_return (Some (Cause (cErr s) due), s) else k)"

fun write_metas :: "'t log_env \<Rightarrow> 'w write_fn \<Rightarrow> nat \<Rightarrow> 't attr list \<Rightarrow> ('w, 't) consoleHandlerState
    \<Rightarrow> (go_error option \<times> ('w, 't) consoleHandlerState) go option" where
  "write_metas env wr i [] s = go_return (None, s)"
| "write_metas env wr i (m # ms) s =
     go_bind (WriteMeta wr (slog_time env) m s) (\<lambda>s1.
       checked (''write metadata for: index: '' @ dec_nat i @ '' , key: '' @ attr_String (slog_time env) m) s1
         (write_metas env wr (Suc i) ms s1))"

definition Handle_body :: "'t log_env \<Rightarrow> 'w write_fn \<Rightarrow> 't ConsoleHandler \<Rightarrow> 't Record \<Rightarrow> ('w, 't) consoleHandlerState
    \<Rightarrow> (go_error option \<times> ('w, 't) consoleHandlerState) go option" where
  "Handle_body env wr h r s0 =
     go_bind (if enableTime h then WriteTime wr (if is_zero env (Time r) then now env else Time r) s0 else go_return s0)
       (\<lambda>s1. checked ''write time'' s1 (
     go_bind (if enableTime h then Space wr s1 else go_return s1) (\<lambda>s2.
     go_bind (WriteLevel wr (Level r) s2) (\<lambda>s3. checked ''write level'' s3 (
     go_bind (write_metas env wr 0 (metadata h) s3) (\<lambda>(merr, s4).
     if merr \<noteq> None then go_return (merr, s4)
     else go_bind (Space wr s4) (\<lambda>s5.
     go_bind (state_WriteString wr (Message r) s5) (\<lambda>s6. checked ''write message'' s6 (
     go_bind (if length (preFormatedAttr h) \<noteq> 0
              then go_bind (Space wr s6) (state_Write wr (preFormatedAttr h)) else go_return s6)
       (\<lambda>s7. checked ''write attrs'' s7 (
     go_bind (record_Attrs wr (slog_time env) (Attrs r) s7) (\<lambda>s8. checked ''write attrs'' s8 (
     go_bind (NextLine wr s8) (\<lambda>s9. checked ''next line'' s9 (
     go_bind (if Level r \<ge> sourceLevel h
              then (case SourceOf r of None \<Rightarrow> go_return s9 | Some src \<Rightarrow> Source wr (debug env) src s9)
              else go_return s9)
       (\<lambda>s10. go_return (cErr s10, s10)))))))))))))))))"

text \<open>
  \<open>Free\<close>, deferred: flush and give the buffer back. A failing flush goes to the package's own logger,
  whose records are collected in a list, and so does a panic, which is recovered (the writer is
  then left as it was, for want of a better value). When \<open>Handle\<close> itself ends in a panic its \<open>Free\<close>
  runs too; a panic carries no state here, so its effect does not show.
\<close>

definition state_Free :: "'w write_fn \<Rightarrow> ('w, 't) consoleHandlerState \<Rightarrow> allocator
    \<Rightarrow> ((string \<times> go_error option) list \<times> 'w \<times> allocator) option" where
  "state_Free wr s al =
     (case Flush wr (cbuffer s) of
        None \<Rightarrow> None
      | Some (Inl p) \<Rightarrow> Some ([(''panic during flush'', None)], underlay (cbuffer s), al)
      | Some (Inr (err, bw)) \<Rightarrow>
          (let logs = (if err \<noteq> None then [(''flush log buffer failed'', err)] else [])
           in case BufWriter_Free bw al of
                Inl p \<Rightarrow> Some (logs @ [(''panic during flush'', None)], underlay bw, al)
              | Inr (bw', al') \<Rightarrow> Some (logs, underlay bw', al')))"

definition Handle :: "'t log_env \<Rightarrow> 'w write_fn \<Rightarrow> nat \<Rightarrow> 't ConsoleHandler \<Rightarrow> 't Record \<Rightarrow> 'w \<Rightarrow> allocator
    \<Rightarrow> (go_error option \<times> (string \<times> go_error option) list \<times> 'w \<times> allocator) go option" where
  "Handle env wr choice h r w al =
     (case newState choice h w al of
        Inl p \<Rightarrow> Some (Inl p)
      | Inr (s0, al1) \<Rightarrow>
          (case Handle_body env wr h r s0 of
             None \<Rightarrow> None
           | Some (Inl p) \<Rightarrow> Some (Inl p)
           | Some (Inr (err, s)) \<Rightarrow>
               (case state_Free wr s al1 of
                  None \<Rightarrow> None
                | Some (logs, w', al2) \<Rightarrow> Some (Inr (err, logs, w', al2)))))"

subsection \<open>Attributes and groups of a handler\<close>

fun withMetadata_loop :: "(string \<Rightarrow> nat option) \<Rightarrow> 't attr list \<Rightarrow> 't attr list \<Rightarrow> 't attr list" where
  "withMetadata_loop indexes [] md = md"
| "withMetadata_loop indexes (attr # attrs) md =
     (case indexes (fst attr) of
        Some old \<Rightarrow> (if old < length md then withMetadata_loop indexes attrs (md[old := attr])
                     else withMetadata_loop indexes attrs (md @ [attr]))
      | None \<Rightarrow> withMetadata_loop indexes attrs (md @ [attr]))"

definition withMetadata :: "'t attr list \<Rightarrow> 't ConsoleHandler \<Rightarrow> 't ConsoleHandler" where
  "withMetadata attrs h =
     (let attrs = UniqByLast attrs fst
      in if length (metadata h) = 0 then h\<lparr>metadata := attrs\<rparr>
         else h\<lparr>metadata := withMetadata_loop (IndexMap (Map_slice (metadata h) fst)) attrs (metadata h)\<rparr>)"

fun withAttrs_loop :: "('t \<Rightarrow> string) \<Rightarrow> string \<Rightarrow> 't attr list \<Rightarrow> string list \<Rightarrow> string list" where
  "withAttrs_loop tm grp [] attrBytes = attrBytes"
| "withAttrs_loop tm grp (attr # attrs) attrBytes =
     (let key = (if length grp \<noteq> 0 then strings_Join [grp, fst attr] ''.'' else fst attr)
      in withAttrs_loop tm grp attrs (attrBytes @ [attr_String tm (key, snd attr)]))"

definition withAttrs :: "('t \<Rightarrow> string) \<Rightarrow> 't attr list \<Rightarrow> 't ConsoleHandler \<Rightarrow> 't ConsoleHandler" where
  "withAttrs tm attrs h =
     (let attrBytes = withAttrs_loop tm (groupPrefix h) attrs
            (if length (preFormatedAttr h) \<noteq> 0 then [preFormatedAttr h] else [])
      in if length attrBytes \<noteq> 0 then h\<lparr>preFormatedAttr := strings_Join attrBytes '' ''\<rparr> else h)"

definition WithAttrs :: "('t \<Rightarrow> string) \<Rightarrow> 't ConsoleHandler \<Rightarrow> 't attr list \<Rightarrow> 't ConsoleHandler" where
  "WithAttrs tm h attrs =
     (if length attrs = 0 then h
      else case SplitMetadata attrs of
        (meta, extraAttr) \<Rightarrow>
          (let h2 = clone_handler h;
               h1 = (if length meta \<noteq> 0 then withMetadata meta h2 else h2)
           in if length extraAttr \<noteq> 0 then withAttrs tm extraAttr h1 else h1))"

definition withGroup :: "string \<Rightarrow> 't ConsoleHandler \<Rightarrow> 't ConsoleHandler" where
  "withGroup name h =
     (if length (groupPrefix h) = 0 then h\<lparr>groupPrefix := name\<rparr>
      else h\<lparr>groupPrefix := strings_Join [groupPrefix h, name] ''.''\<rparr>)"

definition WithGroup :: "'t ConsoleHandler \<Rightarrow> string \<Rightarrow> 't ConsoleHandler" where
  "WithGroup h name = (if name = [] then h else withGroup name (clone_handler h))"

text \<open>The package's default handler, over standard error.\<close>

definition DefaultConsoleHandler :: "('t \<Rightarrow> string) \<Rightarrow> ('t \<Rightarrow> string) \<Rightarrow> (string \<Rightarrow> string \<Rightarrow> string) \<Rightarrow> 64 word
    \<Rightarrow> 't Handler \<times> 64 word" where
  "DefaultConsoleHandler tm rfc3339 color anonymousKey =
     (case NewFixedMetadata (ArgString ''Default'') anonymousKey of
        (meta, n) \<Rightarrow>
          ((case NewConsoleHandler rfc3339 False
              \<lparr>optLevel = LevelDebug, optSourceLevel = LevelError, EnableTime = True, TimeFormatter = None,
               LevelFormatter = Some (ColorLevelFormatter color)\<rparr> of
              DiscardHandler \<Rightarrow> DiscardHandler
            | Console h \<Rightarrow> Console (WithAttrs tm h [meta])), n))"

subsection \<open>The builder\<close>

text \<open>
  \<open>opt_output\<close> is \<open>OutputWriter\<close>; the built handler comes with the descriptor it writes to. \<open>openfile\<close> is
  \<^verbatim>\<open>os.OpenFile\<close> for appending, \<open>color\<close> the colouring of \<^verbatim>\<open>aurora\<close>, \<open>is_discard\<close>
  the comparison with \<^verbatim>\<open>io.Discard\<close>.
\<close>

datatype 'w target = Stdout | Stderr | Opened 'w

record 'w BuildOption =
  Disabled :: bool
  Output :: string
  BuildLevel :: int
  BuildTime :: bool
  BuildDebug :: bool
  OutputWriter :: "'w option"

definition New_handler :: "('t \<Rightarrow> string) \<Rightarrow> (string \<Rightarrow> string \<Rightarrow> string) \<Rightarrow> (string \<Rightarrow> go_error + 'w) \<Rightarrow> ('w \<Rightarrow> bool)
    \<Rightarrow> 'w BuildOption \<Rightarrow> go_error + ('t Handler \<times> 'w target option)" where
  "New_handler rfc3339 color openfile is_discard opt =
     (if Disabled opt then Inr (DiscardHandler, None)
      else let srcLevel = (if BuildDebug opt then LevelError else LevelDisable);
               build = (\<lambda>out nothing fmt. Inr (NewConsoleHandler rfc3339 nothing
                 \<lparr>optLevel = BuildLevel opt, optSourceLevel = srcLevel, EnableTime = BuildTime opt,
                   TimeFormatter = Some rfc3339, LevelFormatter = Some fmt\<rparr>, Some out))
           in case OutputWriter opt of
                Some w \<Rightarrow> build (Opened w) (is_discard w) EqualLengthLevelFormatter
              | None \<Rightarrow>
                  (if Output opt = [] \<or> Output opt = ''stdout'' then build Stdout False (ColorLevelFormatter color)
                   else if Output opt = ''stderr'' then build Stderr False (ColorLevelFormatter color)
                   else case openfile (Output opt) of
                     Inl e \<Rightarrow> Inl (Cause (Some e) ''openfile'')
                   | Inr w \<Rightarrow> build (Opened w) False EqualLengthLevelFormatter))"

end
