(* ===== verification/ConsoleLine.thy ===== *)
theory ConsoleLine
  imports Console
begin

text \<open>
  What the console handler writes. The text of a record is given by a function of the handler and the
  record alone, \<open>format_line\<close>; over any writer that keeps the full \<^verbatim>\<open>io.Writer\<close> contract \<open>Handle\<close> writes
  this text, or a prefix of it when the writer fails, and a text that fits the handler's buffer
  reaches the writer in one call. At the end the laws of \<open>WithAttrs\<close> and \<open>WithGroup\<close>.
\<close>

subsection \<open>Buffered writes that fit\<close>

locale io_full_writer = io_sink_writer +
  assumes write_full: "winv ws \<Longrightarrow> wr ws p = Inr (n, None, ws') \<Longrightarrow> n = int (length p)"

lemma WriteString_fits:
  assumes wf: "buf_wf (wbuf bw)" and len: "bsize (wbuf bw) + int (length s) \<le> max_int"
    and fits: "length s \<le> room (wbuf bw)"
  shows "\<exists>b'. BufWriter_WriteString wr sw bw s = Some (Inr (int (length s), None, bw\<lparr>wbuf := b'\<rparr>))
    \<and> room b' = room (wbuf bw) - length s"
proof -
  have len': "wpos (wbuf bw) + int (length s) \<le> max_int" using len buf_wfD [OF wf] by linarith
  show ?thesis
  proof (cases "s = []")
    case True
    then show ?thesis by (simp add: BufWriter_WriteString_def WriteString_Buffer_def Let_def exI [of _ "wbuf bw"])
  next
    case False
    then show ?thesis using fits stored_facts(4) [OF wf, of "int (length s)" s]
      by (intro exI [of _ "stored (wbuf bw) s (int (length s))"])
        (simp add: BufWriter_WriteString_def WriteString_eq [OF wf len'] Let_def)
  qed
qed

lemma WriteByte_fits:
  assumes wf: "buf_wf (wbuf bw)" and fits: "1 \<le> room (wbuf bw)"
  shows "\<exists>b'. BufWriter_WriteByte wr bw c = Some (Inr (None, bw\<lparr>wbuf := b'\<rparr>)) \<and> room b' = room (wbuf bw) - 1"
proof -
  obtain fr where fr: "FreeBytes (wbuf bw) = Inr fr" "length fr = room (wbuf bw)" using FreeBytes_eq [OF wf] by blast
  show ?thesis using fits fr stored_facts(4) [OF wf, of 1 "[c]"]
    by (auto simp: BufWriter_WriteByte_def WriteByte_eq [OF wf])
qed

lemma Write_fits:
  assumes wf: "buf_wf (wbuf bw)" and fits: "length p \<le> room (wbuf bw)"
  shows "\<exists>b'. BufWriter_Write wr bw p = Some (Inr (int (length p), None, bw\<lparr>wbuf := b'\<rparr>))
    \<and> room b' = room (wbuf bw) - length p \<and> same_owner (wbuf bw) b'"
proof -
  obtain fr where fr: "FreeBytes (wbuf bw) = Inr fr" "length fr = room (wbuf bw)" using FreeBytes_eq [OF wf] by blast
  have cap: "\<not> int (length p) > Cap (wbuf bw)"
    using fits room_int [OF wf] buf_wfD [OF wf] by (simp add: Cap_def)
  have direct: "BufWriter_Write wr bw p = BufWriter_Write_loop wr bw p 0"
    using cap fr fits by (simp add: BufWriter_Write_def)
  show ?thesis
  proof (cases "p = []")
    case True
    then show ?thesis by (subst direct, subst BufWriter_Write_loop.simps) (simp add: exI [of _ "wbuf bw"])
  next
    case False
    have n: "int (length p) \<le> max_int" using fits room_int [OF wf] buf_wfD [OF wf] by linarith
    have w: "wrap64 (int (length p)) = int (length p)" using n by (intro wrap64_nonneg) auto
    have "Write_Buffer (wbuf bw) p = Inr (int (length p), None, stored (wbuf bw) p (int (length p)))"
      using False fits by (cases p) (simp_all add: Write_eq [OF wf] Let_def)
    then show ?thesis using False w stored_facts(4) [OF wf, of "int (length p)" p] fits
      by (intro exI [of _ "stored (wbuf bw) p (int (length p))"])
        (subst direct, subst BufWriter_Write_loop.simps, simp add: Let_def)
  qed
qed

lemma Buffer_writes_same_owner:
  "Write_Buffer b p = Inr (n, e, b') \<Longrightarrow> same_owner b b'"
  "WriteString_Buffer b p = Inr (n, e, b') \<Longrightarrow> same_owner b b'"
  "WriteByte_Buffer b c = Inr (e, b') \<Longrightarrow> same_owner b b'"
  using b_step_same_owner [of b "bop.OpWrite p" "([], n, e)" b'] b_step_same_owner [of b "bop.OpWriteString p" "([], n, e)" b']
    b_step_same_owner [of b "bop.OpWriteByte c" "([], 0, e)" b'] by simp_all

text \<open>No operation of the buffered writer changes the buffer's array or its references, or takes back what has been written.\<close>

definition bw_frame :: "('w \<Rightarrow> byte list) \<Rightarrow> 'w BufWriter \<Rightarrow> 'w BufWriter \<Rightarrow> bool" where
  "bw_frame sink bw bw' \<longleftrightarrow> same_owner (wbuf bw) (wbuf bw') \<and> prefix (sink (underlay bw)) (sink (underlay bw'))"

lemma bw_frame_refl [simp]: "bw_frame sink bw bw"
  by (simp add: bw_frame_def)

lemma bw_frame_trans: "bw_frame sink a b \<Longrightarrow> bw_frame sink b c \<Longrightarrow> bw_frame sink a c"
  by (auto simp: bw_frame_def intro: same_owner_trans prefix_order.trans)

lemma bw_frame_buffer: "same_owner (wbuf bw) b' \<Longrightarrow> bw_frame sink bw (bw\<lparr>wbuf := b'\<rparr>)"
  by (simp add: bw_frame_def)

context io_sink_writer begin

lemma bw_frame_write: "winv (underlay bw) \<Longrightarrow> wr (underlay bw) p = Inr (n, e, w') \<Longrightarrow> bw_frame sink bw (bw\<lparr>underlay := w'\<rparr>)"
  by (simp add: bw_frame_def write_sink)

lemma Flush_frame:
  assumes ok: "bw_ok winv bw" and res: "Flush wr bw = Some (Inr (err, bw'))"
  shows "bw_frame sink bw bw' \<and> bw_ok winv bw'"
proof (cases "contents (wbuf bw) = []")
  case True
  then show ?thesis using res ok Len_zero_iff [OF bw_okD(1) [OF ok]] by (simp add: Flush_def)
next
  case False
  obtain n e b' w' ds where wt: "WriteTo wr (wbuf bw) (underlay bw) = Some (Inr (n, e, b', w'))"
    "data b' = data (wbuf bw)" "managed b' = managed (wbuf bw)" "ref b' = ref (wbuf bw)" "accepts wr (underlay bw) ds w'"
    using WriteTo_returns [OF bw_okD [OF ok] False] by blast
  have "sink w' = sink (underlay bw) @ ds" using accepts_sink [OF wt(5) bw_okD(2) [OF ok]] .
  then have "bw_frame sink bw bw'"
    using res wt(1-4) by (auto simp: Flush_def Reset_def bw_frame_def same_owner_def same_array_def split: if_splits)
  then show ?thesis using Flush_spec [OF ok] res by auto
qed

lemma BufWriter_WriteString_frame:
  assumes ok: "bw_ok winv bw" and res: "BufWriter_WriteString wr None bw s = Some (Inr (n, err, bw'))"
  shows "bw_frame sink bw bw'"
proof -
  obtain m e b1 where w: "WriteString_Buffer (wbuf bw) s = Inr (m, e, b1)"
    using res by (auto simp: BufWriter_WriteString_def split: sum.splits)
  show ?thesis
  proof (cases "e = None \<or> \<not> IsMulti e [''io.ErrShortBuffer'']")
    case True
    then show ?thesis using res w bw_frame_buffer [OF Buffer_writes_same_owner(2) [OF w]]
      by (auto simp: BufWriter_WriteString_def)
  next
    case False
    then have "b1 = wbuf bw" using w by (auto simp: WriteString_Buffer_def Let_def split: if_splits sum.splits)
    then have bw: "bw\<lparr>wbuf := b1\<rparr> = bw" by simp
    with False res w obtain f bw1 where fl: "Flush wr bw = Some (Inr (f, bw1))"
      by (auto simp: BufWriter_WriteString_def Let_def simp del: IsMulti.simps split: option.splits sum.splits)
    have f: "bw_frame sink bw bw1" "bw_ok winv bw1" using Flush_frame [OF ok fl] by simp_all
    have "bw_frame sink bw1 bw'" using res w False fl bw bw_okD(2) [OF f(2)]
      by (auto simp: BufWriter_WriteString_def WriteString_fn_def Let_def simp del: IsMulti.simps split: if_splits sum.splits
          intro: bw_frame_write bw_frame_buffer dest: Buffer_writes_same_owner(2))
    with f(1) show ?thesis by (rule bw_frame_trans)
  qed
qed

lemma BufWriter_WriteByte_frame:
  assumes ok: "bw_ok winv bw" and res: "BufWriter_WriteByte wr bw c = Some (Inr (err, bw'))"
  shows "bw_frame sink bw bw'"
proof -
  obtain fr where fr: "FreeBytes (wbuf bw) = Inr fr" using res by (auto simp: BufWriter_WriteByte_def split: sum.splits)
  with res obtain f bw1 where fl: "(if length fr = 0 then Flush wr bw else Some (Inr (None, bw))) = Some (Inr (f, bw1))"
    by (auto simp: BufWriter_WriteByte_def simp del: length_0_conv split: option.splits sum.splits)
  have "bw_frame sink bw bw1" using fl Flush_frame [OF ok] by (auto split: if_splits)
  moreover have "bw_frame sink bw1 bw'" using res fr fl
    by (auto simp: BufWriter_WriteByte_def simp del: length_0_conv split: if_splits sum.splits
        intro: bw_frame_buffer dest: Buffer_writes_same_owner(3))
  ultimately show ?thesis by (rule bw_frame_trans)
qed

lemma BufWriter_Write_frame:
  assumes ok: "bw_ok winv bw" and res: "BufWriter_Write wr bw p = Some (Inr (n, err, bw'))"
  shows "bw_frame sink bw bw'"
proof (cases "length p \<le> room (wbuf bw)")
  case True
  then show ?thesis using Write_fits [OF bw_okD(1) [OF ok] True, of wr] res by (auto simp: bw_frame_def)
next
  case False
  obtain fr where fr: "FreeBytes (wbuf bw) = Inr fr" "length fr = room (wbuf bw)"
    using FreeBytes_eq [OF bw_okD(1) [OF ok]] by blast
  with res False obtain f bw1 where fl: "Flush wr bw = Some (Inr (f, bw1))"
    by (auto simp: BufWriter_Write_def split: option.splits sum.splits if_splits)
  have f: "bw_frame sink bw bw1" "bw_ok winv bw1" using Flush_frame [OF ok fl] by simp_all
  have "bw_frame sink bw1 bw'" using res fr False fl bw_okD(2) [OF f(2)]
    by (auto simp: BufWriter_Write_def split: if_splits sum.splits option.splits intro: bw_frame_write)
  with f(1) show ?thesis by (rule bw_frame_trans)
qed

end

context io_full_writer begin

lemma WriteString_full:
  assumes ok: "bw_ok winv bw" and len: "bsize (wbuf bw) + int (length s) \<le> max_int"
    and res: "BufWriter_WriteString wr None bw s = Some (Inr (n, None, bw'))"
  shows "n = int (length s)"
proof -
  note wf = bw_okD(1) [OF ok]
  have len': "wpos (wbuf bw) + int (length s) \<le> max_int" using len buf_wfD [OF wf] by linarith
  show ?thesis
  proof (cases "length s \<le> room (wbuf bw)")
    case True
    then show ?thesis using WriteString_fits [OF wf len, of wr None] res by auto
  next
    case False
    then have ws: "WriteString_Buffer (wbuf bw) s = Inr (0, Some io_ErrShortBuffer, wbuf bw)"
      using WriteString_outcome [OF wf len'] by auto
    obtain err bw1 where fl: "Flush wr bw = Some (Inr (err, bw1))" "bw_ok winv bw1" "bsize (wbuf bw1) = bsize (wbuf bw)"
      using Flush_spec [OF ok] by blast
    have len1: "wpos (wbuf bw1) + int (length s) \<le> max_int"
      using len fl(3) buf_wfD [OF bw_okD(1) [OF fl(2)]] by linarith
    have multi: "IsMulti (Some io_ErrShortBuffer) [''io.ErrShortBuffer'']" by (simp add: errors_Is_def)
    show ?thesis
    proof (cases "err = None \<and> int (length s) \<ge> Cap (wbuf bw1)")
      case True
      then obtain w' where "wr (underlay bw1) s = Inr (n, None, w')"
        using res ws fl(1) by (auto simp: BufWriter_WriteString_def WriteString_fn_def Let_def errors_Is_def split: sum.splits)
      then show ?thesis using write_full [OF bw_okD(2) [OF fl(2)]] by blast
    next
      case False
      then show ?thesis using res ws fl(1) multi WriteString_outcome [OF bw_okD(1) [OF fl(2)] len1]
        by (auto simp: BufWriter_WriteString_def WriteString_fn_def Let_def errors_Is_def split: sum.splits if_splits)
    qed
  qed
qed

end

subsection \<open>The text\<close>

definition value_text :: "('t \<Rightarrow> string) \<Rightarrow> ('t \<Rightarrow> string) \<Rightarrow> 't sval \<Rightarrow> string" where
  "value_text tf tm v = (case v of TimeValue t \<Rightarrow> tf t | _ \<Rightarrow> value_String tm v)"

text \<open>An attribute under the group \<open>grp\<close>, with the handler's time format \<open>tf\<close>.\<close>

function (sequential)
  attr_text :: "string \<Rightarrow> ('t \<Rightarrow> string) \<Rightarrow> ('t \<Rightarrow> string) \<Rightarrow> string \<Rightarrow> 't sval \<Rightarrow> string"
  and group_text :: "string \<Rightarrow> ('t \<Rightarrow> string) \<Rightarrow> ('t \<Rightarrow> string) \<Rightarrow> string \<Rightarrow> (string \<times> 't sval) list \<Rightarrow> string"
where
  "attr_text grp tf tm key v =
     '' '' @ (let key = (if key = [] then ''!BADKEY'' else key)
       in case Resolve v of
            GroupValue as \<Rightarrow> group_text grp tf tm key as
          | value \<Rightarrow> (if grp = [] then [] else grp @ ''.'') @ key @ ''='' @ quoted (value_text tf tm value) @ '' '')"
| "group_text grp tf tm key [] = []"
| "group_text grp tf tm key ((k, v) # as) = attr_text grp tf tm (key @ ''.'' @ k) v @ group_text grp tf tm key as"
  by pat_completeness auto
termination
  by (relation "measure (\<lambda>x. case x of Inl (grp, tf, tm, key, v) \<Rightarrow> size v
      | Inr (grp, tf, tm, key, as) \<Rightarrow> size_list (size_prod (\<lambda>_. 0) size) as)")
    (auto simp: Resolve_def dest: Resolve_group_size)

declare attr_text.simps [simp del]

definition meta_text :: "('t \<Rightarrow> string) \<Rightarrow> 't attr \<Rightarrow> string" where
  "meta_text tm meta =
     '' ['' @ (case Resolve (snd meta) of
         GroupValue as \<Rightarrow> strings_Join (groupValues tm (GroupValue as)) '' ''
       | value \<Rightarrow> (if value_String tm value = [] then ''!EMPTY'' else value_String tm value)) @ '']''"

text \<open>The text of a record: the line, and the line of its source where one is asked for.\<close>

definition format_line :: "'t log_env \<Rightarrow> 't ConsoleHandler \<Rightarrow> 't Record \<Rightarrow> string" where
  "format_line env h r =
     (if enableTime h then timeFormat h (if is_zero env (Time r) then now env else Time r) @ '' '' else [])
     @ levelFormat h (Level r)
     @ concat (map (meta_text (slog_time env)) (metadata h))
     @ '' '' @ Message r
     @ (if preFormatedAttr h = [] then [] else '' '' @ preFormatedAttr h)
     @ concat (map (\<lambda>(k, v). attr_text (groupPrefix h) (timeFormat h) (slog_time env) k v) (Attrs r))
     @ [CHR 0x0A]
     @ (if sourceLevel h \<le> Level r then (case SourceOf r of None \<Rightarrow> [] | Some src \<Rightarrow> source_line (debug env) src) else [])"

subsection \<open>Steps that write a text\<close>

lemma bytes_simps [simp]:
  "bytes [] = []" "bytes (a @ b) = bytes a @ bytes b" "length (bytes a) = length a"
  "bytes [c] = [of_char c]"
  by (simp_all add: bytes_def)

definition conf_of :: "('w, 't) consoleHandlerState \<Rightarrow> string \<times> (int \<Rightarrow> string) \<times> ('t \<Rightarrow> string)" where
  "conf_of s = (cgroup s, clevel s, ctime s)"

text \<open>
  From \<open>s\<close> the text \<open>t\<close> was to be written, and the result is \<open>s'\<close>: nothing after an earlier error; a
  prefix, all of it when there is no error; and when there is room in the buffer, all of it, without an
  error and without a call of the writer.
\<close>

definition wrote :: "('w \<Rightarrow> bool) \<Rightarrow> ('w \<Rightarrow> byte list) \<Rightarrow> string \<Rightarrow> ('w, 't) consoleHandlerState
    \<Rightarrow> ('w, 't) consoleHandlerState \<Rightarrow> bool" where
  "wrote winv sink t s s' \<longleftrightarrow> bw_ok winv (cbuffer s') \<and> conf_of s' = conf_of s
     \<and> bsize (wbuf (cbuffer s')) = bsize (wbuf (cbuffer s)) \<and> bw_frame sink (cbuffer s) (cbuffer s')
     \<and> (if cErr s \<noteq> None then s' = s
        else (\<exists>out. bw_sink sink (cbuffer s') = bw_sink sink (cbuffer s) @ out \<and> prefix out (bytes t)
               \<and> (cErr s' = None \<longrightarrow> out = bytes t))
          \<and> (length t \<le> room (wbuf (cbuffer s)) \<longrightarrow> cErr s' = None \<and> underlay (cbuffer s') = underlay (cbuffer s)
               \<and> room (wbuf (cbuffer s')) = room (wbuf (cbuffer s)) - length t))"

definition can_write :: "('w \<Rightarrow> bool) \<Rightarrow> string \<Rightarrow> ('w, 't) consoleHandlerState \<Rightarrow> bool" where
  "can_write winv t s \<longleftrightarrow> bw_ok winv (cbuffer s) \<and> bsize (wbuf (cbuffer s)) + int (length t) \<le> max_int"

lemma wrote_nothing: "bw_ok winv (cbuffer s) \<Longrightarrow> wrote winv sink [] s s"
  by (simp add: wrote_def)

lemma wrote_stop: "wrote winv sink t s s' \<Longrightarrow> cErr s' \<noteq> None \<Longrightarrow> wrote winv sink (t @ t') s s'"
  by (auto simp: wrote_def split: if_splits)

lemma wrote_trans:
  assumes a: "wrote winv sink t s s1" and b: "wrote winv sink t' s1 s2"
  shows "wrote winv sink (t @ t') s s2"
proof (cases "cErr s = None")
  case False
  with a b show ?thesis by (auto simp: wrote_def)
next
  case True
  show ?thesis
  proof (cases "cErr s1 = None")
    case False
    then have "s2 = s1" using b by (simp add: wrote_def)
    with a False show ?thesis by (simp add: wrote_stop)
  next
    case s1: True
    obtain o1 where o1: "bw_sink sink (cbuffer s1) = bw_sink sink (cbuffer s) @ o1" "o1 = bytes t"
      "length t \<le> room (wbuf (cbuffer s)) \<longrightarrow> underlay (cbuffer s1) = underlay (cbuffer s)
        \<and> room (wbuf (cbuffer s1)) = room (wbuf (cbuffer s)) - length t"
      using a True s1 by (auto simp: wrote_def)
    obtain o2 where o2: "bw_sink sink (cbuffer s2) = bw_sink sink (cbuffer s1) @ o2" "prefix o2 (bytes t')"
      "cErr s2 = None \<longrightarrow> o2 = bytes t'"
      "length t' \<le> room (wbuf (cbuffer s1)) \<longrightarrow> cErr s2 = None \<and> underlay (cbuffer s2) = underlay (cbuffer s1)
        \<and> room (wbuf (cbuffer s2)) = room (wbuf (cbuffer s1)) - length t'"
      using b s1 by (auto simp: wrote_def)
    have "\<exists>out. bw_sink sink (cbuffer s2) = bw_sink sink (cbuffer s) @ out \<and> prefix out (bytes (t @ t'))
        \<and> (cErr s2 = None \<longrightarrow> out = bytes (t @ t'))"
      using o1(1,2) o2(1,2,3) by (intro exI [of _ "o1 @ o2"]) simp
    moreover have "length (t @ t') \<le> room (wbuf (cbuffer s)) \<longrightarrow> cErr s2 = None \<and> underlay (cbuffer s2) = underlay (cbuffer s)
        \<and> room (wbuf (cbuffer s2)) = room (wbuf (cbuffer s)) - length (t @ t')"
      using o1(3) o2(4) by auto
    ultimately show ?thesis using a b True by (auto simp: wrote_def intro: bw_frame_trans)
  qed
qed

lemma can_write_after:
  "can_write winv (t @ t') s \<Longrightarrow> wrote winv sink t s s1 \<Longrightarrow> can_write winv t' s1"
  by (simp add: can_write_def wrote_def)

lemma can_write_prefix: "can_write winv (t @ t') s \<Longrightarrow> can_write winv t s"
  by (simp add: can_write_def)

lemma wrote_conf: "wrote winv sink t s s' \<Longrightarrow> cgroup s' = cgroup s \<and> clevel s' = clevel s \<and> ctime s' = ctime s"
  by (simp add: wrote_def conf_of_def)

context io_full_writer begin

lemma put_string_writes:
  assumes can: "can_write winv t s" and none: "cErr s = None"
  shows "\<exists>s'. put_string wr t s = Some (Inr s') \<and> wrote winv sink t s s'"
proof -
  have ok: "bw_ok winv (cbuffer s)" and len: "bsize (wbuf (cbuffer s)) + int (length (bytes t)) \<le> max_int"
    using can by (simp_all add: can_write_def)
  obtain n e bw where w: "BufWriter_WriteString wr None (cbuffer s) (bytes t) = Some (Inr (n, e, bw))" "bw_ok winv bw"
    "0 \<le> n" "n \<le> int (length (bytes t))" "bw_sink sink bw = bw_sink sink (cbuffer s) @ take (nat n) (bytes t)"
    "bsize (wbuf bw) = bsize (wbuf (cbuffer s))"
    using BufWriter_WriteString_spec [OF ok _ len, of None] by auto
  note same = BufWriter_WriteString_frame [OF ok w(1)]
  have full: "e = None \<longrightarrow> take (nat n) (bytes t) = bytes t" using WriteString_full [OF ok len] w(1) by auto
  have fits: "length t \<le> room (wbuf (cbuffer s)) \<longrightarrow> e = None \<and> underlay bw = underlay (cbuffer s)
      \<and> room (wbuf bw) = room (wbuf (cbuffer s)) - length t"
    using WriteString_fits [OF bw_okD(1) [OF ok] len, of wr None] w(1) by auto
  have "\<exists>out. bw_sink sink bw = bw_sink sink (cbuffer s) @ out \<and> prefix out (bytes t) \<and> (e = None \<longrightarrow> out = bytes t)"
    using w(5) full by (intro exI [of _ "take (nat n) (bytes t)"]) (simp add: take_is_prefix)
  with w fits none same show ?thesis by (simp add: put_string_def wrote_def conf_of_def go_return_def)
qed

lemma put_byte_writes:
  assumes can: "can_write winv [c] s" and none: "cErr s = None"
  shows "\<exists>s'. put_byte wr c s = Some (Inr s') \<and> wrote winv sink [c] s s'"
proof -
  have ok: "bw_ok winv (cbuffer s)" using can by (simp add: can_write_def)
  obtain e bw where w: "BufWriter_WriteByte wr (cbuffer s) (of_char c) = Some (Inr (e, bw))" "bw_ok winv bw"
    "bw_sink sink bw = bw_sink sink (cbuffer s) @ (if e = None then [of_char c] else [])"
    "bsize (wbuf bw) = bsize (wbuf (cbuffer s))"
    using BufWriter_WriteByte_spec [OF ok] by blast
  note same = BufWriter_WriteByte_frame [OF ok w(1)]
  have fits: "1 \<le> room (wbuf (cbuffer s)) \<longrightarrow> e = None \<and> underlay bw = underlay (cbuffer s)
      \<and> room (wbuf bw) = room (wbuf (cbuffer s)) - 1"
    using WriteByte_fits [OF bw_okD(1) [OF ok], of wr "of_char c"] w(1) by auto
  have "\<exists>out. bw_sink sink bw = bw_sink sink (cbuffer s) @ out \<and> prefix out (bytes [c]) \<and> (e = None \<longrightarrow> out = bytes [c])"
    using w(3) by (intro exI [of _ "if e = None then bytes [c] else []"]) simp
  with w fits none same show ?thesis by (simp add: put_byte_def wrote_def conf_of_def go_return_def)
qed

lemma state_Write_writes:
  assumes can: "can_write winv t s"
  shows "\<exists>s'. state_Write wr t s = Some (Inr s') \<and> wrote winv sink t s s'"
proof (cases "cErr s = None")
  case False
  then show ?thesis using can by (simp add: state_Write_def go_return_def wrote_def can_write_def)
next
  case True
  have ok: "bw_ok winv (cbuffer s)" using can by (simp add: can_write_def)
  obtain n e bw where w: "BufWriter_Write wr (cbuffer s) (bytes t) = Some (Inr (n, e, bw))" "bw_ok winv bw"
    "0 \<le> n" "n \<le> int (length (bytes t))" "bw_sink sink bw = bw_sink sink (cbuffer s) @ take (nat n) (bytes t)"
    "bsize (wbuf bw) = bsize (wbuf (cbuffer s))"
    "(\<forall>ws q m ws'. winv ws \<longrightarrow> wr ws q = Inr (m, None, ws') \<longrightarrow> m = int (length q)) \<longrightarrow> e = None
        \<longrightarrow> n = int (length (bytes t))"
    using BufWriter_Write_spec [OF ok] by blast
  note same = BufWriter_Write_frame [OF ok w(1)]
  have full: "e = None \<longrightarrow> take (nat n) (bytes t) = bytes t" using w(7) write_full by auto
  have fits: "length t \<le> room (wbuf (cbuffer s)) \<longrightarrow> e = None \<and> underlay bw = underlay (cbuffer s)
      \<and> room (wbuf bw) = room (wbuf (cbuffer s)) - length t"
    using Write_fits [OF bw_okD(1) [OF ok], of "bytes t" wr] w(1) by auto
  have "\<exists>out. bw_sink sink bw = bw_sink sink (cbuffer s) @ out \<and> prefix out (bytes t) \<and> (e = None \<longrightarrow> out = bytes t)"
    using w(5) full by (intro exI [of _ "take (nat n) (bytes t)"]) (simp add: take_is_prefix)
  with w fits True same show ?thesis by (simp add: state_Write_def wrote_def conf_of_def go_return_def)
qed

lemma guarded_writes:
  assumes can: "can_write winv t s" and m: "cErr s = None \<Longrightarrow> \<exists>s'. m s = Some (Inr s') \<and> wrote winv sink t s s'"
  shows "\<exists>s'. (if cErr s \<noteq> None then go_return s else m s) = Some (Inr s') \<and> wrote winv sink t s s'"
  using assms by (auto simp: go_return_def wrote_def can_write_def)

lemma Space_writes: "can_write winv '' '' s \<Longrightarrow> \<exists>s'. Space wr s = Some (Inr s') \<and> wrote winv sink '' '' s s'"
  unfolding Space_def by (rule guarded_writes, assumption, rule put_byte_writes)

lemma NextLine_writes:
  "can_write winv [CHR 0x0A] s \<Longrightarrow> \<exists>s'. NextLine wr s = Some (Inr s') \<and> wrote winv sink [CHR 0x0A] s s'"
  unfolding NextLine_def by (rule guarded_writes, assumption, rule put_byte_writes)

lemma WriteTime_writes:
  "can_write winv (ctime s t) s \<Longrightarrow> \<exists>s'. WriteTime wr t s = Some (Inr s') \<and> wrote winv sink (ctime s t) s s'"
  unfolding WriteTime_def by (rule guarded_writes, assumption, rule put_string_writes)

lemma WriteLevel_writes:
  "can_write winv (clevel s l) s \<Longrightarrow> \<exists>s'. WriteLevel wr l s = Some (Inr s') \<and> wrote winv sink (clevel s l) s s'"
  unfolding WriteLevel_def by (rule guarded_writes, assumption, rule put_string_writes)

lemma state_WriteString_writes:
  "can_write winv t s \<Longrightarrow> \<exists>s'. state_WriteString wr t s = Some (Inr s') \<and> wrote winv sink t s s'"
  unfolding state_WriteString_def by (rule guarded_writes, assumption, rule put_string_writes)

lemma writeElement_writes:
  assumes can: "can_write winv (t @ sfx) s" and sfx: "sfx = (case c of None \<Rightarrow> [] | Some x \<Rightarrow> [x])"
  shows "\<exists>s'. writeElement wr t c s = Some (Inr s') \<and> wrote winv sink (t @ sfx) s s'"
proof (cases "cErr s = None")
  case False
  then show ?thesis using can by (simp add: writeElement_def go_return_def wrote_def can_write_def)
next
  case True
  have "\<exists>s1. (if length t > 0 then put_string wr t s else go_return s) = Some (Inr s1) \<and> wrote winv sink t s s1"
    using put_string_writes [OF can_write_prefix [OF can] True] can True
    by (cases t) (auto simp: go_return_def wrote_nothing can_write_def)
  then obtain s1 where s1: "(if length t > 0 then put_string wr t s else go_return s) = Some (Inr s1)" "wrote winv sink t s s1"
    by blast
  show ?thesis
  proof (cases "cErr s1 = None")
    case False
    then show ?thesis using True s1 wrote_stop [OF s1(2)] by (auto simp: writeElement_def go_return_def)
  next
    case none: True
    have "\<exists>s2. (case c of None \<Rightarrow> go_return s1 | Some x \<Rightarrow> put_byte wr x s1) = Some (Inr s2) \<and> wrote winv sink sfx s1 s2"
      using put_byte_writes [OF _ none] can_write_after [OF can s1(2)] sfx
      by (cases c) (auto simp: go_return_def wrote_nothing can_write_def)
    then show ?thesis using True none s1 wrote_trans [OF s1(2)] by (auto simp: writeElement_def)
  qed
qed

text \<open>What follows the leading space of an attribute that is not a group.\<close>

definition plain_text :: "string \<Rightarrow> string \<Rightarrow> string \<Rightarrow> string" where
  "plain_text grp key str = (if grp = [] then [] else grp @ ''.'') @ key @ ''='' @ quoted str @ '' ''"

lemma plain_writes:
  assumes can: "can_write winv (plain_text (cgroup s) key (pv (ctime s))) s" and none: "cErr s = None"
  shows "\<exists>s'. go_bind (if length (cgroup s) \<noteq> 0 then writeElement wr (cgroup s) (Some CHR ''.'') s else go_return s)
      (\<lambda>s2. if cErr s2 \<noteq> None then go_return (False, s2)
        else go_bind (writeElement wr (key @ ''='' @ quoted (pv (ctime s2))) (Some CHR '' '') s2) (\<lambda>s3. go_return (cErr s3 = None, s3)))
      = Some (Inr (cErr s' = None, s')) \<and> wrote winv sink (plain_text (cgroup s) key (pv (ctime s))) s s'"
proof -
  define str where "str = pv (ctime s)"
  define g where "g = (if cgroup s = [] then [] else cgroup s @ ''.'')"
  define t where "t = key @ ''='' @ quoted str @ '' ''"
  have split: "plain_text (cgroup s) key (pv (ctime s)) = g @ t" by (simp add: plain_text_def g_def t_def str_def)
  have c: "can_write winv g s" using can unfolding split by (rule can_write_prefix)
  have "\<exists>s1. (if length (cgroup s) \<noteq> 0 then writeElement wr (cgroup s) (Some CHR ''.'') s else go_return s) = Some (Inr s1)
      \<and> wrote winv sink g s s1"
  proof (cases "cgroup s = []")
    case True
    with c show ?thesis by (simp add: g_def go_return_def wrote_nothing can_write_def)
  next
    case False
    then have g: "g = cgroup s @ ''.''" by (simp add: g_def)
    have "\<exists>s1. writeElement wr (cgroup s) (Some CHR ''.'') s = Some (Inr s1) \<and> wrote winv sink g s s1"
      using writeElement_writes [OF c [unfolded g], of "Some CHR ''.''"] unfolding g by simp
    with False show ?thesis by simp
  qed
  then obtain s1 where s1: "(if length (cgroup s) \<noteq> 0 then writeElement wr (cgroup s) (Some CHR ''.'') s else go_return s) = Some (Inr s1)"
    "wrote winv sink g s s1" by blast
  show ?thesis
  proof (cases "cErr s1 = None")
    case False
    then have e: "(cErr s1 = None) = False" by simp
    have w: "wrote winv sink (g @ t) s s1" using wrote_stop [OF s1(2) False] .
    show ?thesis unfolding split s1(1)
      by (rule exI [of _ s1]) (simp only: w go_bind_simps e go_return_def not_False_eq_True if_True simp_thms)
  next
    case True
    have t: "(key @ ''='' @ quoted str) @ '' '' = t" by (simp add: t_def)
    have can1: "can_write winv ((key @ ''='' @ quoted str) @ '' '') s1"
      unfolding t using can_write_after [of winv g t s sink s1] can s1(2) unfolding split by blast
    have "\<exists>s2. writeElement wr (key @ ''='' @ quoted str) (Some CHR '' '') s1 = Some (Inr s2) \<and> wrote winv sink t s1 s2"
      using writeElement_writes [OF can1, of "Some CHR '' ''"] unfolding t by simp
    then obtain s2 where s2: "writeElement wr (key @ ''='' @ quoted str) (Some CHR '' '') s1 = Some (Inr s2)" "wrote winv sink t s1 s2"
      by blast
    have pv: "pv (ctime s1) = str" using wrote_conf [OF s1(2)] by (simp add: str_def)
    have e: "(cErr s1 \<noteq> None) = False" using True by simp
    have w: "wrote winv sink (g @ t) s s2" using wrote_trans [OF s1(2) s2(2)] .
    show ?thesis unfolding split s1(1)
      by (rule exI [of _ s2]) (simp only: w pv s2(1) go_bind_simps e go_return_def if_False simp_thms)
  qed
qed

lemma WriteAttr_writes:
  "f = wr \<Longrightarrow> can_write winv (attr_text (cgroup s) (ctime s) tm key v) s \<Longrightarrow>
    \<exists>s'. WriteAttr f tm key v s = Some (Inr (cErr s' = None, s'))
      \<and> wrote winv sink (attr_text (cgroup s) (ctime s) tm key v) s s'"
  "f = wr \<Longrightarrow> can_write winv (group_text (cgroup s) (ctime s) tm key as) s \<Longrightarrow> cErr s = None \<Longrightarrow>
    \<exists>s'. WriteGroup f tm key as s = Some (Inr (cErr s' = None, s'))
      \<and> wrote winv sink (group_text (cgroup s) (ctime s) tm key as) s s'"
proof (induction f tm key v s and f tm key as s rule: WriteAttr_WriteGroup.induct)
  case (1 f tm key v s)
  define key' where "key' = (if key = [] then ''!BADKEY'' else key)"
  define rest where "rest = (case Resolve v of
            GroupValue as \<Rightarrow> group_text (cgroup s) (ctime s) tm key' as
          | value \<Rightarrow> plain_text (cgroup s) key' (value_text (ctime s) tm value))"
  have eqn: "attr_text (cgroup s) (ctime s) tm key v = '' '' @ rest"
    by (subst attr_text.simps) (simp add: rest_def key'_def Let_def plain_text_def split: sval.split)
  show ?case
  proof (cases "cErr s = None")
    case False
    then show ?thesis using "1.prems" by (subst WriteAttr.simps) (auto simp: go_return_def wrote_def can_write_def)
  next
    case True
    obtain s1 where s1: "Space wr s = Some (Inr s1)" "wrote winv sink '' '' s s1"
      using Space_writes [OF can_write_prefix, of rest s] "1.prems"(2) unfolding eqn by blast
    show ?thesis
    proof (cases "cErr s1 = None")
      case False
      then show ?thesis unfolding eqn using True s1 wrote_stop [OF s1(2)]
        unfolding "1.prems"(1) by (subst WriteAttr.simps) (auto simp: go_return_def)
    next
      case none: True
      have can: "can_write winv rest s1" using can_write_after [OF _ s1(2), of rest] "1.prems"(2) unfolding eqn by simp
      have conf: "cgroup s1 = cgroup s" "ctime s1 = ctime s" using wrote_conf [OF s1(2)] by simp_all
      let ?K = "(case Resolve v of
               GroupValue as \<Rightarrow> WriteGroup wr tm key' as s1
             | value \<Rightarrow>
                 go_bind (if length (cgroup s1) \<noteq> 0 then writeElement wr (cgroup s1) (Some CHR ''.'') s1 else go_return s1)
                   (\<lambda>s2. if cErr s2 \<noteq> None then go_return (False, s2)
                     else let valueStr = (case value of TimeValue t \<Rightarrow> ctime s2 t | _ \<Rightarrow> value_String tm value)
                       in go_bind (writeElement wr (key' @ ''='' @ quoted valueStr) (Some CHR '' '') s2)
                            (\<lambda>s3. go_return (cErr s3 = None, s3))))"
      have call: "WriteAttr f tm key v s = ?K"
        unfolding "1.prems"(1) by (subst WriteAttr.simps)
          (simp only: True none s1(1) go_bind_simps key'_def [symmetric] Let_def simp_thms if_False)
      have "\<exists>s'. ?K = Some (Inr (cErr s' = None, s'))
          \<and> wrote winv sink rest s1 s'"
      proof (cases "Resolve v")
        case (GroupValue as)
        then have r: "rest = group_text (cgroup s1) (ctime s1) tm key' as" by (simp add: rest_def conf)
        from "1.IH" [of s1 key' as] True s1(1) none GroupValue can "1.prems"(1)
        show ?thesis unfolding r by (simp add: key'_def)
      next
        case (StringValue x)
        then have r: "rest = plain_text (cgroup s1) key' (x)" by (simp add: rest_def value_text_def conf)
        show ?thesis unfolding r StringValue sval.case Let_def value_String.simps
          by (rule plain_writes [of s1 key' "\<lambda>_. x", OF can [unfolded r] none])
      next
        case (TimeValue x)
        then have r: "rest = plain_text (cgroup s1) key' (ctime s1 x)" by (simp add: rest_def value_text_def conf)
        show ?thesis unfolding r TimeValue sval.case Let_def value_String.simps
          by (rule plain_writes [of s1 key' "\<lambda>f. f x", OF can [unfolded r] none])
      next
        case (TextValue x)
        then have r: "rest = plain_text (cgroup s1) key' (x)" by (simp add: rest_def value_text_def conf)
        show ?thesis unfolding r TextValue sval.case Let_def value_String.simps
          by (rule plain_writes [of s1 key' "\<lambda>_. x", OF can [unfolded r] none])
      next
        case (LogValuer a x)
        then have r: "rest = plain_text (cgroup s1) key' (a)" by (simp add: rest_def value_text_def conf)
        show ?thesis unfolding r LogValuer sval.case Let_def value_String.simps
          by (rule plain_writes [of s1 key' "\<lambda>_. a", OF can [unfolded r] none])
      qed
      then obtain s' where s': "?K = Some (Inr (cErr s' = None, s'))" "wrote winv sink rest s1 s'" by blast
      show ?thesis unfolding eqn call by (rule exI [of _ s'], rule conjI, rule s'(1), rule wrote_trans [OF s1(2) s'(2)])
    qed
  qed
next
  case (2 f tm key s)
  then show ?case by (auto simp: go_return_def wrote_nothing can_write_def)
next
  case (3 f tm key k v as s)
  define t where "t = attr_text (cgroup s) (ctime s) tm (key @ ''.'' @ k) v"
  have eqn: "group_text (cgroup s) (ctime s) tm key ((k, v) # as) = t @ group_text (cgroup s) (ctime s) tm key as"
    by (simp add: t_def)
  obtain s1 where s1: "WriteAttr f tm (key @ ''.'' @ k) v s = Some (Inr (cErr s1 = None, s1))" "wrote winv sink t s s1"
    using "3.IH"(1) [OF "3.prems"(1) can_write_prefix [OF "3.prems"(2) [unfolded eqn], unfolded t_def]] unfolding t_def by blast
  show ?case
  proof (cases "cErr s1 = None")
    case False
    then have "WriteGroup f tm key ((k, v) # as) s = Some (Inr (cErr s1 = None, s1))" using s1(1) by (simp add: go_return_def)
    with wrote_stop [OF s1(2) False] show ?thesis unfolding eqn by blast
  next
    case True
    have conf: "cgroup s1 = cgroup s" "ctime s1 = ctime s" using wrote_conf [OF s1(2)] by simp_all
    have "can_write winv (group_text (cgroup s1) (ctime s1) tm key as) s1"
      using can_write_after [OF "3.prems"(2) [unfolded eqn] s1(2)] by (simp add: conf)
    from "3.IH"(2) [OF s1(1) [unfolded True simp_thms] refl _ "3.prems"(1) this True] obtain s2 where
      "WriteGroup f tm key as s1 = Some (Inr (cErr s2 = None, s2))" "wrote winv sink (group_text (cgroup s) (ctime s) tm key as) s1 s2"
      unfolding conf by auto
    with True s1 wrote_trans [OF s1(2)] show ?thesis unfolding eqn by auto
  qed
qed

lemma record_Attrs_writes:
  "can_write winv (concat (map (\<lambda>(k, v). attr_text (cgroup s) (ctime s) tm k v) as)) s \<Longrightarrow>
    \<exists>s'. record_Attrs wr tm as s = Some (Inr s')
      \<and> wrote winv sink (concat (map (\<lambda>(k, v). attr_text (cgroup s) (ctime s) tm k v) as)) s s'"
proof (induction as arbitrary: s)
  case Nil
  then show ?case by (auto simp: go_return_def wrote_nothing can_write_def)
next
  case (Cons a as)
  obtain k v where a: "a = (k, v)" by (cases a)
  define t where "t = attr_text (cgroup s) (ctime s) tm k v"
  define u where "u = concat (map (\<lambda>(k, v). attr_text (cgroup s) (ctime s) tm k v) as)"
  have eqn: "concat (map (\<lambda>(k, v). attr_text (cgroup s) (ctime s) tm k v) (a # as)) = t @ u"
    by (simp add: t_def u_def a)
  obtain s1 where s1: "WriteAttr wr tm k v s = Some (Inr (cErr s1 = None, s1))" "wrote winv sink t s s1"
    using WriteAttr_writes(1) [OF refl can_write_prefix [OF Cons.prems [unfolded eqn], unfolded t_def]] unfolding t_def by blast
  have conf: "cgroup s1 = cgroup s" "ctime s1 = ctime s" using wrote_conf [OF s1(2)] by simp_all
  show ?case
  proof (cases "cErr s1 = None")
    case False
    then have e: "(cErr s1 = None) = False" by simp
    show ?thesis unfolding eqn using s1(1) [unfolded e] wrote_stop [OF s1(2) False, of u]
      by (intro exI [of _ s1]) (simp add: a go_return_def)
  next
    case True
    have "can_write winv u s1" using can_write_after [OF Cons.prems [unfolded eqn] s1(2)] .
    then obtain s2 where "record_Attrs wr tm as s1 = Some (Inr s2)" "wrote winv sink u s1 s2"
      using Cons.IH [of s1] unfolding u_def conf by blast
    then show ?thesis unfolding eqn using s1 True wrote_trans [OF s1(2), of u s2]
      by (intro exI [of _ s2]) (simp add: a)
  qed
qed

lemma Source_writes:
  "can_write winv (source_line dbg src) s \<Longrightarrow>
    \<exists>s'. Source wr dbg src s = Some (Inr s') \<and> wrote winv sink (source_line dbg src) s s'"
  unfolding Source_def
  using writeElement_writes [of "source_line dbg src" "[]" s None] by (intro guarded_writes) auto

lemma WriteMeta_writes:
  assumes can: "can_write winv (meta_text tm meta) s"
  shows "\<exists>s'. WriteMeta wr tm meta s = Some (Inr s') \<and> wrote winv sink (meta_text tm meta) s s'"
proof -
  define body where "body = (case Resolve (snd meta) of
         GroupValue as \<Rightarrow> strings_Join (groupValues tm (GroupValue as)) '' ''
       | value \<Rightarrow> (if value_String tm value = [] then ''!EMPTY'' else value_String tm value))"
  define u where "u = ''['' @ body @ '']''"
  have eqn: "meta_text tm meta = '' '' @ u" by (simp add: meta_text_def u_def body_def)
  have call: "WriteMeta wr tm meta s = (if cErr s \<noteq> None then go_return s
      else go_bind (Space wr s) (\<lambda>s1. if cErr s1 \<noteq> None then go_return s1 else writeElement wr u None s1))"
    by (cases "Resolve (snd meta)") (simp_all add: WriteMeta_def u_def body_def Let_def cong: if_cong)
  show ?thesis unfolding call
  proof (rule guarded_writes [OF can])
    assume none: "cErr s = None"
    obtain s1 where s1: "Space wr s = Some (Inr s1)" "wrote winv sink '' '' s s1"
      using Space_writes [OF can_write_prefix [OF can [unfolded eqn]]] by blast
    show "\<exists>s'. go_bind (Space wr s) (\<lambda>s1. if cErr s1 \<noteq> None then go_return s1 else writeElement wr u None s1) = Some (Inr s')
        \<and> wrote winv sink (meta_text tm meta) s s'"
    proof (cases "cErr s1 = None")
      case False
      then show ?thesis unfolding eqn using s1(1) wrote_stop [OF s1(2) False, of u]
        by (intro exI [of _ s1]) (simp add: go_return_def)
    next
      case True
      have "can_write winv (u @ []) s1" using can_write_after [OF can [unfolded eqn] s1(2)] by simp
      then obtain s2 where "writeElement wr u None s1 = Some (Inr s2)" "wrote winv sink u s1 s2"
        using writeElement_writes [of u "[]" s1 None] by auto
      then show ?thesis unfolding eqn using s1 True wrote_trans [OF s1(2), of u s2]
        by (intro exI [of _ s2]) simp
    qed
  qed
qed

text \<open>The result of a handler that was to write \<open>t\<close>: the error it returns is the state's.\<close>

definition handled :: "string \<Rightarrow> ('a, 't) consoleHandlerState
    \<Rightarrow> (go_error option \<times> ('a, 't) consoleHandlerState) go option \<Rightarrow> bool" where
  "handled t s res \<longleftrightarrow> (\<exists>err s'. res = Some (Inr (err, s')) \<and> wrote winv sink t s s' \<and> (err = None \<longleftrightarrow> cErr s' = None))"

lemma step_plain:
  assumes T: "T = t @ t1 @ u" and can: "can_write winv T s0" and w: "wrote winv sink t s0 s"
    and m: "can_write winv t1 s \<Longrightarrow> \<exists>s1. m = Some (Inr s1) \<and> wrote winv sink t1 s s1"
    and k: "\<And>s1. wrote winv sink (t @ t1) s0 s1 \<Longrightarrow> handled T s0 (k s1)"
  shows "handled T s0 (go_bind m k)"
proof -
  have "can_write winv t1 s" using can_write_prefix [OF can_write_after [OF can [unfolded T] w]] .
  then obtain s1 where "m = Some (Inr s1)" "wrote winv sink t1 s s1" using m by blast
  then show ?thesis using k [OF wrote_trans [OF w]] by simp
qed

lemma step_checked:
  assumes T: "T = t @ t1 @ u" and can: "can_write winv T s0" and w: "wrote winv sink t s0 s"
    and m: "can_write winv t1 s \<Longrightarrow> \<exists>s1. m = Some (Inr s1) \<and> wrote winv sink t1 s s1"
    and k: "\<And>s1. wrote winv sink (t @ t1) s0 s1 \<Longrightarrow> cErr s1 = None \<Longrightarrow> handled T s0 (k s1)"
  shows "handled T s0 (go_bind m (\<lambda>s1. checked due s1 (k s1)))"
proof (rule step_plain [OF T can w m])
  fix s1 assume w1: "wrote winv sink (t @ t1) s0 s1"
  show "handled T s0 (checked due s1 (k s1))"
  proof (cases "cErr s1 = None")
    case True
    then show ?thesis using k [OF w1] by (simp add: checked_def)
  next
    case False
    have "wrote winv sink T s0 s1" using wrote_stop [OF w1 False, of u] by (simp add: T)
    with False show ?thesis by (simp add: checked_def handled_def go_return_def)
  qed
qed

lemma write_metas_writes:
  "can_write winv (concat (map (meta_text (slog_time env)) ms)) s \<Longrightarrow> cErr s = None \<Longrightarrow>
    handled (concat (map (meta_text (slog_time env)) ms)) s (write_metas env wr i ms s)"
proof (induction ms arbitrary: i s)
  case Nil
  then show ?case by (auto simp: handled_def go_return_def wrote_nothing can_write_def)
next
  case (Cons m ms)
  let ?t = "meta_text (slog_time env) m" and ?u = "concat (map (meta_text (slog_time env)) ms)"
  have can: "can_write winv (?t @ ?u) s" using Cons.prems(1) by simp
  obtain s1 where s1: "WriteMeta wr (slog_time env) m s = Some (Inr s1)" "wrote winv sink ?t s s1"
    using WriteMeta_writes [OF can_write_prefix [OF can]] by blast
  show ?case
  proof (cases "cErr s1 = None")
    case False
    then show ?thesis using s1(1) wrote_stop [OF s1(2) False, of ?u] by (simp add: checked_def handled_def go_return_def)
  next
    case True
    have "handled ?u s1 (write_metas env wr (Suc i) ms s1)" by (rule Cons.IH [OF can_write_after [OF can s1(2)] True])
    then obtain err s2 where "write_metas env wr (Suc i) ms s1 = Some (Inr (err, s2))" "wrote winv sink ?u s1 s2"
      "err = None \<longleftrightarrow> cErr s2 = None" unfolding handled_def by (elim exE conjE) (rule that)
    then show ?thesis using s1(1) True wrote_trans [OF s1(2), of ?u s2] by (simp add: checked_def handled_def)
  qed
qed

lemma return_writes: "can_write winv [] s \<Longrightarrow> \<exists>s1. go_return s = Some (Inr s1) \<and> wrote winv sink [] s s1"
  by (simp add: go_return_def wrote_nothing can_write_def)

lemma step_metas:
  assumes T: "T = t @ concat (map (meta_text (slog_time env)) ms) @ u" and can: "can_write winv T s0"
    and w: "wrote winv sink t s0 s" and none: "cErr s = None"
    and k: "\<And>s1. wrote winv sink (t @ concat (map (meta_text (slog_time env)) ms)) s0 s1 \<Longrightarrow> handled T s0 (k s1)"
  shows "handled T s0 (go_bind (write_metas env wr i ms s)
      (\<lambda>(merr, s4). if merr \<noteq> None then go_return (merr, s4) else k s4))"
proof -
  let ?m = "concat (map (meta_text (slog_time env)) ms)"
  have "can_write winv ?m s" using can_write_prefix [OF can_write_after [OF can [unfolded T] w]] .
  from write_metas_writes [OF this none, of i] obtain err s1 where
    s1: "write_metas env wr i ms s = Some (Inr (err, s1))" "wrote winv sink ?m s s1" "err = None \<longleftrightarrow> cErr s1 = None"
    unfolding handled_def by (elim exE conjE) (rule that)
  note w1 = wrote_trans [OF w s1(2)]
  show ?thesis
  proof (cases "err = None")
    case True
    then show ?thesis using s1(1) k [OF w1] by simp
  next
    case False
    then have "cErr s1 \<noteq> None" using s1(3) by simp
    from wrote_stop [OF w1 this, of u] have "wrote winv sink T s0 s1" by (simp add: T)
    with False s1 show ?thesis by (auto simp: handled_def go_return_def)
  qed
qed

lemma Handle_body_writes:
  assumes can: "can_write winv (format_line env h r) s0" and none: "cErr s0 = None"
    and conf: "cgroup s0 = groupPrefix h" "clevel s0 = levelFormat h" "ctime s0 = timeFormat h"
  shows "handled (format_line env h r) s0 (Handle_body env wr h r s0)"
proof -
  define T where "T = format_line env h r"
  define tm where "tm = (if is_zero env (Time r) then now env else Time r)"
  define t1 where "t1 = (if enableTime h then timeFormat h tm else [])"
  define t2 where "t2 = (if enableTime h then '' '' else [])"
  define t3 where "t3 = levelFormat h (Level r)"
  define t4 where "t4 = concat (map (meta_text (slog_time env)) (metadata h))"
  define t7 where "t7 = (if preFormatedAttr h = [] then [] else '' '' @ preFormatedAttr h)"
  define t8 where "t8 = concat (map (\<lambda>(k, v). attr_text (groupPrefix h) (timeFormat h) (slog_time env) k v) (Attrs r))"
  define t10 where "t10 = (if sourceLevel h \<le> Level r
    then (case SourceOf r of None \<Rightarrow> [] | Some src \<Rightarrow> source_line (debug env) src) else [])"
  have T: "T = t1 @ t2 @ t3 @ t4 @ '' '' @ Message r @ t7 @ t8 @ [CHR 0x0A] @ t10"
    by (simp add: T_def format_line_def t1_def t2_def t3_def t4_def t7_def t8_def t10_def tm_def)
  have can: "can_write winv T s0" using can by (simp add: T_def)
  have w0: "wrote winv sink [] s0 s0" using can by (simp add: wrote_nothing can_write_def)
  have pre_writes: "\<exists>s'. (if length (preFormatedAttr h) \<noteq> 0
      then go_bind (Space wr s) (state_Write wr (preFormatedAttr h)) else go_return s) = Some (Inr s') \<and> wrote winv sink t7 s s'"
    if can7: "can_write winv t7 s" for s
  proof (cases "preFormatedAttr h = []")
    case True
    with can7 return_writes [of s] show ?thesis by (simp add: t7_def)
  next
    case False
    then have c: "can_write winv ('' '' @ preFormatedAttr h) s" using can7 by (simp add: t7_def)
    obtain s1 where s1: "Space wr s = Some (Inr s1)" "wrote winv sink '' '' s s1"
      using Space_writes [OF can_write_prefix [OF c]] by blast
    obtain s2 where s2: "state_Write wr (preFormatedAttr h) s1 = Some (Inr s2)" "wrote winv sink (preFormatedAttr h) s1 s2"
      using state_Write_writes [OF can_write_after [OF c s1(2)]] by blast
    show ?thesis using False s1(1) s2(1) wrote_trans [OF s1(2) s2(2)] by (intro exI [of _ s2]) (simp add: t7_def)
  qed
  have body: "handled T s0 (Handle_body env wr h r s0)"
    unfolding Handle_body_def tm_def [symmetric]
    apply (rule step_checked [where t = "[]" and ?t1.0 = "t1" and u = "t2 @ t3 @ t4 @ '' '' @ Message r @ t7 @ t8 @ [CHR 0x0A] @ t10"])
        apply (simp add: T)
       apply (rule can)
      apply (rule w0; fail)
     subgoal using WriteTime_writes [of s0 tm] return_writes [of s0] conf by (cases "enableTime h") (simp_all add: t1_def)
    subgoal for s1
     apply (rule step_plain [where t = "t1" and ?t1.0 = "t2" and u = "t3 @ t4 @ '' '' @ Message r @ t7 @ t8 @ [CHR 0x0A] @ t10" and s = s1])
         apply (simp add: T)
        apply (rule can)
       apply (simp add: t4_def; fail)
      subgoal using Space_writes [of s1] return_writes [of s1] by (cases "enableTime h") (simp_all add: t2_def)
     subgoal for s2
      apply (rule step_checked [where t = "t1 @ t2" and ?t1.0 = "t3" and u = "t4 @ '' '' @ Message r @ t7 @ t8 @ [CHR 0x0A] @ t10" and s = s2])
          apply (simp add: T)
         apply (rule can)
        apply (simp add: t4_def; fail)
       subgoal using WriteLevel_writes [of s2 "Level r"] wrote_conf [of winv sink _ s0 s2] conf by (simp add: t3_def)
      subgoal for s3
       apply (rule step_metas [where t = "t1 @ t2 @ t3" and u = "'' '' @ Message r @ t7 @ t8 @ [CHR 0x0A] @ t10" and s = s3])
           apply (simp add: T t4_def)
          apply (rule can)
         apply (simp add: t4_def; fail)
        apply assumption
       subgoal for s4
        apply (rule step_plain [where t = "t1 @ t2 @ t3 @ t4" and ?t1.0 = "'' ''" and u = "Message r @ t7 @ t8 @ [CHR 0x0A] @ t10" and s = s4])
            apply (simp add: T)
           apply (rule can)
          apply (simp add: t4_def; fail)
         subgoal by (rule Space_writes)
        subgoal for s5
         apply (rule step_checked [where t = "t1 @ t2 @ t3 @ t4 @ '' ''" and ?t1.0 = "Message r" and u = "t7 @ t8 @ [CHR 0x0A] @ t10" and s = s5])
             apply (simp add: T)
            apply (rule can)
           apply (simp add: t4_def; fail)
          subgoal by (rule state_WriteString_writes)
         subgoal for s6
          apply (rule step_checked [where t = "t1 @ t2 @ t3 @ t4 @ '' '' @ Message r" and ?t1.0 = "t7" and u = "t8 @ [CHR 0x0A] @ t10" and s = s6])
              apply (simp add: T)
             apply (rule can)
            apply (simp add: t4_def; fail)
           subgoal using pre_writes [of s6] by simp
          subgoal for s7
           apply (rule step_checked [where t = "t1 @ t2 @ t3 @ t4 @ '' '' @ Message r @ t7" and ?t1.0 = "t8" and u = "[CHR 0x0A] @ t10" and s = s7])
               apply (simp add: T)
              apply (rule can)
             apply (simp add: t4_def; fail)
            subgoal using record_Attrs_writes [of s7 "slog_time env" "Attrs r"] wrote_conf [of winv sink _ s0 s7] conf by (simp add: t8_def)
           subgoal for s8
            apply (rule step_checked [where t = "t1 @ t2 @ t3 @ t4 @ '' '' @ Message r @ t7 @ t8" and ?t1.0 = "[CHR 0x0A]" and u = "t10"])
                apply (simp add: T)
               apply (rule can)
              apply (simp add: t4_def; fail)
             subgoal by (rule NextLine_writes)
            subgoal for s9
             apply (rule step_plain [where t = "t1 @ t2 @ t3 @ t4 @ '' '' @ Message r @ t7 @ t8 @ [CHR 0x0A]" and ?t1.0 = "t10" and u = "[]"])
                 apply (simp add: T)
                apply (rule can)
               apply (simp add: t4_def; fail)
              subgoal using Source_writes [of "debug env" _ s9] return_writes [of s9] by (auto simp: t10_def split: option.splits)
             subgoal for s10
              by (auto simp: handled_def go_return_def T)
             done
            done
           done
          done
         done
        done
       done
      done
     done
    done
  then show ?thesis by (simp add: T_def)
qed

end

end
