(* ===== verification/ConsoleWrite.thy ===== *)
theory ConsoleWrite
  imports ConsoleLine
begin

text \<open>
  \<^verbatim>\<open>ConsoleHandler.Handle\<close> from the new state to the freed one: what reaches the writer, which errors
  are returned and which only go to the package's own logger.
\<close>

subsection \<open>Before and after the line\<close>

lemma NewSize_bsize: "NewSize choice sz al = Inr (b, al') \<Longrightarrow> bsize b = sz"
  by (auto simp: NewSize_def zero_Buffer_def split: if_splits sum.splits)

lemma Flush_once:
  assumes wf: "buf_wf (wbuf bw)" and ne: "contents (wbuf bw) \<noteq> []"
    and wr: "wr (underlay bw) (contents (wbuf bw)) = Inr (n, e, w1)" and full: "e = None \<longrightarrow> n = int (length (contents (wbuf bw)))"
  shows "\<exists>bw'. Flush wr bw = Some (Inr (if e = None then None else Some (Cause e ''flush''), bw')) \<and> underlay bw' = w1"
proof -
  have L: "Len (wbuf bw) \<noteq> 0" "\<not> Empty (wbuf bw)"
    using ne Len_zero_iff [OF wf] contents_Nil_iff [OF wf] by simp_all
  have "\<exists>n' b'. WriteTo wr (wbuf bw) (underlay bw) = Some (Inr (n', e, b', w1))"
  proof (cases "e = None")
    case False
    then show ?thesis using L wr by (simp add: WriteTo_def, subst WriteTo_loop.simps) (simp add: Bytes_eq [OF wf] Let_def)
  next
    case True
    then have n: "n = int (length (contents (wbuf bw)))" using full by simp
    have b: "buf_wf (consumed (wbuf bw) n)" "contents (consumed (wbuf bw) n) = []"
      using consumed_facts [OF wf, of n] n by simp_all
    then have "Empty (consumed (wbuf bw) n)" using contents_Nil_iff [OF b(1)] by simp
    then show ?thesis using True L wr by (simp add: WriteTo_def, subst WriteTo_loop.simps) (simp add: Bytes_eq [OF wf] Let_def)
  qed
  then show ?thesis using L by (auto simp: Flush_def)
qed

context io_full_writer begin

lemma newState_spec:
  assumes heap: "heap_ok al" and w: "winv w"
  shows "\<exists>s al'. newState choice h w al = Inr (s, al') \<and> heap_ok al' \<and> bw_ok winv (cbuffer s) \<and> cErr s = None
    \<and> cgroup s = groupPrefix h \<and> clevel s = levelFormat h \<and> ctime s = timeFormat h \<and> underlay (cbuffer s) = w
    \<and> contents (wbuf (cbuffer s)) = [] \<and> room (wbuf (cbuffer s)) = 16384 \<and> bsize (wbuf (cbuffer s)) = 16384
    \<and> lent (wbuf (cbuffer s)) \<and> pooled al' + mset (buf_ids (wbuf (cbuffer s))) = pooled al + made al al'
    \<and> next_array al \<le> next_array al'"
proof -
  obtain b al' where b: "NewSize choice 16384 al = Inr (b, al')" "heap_ok al'" "buf_wf b"
    "contents b = []" "room b = nat 16384"
    using NewSize_heap [OF heap, of 16384 choice] by auto
  show ?thesis using b NewSize_lent [OF heap _ _ b(1)] NewSize_bsize [OF b(1)] w by (simp add: newState_def defaultBufferSize_def NewBufWriter_def bw_ok_def)
qed

lemma state_Free_spec:
  assumes ok: "bw_ok winv (cbuffer s)" and ret: "lent (wbuf (cbuffer s))" and heap: "heap_ok al"
  shows "\<exists>err bw' al'. Flush wr (cbuffer s) = Some (Inr (err, bw')) \<and> heap_ok al'
    \<and> pooled al' = pooled al + mset (buf_ids (wbuf (cbuffer s))) \<and> next_array al' = next_array al
    \<and> state_Free wr s al = Some (if err \<noteq> None then [(''flush log buffer failed'', err)] else [], underlay bw', al')"
proof -
  obtain err bw' where fl: "Flush wr (cbuffer s) = Some (Inr (err, bw'))" using Flush_spec [OF ok] by blast
  have o: "same_owner (wbuf (cbuffer s)) (wbuf bw')" using Flush_frame [OF ok fl] by (simp add: bw_frame_def)
  then have "buf_ids (wbuf bw') = buf_ids (wbuf (cbuffer s))" by (simp add: same_owner_def same_array_def)
  moreover from Free_lent [OF heap lent_same_owner [OF o ret]] obtain b' al' where
    "Free_Buffer (wbuf bw') al = Inr (b', al')" "heap_ok al'" "pooled al' = pooled al + mset (buf_ids (wbuf bw'))"
    "next_array al' = next_array al" by blast
  ultimately show ?thesis using fl by (simp add: state_Free_def BufWriter_Free_def Let_def)
qed

lemma Handle_run:
  assumes heap: "heap_ok al" and w: "winv w" and len: "int (length (format_line env h r)) + 16384 \<le> max_int"
  shows "\<exists>s0 s al1 err. newState choice h w al = Inr (s0, al1) \<and> heap_ok al1
    \<and> Handle_body env wr h r s0 = Some (Inr (err, s)) \<and> (err = None \<longleftrightarrow> cErr s = None)
    \<and> wrote winv sink (format_line env h r) s0 s \<and> cErr s0 = None \<and> room (wbuf (cbuffer s0)) = 16384
    \<and> underlay (cbuffer s0) = w \<and> contents (wbuf (cbuffer s0)) = [] \<and> lent (wbuf (cbuffer s))
    \<and> pooled al1 + mset (buf_ids (wbuf (cbuffer s))) = pooled al + made al al1 \<and> next_array al \<le> next_array al1"
proof -
  obtain s0 al1 where s0: "newState choice h w al = Inr (s0, al1)" "heap_ok al1" "bw_ok winv (cbuffer s0)" "cErr s0 = None"
    "cgroup s0 = groupPrefix h" "clevel s0 = levelFormat h" "ctime s0 = timeFormat h" "underlay (cbuffer s0) = w"
    "contents (wbuf (cbuffer s0)) = []" "room (wbuf (cbuffer s0)) = 16384" "bsize (wbuf (cbuffer s0)) = 16384"
    "lent (wbuf (cbuffer s0))" "pooled al1 + mset (buf_ids (wbuf (cbuffer s0))) = pooled al + made al al1"
    "next_array al \<le> next_array al1"
    using newState_spec [OF heap w, of choice h] by blast
  have can: "can_write winv (format_line env h r) s0" using s0(3,11) len by (simp add: can_write_def)
  from Handle_body_writes [OF can s0(4-7)] obtain err s where
    "Handle_body env wr h r s0 = Some (Inr (err, s))" "wrote winv sink (format_line env h r) s0 s" "err = None \<longleftrightarrow> cErr s = None"
    unfolding handled_def by (elim exE conjE) (rule that)
  moreover from this(2) have o: "same_owner (wbuf (cbuffer s0)) (wbuf (cbuffer s))" by (simp add: wrote_def bw_frame_def)
  then have "buf_ids (wbuf (cbuffer s)) = buf_ids (wbuf (cbuffer s0))" by (simp add: same_owner_def same_array_def)
  ultimately show ?thesis using s0 lent_same_owner [OF o s0(12)]
    by (intro exI [of _ s0] exI [of _ s] exI [of _ al1] exI [of _ err]) simp
qed

lemma Handle_writes:
  assumes heap: "heap_ok al" and w: "winv w" and len: "int (length (format_line env h r)) + 16384 \<le> max_int"
  shows "\<exists>err logs w' al' out. Handle env wr choice h r w al = Some (Inr (err, logs, w', al')) \<and> winv w' \<and> heap_ok al'
    \<and> pooled al' = pooled al + made al al' \<and> sink w' = sink w @ out \<and> prefix out (bytes (format_line env h r))
    \<and> (err = None \<and> logs = [] \<longrightarrow> out = bytes (format_line env h r))"
proof -
  let ?t = "bytes (format_line env h r)"
  obtain s0 s al1 err where run: "newState choice h w al = Inr (s0, al1)" "heap_ok al1"
    "Handle_body env wr h r s0 = Some (Inr (err, s))" "err = None \<longleftrightarrow> cErr s = None"
    "wrote winv sink (format_line env h r) s0 s" "cErr s0 = None" "room (wbuf (cbuffer s0)) = 16384"
    "underlay (cbuffer s0) = w" "contents (wbuf (cbuffer s0)) = []" "lent (wbuf (cbuffer s))"
    "pooled al1 + mset (buf_ids (wbuf (cbuffer s))) = pooled al + made al al1"
    using Handle_run [OF assms, of choice] by (elim exE conjE) (rule that)
  obtain o1 where o1: "bw_sink sink (cbuffer s) = sink w @ o1" "prefix o1 ?t" "cErr s = None \<longrightarrow> o1 = ?t"
    using run(5,6,8,9) by (auto simp: wrote_def bw_sink_def)
  have ok: "bw_ok winv (cbuffer s)" and fr: "bw_frame sink (cbuffer s0) (cbuffer s)" using run(5) by (simp_all add: wrote_def)
  obtain ferr bw' al' where fl: "Flush wr (cbuffer s) = Some (Inr (ferr, bw'))" "heap_ok al'"
    "state_Free wr s al1 = Some (if ferr \<noteq> None then [(''flush log buffer failed'', ferr)] else [], underlay bw', al')"
    "pooled al' = pooled al1 + mset (buf_ids (wbuf (cbuffer s)))" "next_array al' = next_array al1"
    using state_Free_spec [OF ok run(10,2)] by blast
  have "pooled al' = pooled al + made al al'" using fl(4,5) run(11) by (simp add: made_def)
  note again = this
  have sp: "bw_sink sink bw' = bw_sink sink (cbuffer s)" "ferr = None \<longrightarrow> contents (wbuf bw') = []" "winv (underlay bw')"
    using Flush_spec [OF ok] fl(1) by (auto simp: bw_ok_def)
  have "prefix (sink w) (sink (underlay bw'))"
    using bw_frame_trans [OF fr, of bw'] Flush_frame [OF ok fl(1)] run(8) by (auto simp: bw_frame_def)
  then obtain out where out: "sink (underlay bw') = sink w @ out" by (auto simp: prefix_def)
  have cut: "out @ contents (wbuf bw') = o1" using sp(1) o1(1) out by (simp add: bw_sink_def)
  then have "prefix out o1" by (metis prefixI)
  then have p: "prefix out ?t" using o1(2) prefix_order.trans by blast
  have "out = ?t" if "err = None" "ferr = None" using that cut sp(2) o1(3) run(4) by simp
  then show ?thesis using run(1,3) fl(2,3) sp(3) out p again by (simp add: Handle_def)
qed

lemma format_line_ne: "format_line env h r \<noteq> []"
  by (simp add: format_line_def)

lemma Handle_short:
  assumes heap: "heap_ok al" and w: "winv w" and len: "length (format_line env h r) \<le> 16384"
    and wr: "wr w (bytes (format_line env h r)) = Inr (n, e, w')"
  shows "\<exists>al'. heap_ok al' \<and> Handle env wr choice h r w al
    = Some (Inr (None, if e = None then [] else [(''flush log buffer failed'', Some (Cause e ''flush''))], w', al'))"
proof -
  let ?t = "bytes (format_line env h r)"
  have "int (length (format_line env h r)) + 16384 \<le> max_int" using len by simp
  from Handle_run [OF heap w this, of choice] obtain s0 s al1 err where run: "newState choice h w al = Inr (s0, al1)" "heap_ok al1"
    "Handle_body env wr h r s0 = Some (Inr (err, s))" "err = None \<longleftrightarrow> cErr s = None"
    "wrote winv sink (format_line env h r) s0 s" "cErr s0 = None" "room (wbuf (cbuffer s0)) = 16384"
    "underlay (cbuffer s0) = w" "contents (wbuf (cbuffer s0)) = []" "lent (wbuf (cbuffer s))"
    by (elim exE conjE) (rule that)
  have s: "cErr s = None" "underlay (cbuffer s) = w" "bw_sink sink (cbuffer s) = sink w @ ?t"
    using run(5-9) len by (auto simp: wrote_def bw_sink_def)
  have c: "contents (wbuf (cbuffer s)) = ?t" using s(2,3) by (simp add: bw_sink_def)
  have ok: "bw_ok winv (cbuffer s)" and fr: "bw_frame sink (cbuffer s0) (cbuffer s)" using run(5) by (simp_all add: wrote_def)
  have "e = None \<longrightarrow> n = int (length ?t)" using wr write_full [OF w, of ?t n w'] by simp
  with Flush_once [OF bw_okD(1) [OF ok], of wr n e w'] c s(2) wr format_line_ne [of env h r]
  obtain bw1 where fl: "Flush wr (cbuffer s) = Some (Inr (if e = None then None else Some (Cause e ''flush''), bw1))" "underlay bw1 = w'"
    by (auto simp: bytes_def)
  from state_Free_spec [OF ok run(10,2)] fl obtain al' where "heap_ok al'"
    "state_Free wr s al1 = Some (if e = None then [] else [(''flush log buffer failed'', Some (Cause e ''flush''))], w', al')"
    by auto
  then show ?thesis using run(1,3,4) s(1) by (auto simp: Handle_def)
qed

end

subsection \<open>Writers that keep the contract\<close>

text \<open>The writer that \<open>NewSafeWriter\<close> makes keeps the contract of the writer it is given.\<close>

fun inner :: "'w safe_writer \<Rightarrow> 'w" where
  "inner (AsItIs w) = w"
| "inner (Guarded g) = sw_writer g"

lemma safe_Write_inner:
  "safe_Write wr s p = Inr (n, e, s') \<longleftrightarrow> (\<exists>w'. wr (inner s) p = Inr (n, e, w')
     \<and> s' = (case s of AsItIs w \<Rightarrow> AsItIs w' | Guarded g \<Rightarrow> Guarded (g\<lparr>sw_writer := w', sw_locked := False\<rparr>)))"
  by (cases s) (auto simp: safe_Write_def SafeWriter_Write_def split: sum.splits)

lemma inner_result: "inner (case s of AsItIs w \<Rightarrow> AsItIs w' | Guarded g \<Rightarrow> Guarded (g\<lparr>sw_writer := w', sw_locked := False\<rparr>)) = w'"
  by (cases s) simp_all

lemma safe_full:
  assumes full: "io_full_writer wr winv sink"
  shows "io_full_writer (safe_Write wr) (\<lambda>s. winv (inner s)) (\<lambda>s. sink (inner s))"
proof
  note snk = io_full_writer.axioms(1) [OF full]
  fix s p assume w: "winv (inner s)"
  from io_writer.write_contract [OF io_sink_writer.axioms(1) [OF snk] w, of p]
  show "\<exists>n err s'. safe_Write wr s p = Inr (n, err, s') \<and> 0 \<le> n \<and> n \<le> int (length p) \<and> winv (inner s')"
    by (auto simp: safe_Write_inner inner_result)
next
  note snk = io_full_writer.axioms(1) [OF full]
  fix s p n e s' assume w: "winv (inner s)" and s': "safe_Write wr s p = Inr (n, e, s')"
  with io_sink_writer.write_sink [OF snk w, of p n e] show "sink (inner s') = sink (inner s) @ take (nat n) p"
    by (auto simp: safe_Write_inner inner_result)
next
  fix s p n s' assume w: "winv (inner s)" and s': "safe_Write wr s p = Inr (n, None, s')"
  with io_full_writer.write_full [OF full w, of p n] show "n = int (length p)" by (auto simp: safe_Write_inner)
qed

text \<open>
  A file on a device with \<open>space\<close> bytes left; the calls of \<open>Write\<close> are kept apart, so that one can see
  how the text arrived.
\<close>

record log_file =
  chunks :: "byte list list"
  space_left :: nat

definition file_Write :: "log_file write_fn" where
  "file_Write f p =
     (let n = min (length p) (space_left f)
      in Inr (int n, if n < length p then Some (Sentinel ''ENOSPC'' ''no space left on device'') else None,
           f\<lparr>chunks := chunks f @ [take n p], space_left := space_left f - n\<rparr>))"

lemma file_full: "io_full_writer file_Write (\<lambda>_. True) (\<lambda>f. concat (chunks f))"
  by unfold_locales (auto simp: file_Write_def Let_def min_def split: if_splits)

interpretation safe_file: io_full_writer "safe_Write file_Write" "\<lambda>_. True" "\<lambda>s. concat (chunks (inner s))"
  using safe_full [OF file_full] by simp

subsection \<open>Properties\<close>

text \<open>
  C8: \<open>Handle\<close> returns, over any writer that keeps the \<^verbatim>\<open>io.Writer\<close> contract and for every record
  whose text is at least 16384 bytes shorter than \<^verbatim>\<open>MaxInt\<close>. What reaches the writer is a prefix of the record's line
  after what was there, and the whole line unless an error is returned or logged. The buffer of the
  record is given back to the allocator: afterwards its pools hold every array they held before, and the
  one that was made when none of them was taken.
\<close>

theorem Handle_writes_line:
  assumes "io_full_writer wr winv sink" and "heap_ok al" and "winv w"
    and "int (length (format_line env h r)) + 16384 \<le> max_int"
  shows "\<exists>err logs w' al' out. Handle env wr choice h r w al = Some (Inr (err, logs, w', al')) \<and> winv w' \<and> heap_ok al'
    \<and> pooled al' = pooled al + made al al' \<and> sink w' = sink w @ out \<and> prefix out (bytes (format_line env h r))
    \<and> (err = None \<and> logs = [] \<longrightarrow> out = bytes (format_line env h r))"
  by (rule io_full_writer.Handle_writes [OF assms])

definition example_env :: "nat log_env" where
  "example_env = \<lparr>slog_time = dec_nat, is_zero = (\<lambda>t. t = 0), now = 7, debug = False\<rparr>"

definition example_handler :: "nat ConsoleHandler" where
  "example_handler = \<lparr>hlevel = LevelInfo, sourceLevel = LevelError, enableTime = True, timeFormat = dec_nat,
    levelFormat = EqualLengthLevelFormatter, groupPrefix = ''app'', preFormatedAttr = [],
    metadata = [(''id'', StringValue ''x1'')]\<rparr>"

definition example_record :: "nat Record" where
  "example_record = \<lparr>Time = 0, Level = LevelWarn, Message = ''hello'',
    Attrs = [(''k'', StringValue ''two words''), (''g'', GroupValue [(''a'', TimeValue 3)])], SourceOf = None\<rparr>"

lemma example_line:
  "format_line example_env example_handler example_record
    = ''7 WARN  [x1] hello app.k=`two words`   app.g.a=3 '' @ [CHR 0x0A]"
  by (simp add: format_line_def example_env_def example_handler_def example_record_def attr_text.simps meta_text_def
      value_text_def quoted_def EqualLengthLevelFormatter_def dec_nat.simps)

text \<open>The line reaches a roomy file in one call, and what fits of it a nearly full one.\<close>

theorem Handle_writes_line_witness:
  "\<exists>err logs s' al' out. Handle example_env (safe_Write file_Write) 0 example_handler example_record
      (NewSafeWriter (\<lambda>_. False) \<lparr>chunks = [], space_left = 5\<rparr>) newDefaultAllocator = Some (Inr (err, logs, s', al'))
    \<and> heap_ok al' \<and> concat (chunks (inner s')) = out
    \<and> prefix out (bytes (''7 WARN  [x1] hello app.k=`two words`   app.g.a=3 '' @ [CHR 0x0A]))"
proof -
  have "int (length (format_line example_env example_handler example_record)) + 16384 \<le> max_int" by (simp add: example_line)
  from Handle_writes_line [OF safe_file.io_full_writer_axioms alloc_wf_heap [OF alloc_wf_new] TrueI this,
      of 0 "NewSafeWriter (\<lambda>_. False) \<lparr>chunks = [], space_left = 5\<rparr>"]
  show ?thesis unfolding example_line by (simp add: NewSafeWriter_def) blast
qed

text \<open>
  C10: a record whose text fits the 16384 bytes of the handler's buffer reaches the writer in exactly
  one call of \<open>Write\<close>, so lines of concurrent records do not mix behind \<open>SafeWriter\<close>. \<open>Handle\<close>
  then returns nil whatever that call does: its error goes to the package's own logger only.
\<close>

theorem Handle_one_write:
  assumes "io_full_writer wr winv sink" and "heap_ok al" and "winv w"
    and "length (format_line env h r) \<le> 16384"
    and "wr w (bytes (format_line env h r)) = Inr (n, e, w')"
  shows "\<exists>al'. heap_ok al' \<and> Handle env wr choice h r w al
    = Some (Inr (None, if e = None then [] else [(''flush log buffer failed'', Some (Cause e ''flush''))], w', al'))"
  by (rule io_full_writer.Handle_short [OF assms])

theorem Handle_one_write_witness:
  "\<exists>al'. Handle example_env (safe_Write file_Write) 0 example_handler example_record
      (NewSafeWriter (\<lambda>_. False) \<lparr>chunks = [], space_left = 5\<rparr>) newDefaultAllocator
    = Some (Inr (None, [(''flush log buffer failed'', Some (Cause (Some (Sentinel ''ENOSPC'' ''no space left on device'')) ''flush''))],
        NewSafeWriter (\<lambda>_. False) \<lparr>chunks = [bytes ''7 WAR''], space_left = 0\<rparr>, al'))"
proof -
  have call: "safe_Write file_Write (NewSafeWriter (\<lambda>_. False) \<lparr>chunks = [], space_left = 5\<rparr>)
      (bytes (format_line example_env example_handler example_record))
    = Inr (5, Some (Sentinel ''ENOSPC'' ''no space left on device''), NewSafeWriter (\<lambda>_. False) \<lparr>chunks = [bytes ''7 WAR''], space_left = 0\<rparr>)"
    unfolding example_line by (simp add: safe_Write_def SafeWriter_Write_def NewSafeWriter_def file_Write_def bytes_def numeral_eq_Suc)
  have "length (format_line example_env example_handler example_record) \<le> 16384" by (simp add: example_line)
  from Handle_one_write [OF safe_file.io_full_writer_axioms alloc_wf_heap [OF alloc_wf_new] TrueI this call, of 0]
  show ?thesis by auto
qed

end
