(* ===== verification/ConsoleWith.thy ===== *)
theory ConsoleWith
  imports ConsoleWrite
begin

text \<open>
  The handlers that \<open>WithAttrs\<close> and \<open>WithGroup\<close> return: metadata by name, the attributes that are
  formatted in advance, the prefixes of groups.
\<close>

subsection \<open>Handlers with attributes\<close>

lemma map_of_UniqBy_loop:
  "fst ` set acc \<subseteq> seen \<Longrightarrow> map_of (UniqBy_loop fst arr seen acc) k
    = (if k \<in> seen then map_of acc k else map_of arr k)"
proof (induction arr arbitrary: seen acc)
  case Nil
  then show ?case by (auto simp: map_of_eq_None_iff)
next
  case (Cons a arr)
  show ?case
  proof (cases "fst a \<in> seen")
    case True
    then show ?thesis using Cons.IH [OF Cons.prems] by (cases a) (auto simp: Let_def)
  next
    case False
    have none: "map_of acc k = None" if "k \<notin> seen" for k using Cons.prems that by (auto simp: map_of_eq_None_iff)
    have "fst ` set (acc @ [a]) \<subseteq> insert (fst a) seen" using Cons.prems by auto
    from Cons.IH [OF this] False none [of "fst a"] none [of k] show ?thesis
      by (cases a) (auto simp: Let_def map_add_def split: option.splits)
  qed
qed

lemma map_of_UniqByLast: "map_of (UniqByLast attrs fst) = map_of (rev attrs)"
proof -
  have "map_of (UniqByLast attrs fst) = map_of (UniqBy (rev attrs) fst)"
    using map_of_inject_set [of "UniqByLast attrs fst" "UniqBy (rev attrs) fst"] UniqByLast_distinct [of fst attrs]
      UniqBy_distinct [of fst "rev attrs"] by (simp add: UniqByLast_rev)
  also have "\<dots> = map_of (rev attrs)" using map_of_UniqBy_loop [of "[]" "{}" "rev attrs"] by (auto simp: UniqBy_def)
  finally show ?thesis .
qed

lemma IndexMap_distinct:
  assumes "distinct s"
  shows "(\<forall>i<length s. IndexMap s (s ! i) = Some i) \<and> (\<forall>x. x \<notin> set s \<longrightarrow> IndexMap s x = None)"
proof -
  have "(GREATEST j. j < length s \<and> s ! j = s ! i) = i" if "i < length s" for i
    using assms that by (intro Greatest_equality) (auto simp: nth_eq_iff_index_eq)
  then show ?thesis by (auto simp: IndexMap_def IndexMap_loop_eq)
qed

lemma map_fst_update: "i < length md \<Longrightarrow> fst (md ! i) = fst a \<Longrightarrow> map fst (md[i := a]) = map fst md"
  by (metis list_update_id map_update nth_map)

lemma map_of_update_distinct:
  assumes "distinct (map fst md)" and "i < length md" and "fst (md ! i) = fst a"
  shows "map_of (md[i := a]) = (map_of md)(fst a \<mapsto> snd a)"
  using assms
proof (induction md arbitrary: i)
  case (Cons x md)
  show ?case
  proof (cases i)
    case 0
    with Cons.prems show ?thesis by (cases x, cases a) (auto simp: fun_eq_iff)
  next
    case (Suc j)
    with Cons.prems have "fst x \<noteq> fst a" by (auto simp: in_set_conv_nth) (metis nth_map length_map nth_mem list.set_map)
    with Suc Cons show ?thesis by (cases x) (auto simp: fun_eq_iff)
  qed
qed simp

lemma withMetadata_loop_spec:
  assumes idx: "idx = IndexMap (map fst md0)" and d0: "distinct (map fst md0)"
  shows "prefix (map fst md0) (map fst md) \<Longrightarrow> distinct (map fst md) \<Longrightarrow> distinct (map fst attrs) \<Longrightarrow>
      set (drop (length md0) (map fst md)) \<inter> fst ` set attrs = {} \<Longrightarrow>
    distinct (map fst (withMetadata_loop idx attrs md)) \<and> prefix (map fst md0) (map fst (withMetadata_loop idx attrs md))
    \<and> map_of (withMetadata_loop idx attrs md) = map_of md ++ map_of attrs"
proof (induction attrs arbitrary: md)
  case Nil
  then show ?case by simp
next
  case (Cons a attrs)
  have comm: "(map_of md)(fst a \<mapsto> snd a) ++ map_of attrs = map_of md ++ map_of (a # attrs)"
    using Cons.prems(3) by (cases a) (auto simp: map_add_def fun_eq_iff map_of_eq_None_iff[symmetric] split: option.splits)
  have len: "length md0 \<le> length md" using Cons.prems(1) by (metis length_map prefix_length_le)
  show ?case
  proof (cases "fst a \<in> set (map fst md0)")
    case True
    then obtain i where i: "i < length md0" "map fst md0 ! i = fst a" by (metis in_set_conv_nth length_map)
    then have ix: "idx (fst a) = Some i" using IndexMap_distinct [OF d0] idx by (metis length_map)
    have im: "i < length md" using i len by simp
    have fi: "fst (md ! i) = fst a"
    proof -
      obtain zs where "map fst md = map fst md0 @ zs" using Cons.prems(1) by (auto simp: prefix_def)
      then have "map fst md ! i = map fst md0 ! i" using i(1) by (simp add: nth_append)
      then show ?thesis using i(2) im by simp
    qed
    note mf = map_fst_update [OF im fi]
    have step: "withMetadata_loop idx (a # attrs) md = withMetadata_loop idx attrs (md[i := a])" using ix im by simp
    have at: "distinct (map fst attrs)" "set (drop (length md0) (map fst md)) \<inter> fst ` set attrs = {}"
      using Cons.prems(3,4) by auto
    show ?thesis unfolding step comm [symmetric] map_of_update_distinct [OF Cons.prems(2) im fi, symmetric]
      by (rule Cons.IH) (unfold mf, rule Cons.prems(1), rule Cons.prems(2), rule at(1), rule at(2))
  next
    case False
    then have ix: "idx (fst a) = None" using conjunct2 [OF IndexMap_distinct [OF d0]] unfolding idx by simp
    have new: "fst a \<notin> set (map fst md)"
    proof -
      obtain zs where zs: "map fst md = map fst md0 @ zs" using Cons.prems(1) by (rule prefixE)
      have "set zs \<inter> fst ` set (a # attrs) = {}" using Cons.prems(4) unfolding zs by simp
      with False show ?thesis unfolding zs by auto
    qed
    have m: "map_of (md @ [a]) = (map_of md)(fst a \<mapsto> snd a)"
    proof -
      have "map_of md (fst a) = None" using new by (simp add: map_of_eq_None_iff)
      then show ?thesis by (cases a) (auto simp: fun_eq_iff map_add_def split: option.splits)
    qed
    have step: "withMetadata_loop idx (a # attrs) md = withMetadata_loop idx attrs (md @ [a])" using ix by simp
    have at: "prefix (map fst md0) (map fst (md @ [a]))" "distinct (map fst (md @ [a]))" "distinct (map fst attrs)"
      "set (drop (length md0) (map fst (md @ [a]))) \<inter> fst ` set attrs = {}"
      using Cons.prems new len by (auto simp: image_iff)
    show ?thesis unfolding step comm [symmetric] m [symmetric] by (rule Cons.IH [OF at])
  qed
qed

lemma withMetadata_spec:
  assumes "distinct (map fst (metadata h))"
  shows "distinct (map fst (metadata (withMetadata attrs h)))
    \<and> prefix (map fst (metadata h)) (map fst (metadata (withMetadata attrs h)))
    \<and> map_of (metadata (withMetadata attrs h)) = map_of (metadata h) ++ map_of (rev attrs)"
proof (cases "metadata h = []")
  case True
  then show ?thesis
    using UniqByLast_distinct [of fst attrs] by (simp add: withMetadata_def Let_def map_of_UniqByLast)
next
  case False
  have "Map_slice (metadata h) fst = map fst (metadata h)" by (rule Map_slice_eq)
  with False withMetadata_loop_spec [OF refl assms, of "metadata h" "UniqByLast attrs fst"] assms
    UniqByLast_distinct [of fst attrs]
  show ?thesis by (simp add: withMetadata_def Let_def map_of_UniqByLast)
qed

lemma withAttrs_frame [simp]: "metadata (withAttrs tm attrs h) = metadata h" "groupPrefix (withAttrs tm attrs h) = groupPrefix h"
  by (simp_all add: withAttrs_def Let_def)

lemma withMetadata_frame [simp]: "preFormatedAttr (withMetadata attrs h) = preFormatedAttr h"
    "groupPrefix (withMetadata attrs h) = groupPrefix h"
  by (simp_all add: withMetadata_def Let_def)

lemma withAttrs_loop_eq: "withAttrs_loop tm grp attrs bs
    = bs @ map (\<lambda>a. attr_String tm (if grp = [] then fst a else grp @ ''.'' @ fst a, snd a)) attrs"
  by (induction attrs arbitrary: bs) (simp_all add: Let_def)

lemma Join_append: "xs \<noteq> [] \<Longrightarrow> ys \<noteq> [] \<Longrightarrow> strings_Join (xs @ ys) sep = strings_Join xs sep @ sep @ strings_Join ys sep"
proof (induction xs rule: induct_list012)
  case (2 x)
  then show ?case by (cases ys) auto
qed auto

text \<open>The texts of the attributes that are not metadata, as \<open>WithAttrs\<close> prints them under a group.\<close>

definition with_texts :: "('t \<Rightarrow> string) \<Rightarrow> string \<Rightarrow> 't attr list \<Rightarrow> string list" where
  "with_texts tm grp attrs =
     map (\<lambda>a. attr_String tm (if grp = [] then fst a else grp @ ''.'' @ fst a, snd a)) (filter (\<lambda>a. \<not> is_metadata a) attrs)"

lemma with_texts_append: "with_texts tm grp (xs @ ys) = with_texts tm grp xs @ with_texts tm grp ys"
  by (simp add: with_texts_def)

definition pre_texts :: "'t ConsoleHandler \<Rightarrow> string list" where
  "pre_texts h = (if preFormatedAttr h = [] then [] else [preFormatedAttr h])"

lemma Join_texts_Nil: "strings_Join (pre_texts h @ with_texts tm grp attrs) '' '' = [] \<longleftrightarrow> pre_texts h @ with_texts tm grp attrs = []"
proof (cases "pre_texts h @ with_texts tm grp attrs")
  case (Cons x xs)
  then have "x \<noteq> []" by (auto simp: pre_texts_def with_texts_def attr_String_def split: if_splits)
  with Cons show ?thesis by (cases xs) simp_all
qed simp

lemma WithAttrs_fields:
  "groupPrefix (WithAttrs tm h attrs) = groupPrefix h \<and>
   preFormatedAttr (WithAttrs tm h attrs) = strings_Join (pre_texts h @ with_texts tm (groupPrefix h) attrs) '' '' \<and>
   metadata (WithAttrs tm h attrs)
     = (if filter is_metadata attrs = [] then metadata h else metadata (withMetadata (fst (SplitMetadata attrs)) h))"
proof -
  have none: "with_texts tm (groupPrefix h) attrs = []" if "\<forall>x\<in>set attrs. is_metadata x"
    using that by (auto simp: with_texts_def)
  show ?thesis using none
    by (auto simp: WithAttrs_def SplitMetadata_eq withAttrs_def withAttrs_loop_eq Let_def pre_texts_def with_texts_def filter_empty_conv)
qed

lemma WithGroup_prefix: "groupPrefix (WithGroup h name)
    = (if name = [] \<or> groupPrefix h = [] then groupPrefix h @ name else groupPrefix h @ ''.'' @ name)"
  by (simp add: WithGroup_def withGroup_def)

lemma WithGroup_frame [simp]: "preFormatedAttr (WithGroup h name) = preFormatedAttr h" "metadata (WithGroup h name) = metadata h"
  by (simp_all add: WithGroup_def withGroup_def)

lemma WithGroups_frame: "preFormatedAttr (foldl WithGroup h gs) = preFormatedAttr h"
  by (induction gs arbitrary: h) simp_all

lemma WithGroups_prefix:
  "[] \<notin> set gs \<Longrightarrow> groupPrefix (foldl WithGroup h gs)
    = strings_Join ((if groupPrefix h = [] then [] else [groupPrefix h]) @ gs) ''.''"
proof (induction gs rule: rev_induct)
  case (snoc g gs)
  let ?p = "(if groupPrefix h = [] then [] else [groupPrefix h]) @ gs"
  have "strings_Join ?p ''.'' = [] \<longleftrightarrow> ?p = []"
  proof (cases ?p)
    case (Cons x xs)
    then have "x \<noteq> []" using snoc.prems by (auto split: if_splits)
    with Cons show ?thesis by (cases xs) simp_all
  qed simp
  with snoc show ?case by (auto simp: WithGroup_prefix Join_append simp flip: append_assoc)
qed simp

lemma With_metadata:
  assumes "distinct (map fst (metadata h))"
  shows "distinct (map fst (metadata (WithAttrs tm h attrs)))
    \<and> prefix (map fst (metadata h)) (map fst (metadata (WithAttrs tm h attrs)))
    \<and> map_of (metadata (WithAttrs tm h attrs)) = map_of (metadata h) ++ map_of (rev (fst (SplitMetadata attrs)))"
  using withMetadata_spec [OF assms, of "fst (SplitMetadata attrs)"] assms
  by (auto simp: WithAttrs_fields SplitMetadata_eq)

lemma With_twice:
  "preFormatedAttr (WithAttrs tm (WithAttrs tm h xs) ys) = preFormatedAttr (WithAttrs tm h (xs @ ys))
   \<and> groupPrefix (WithAttrs tm (WithAttrs tm h xs) ys) = groupPrefix (WithAttrs tm h (xs @ ys))"
proof -
  let ?p = "pre_texts h @ with_texts tm (groupPrefix h) xs"
  have pre: "pre_texts (WithAttrs tm h xs) = (if ?p = [] then [] else [strings_Join ?p '' ''])"
    using Join_texts_Nil [of h tm "groupPrefix h" xs] by (simp add: pre_texts_def [of "WithAttrs tm h xs"] WithAttrs_fields)
  show ?thesis
  proof (cases "?p = [] \<or> with_texts tm (groupPrefix h) ys = []")
    case True
    then show ?thesis using pre by (auto simp: WithAttrs_fields with_texts_append simp del: append_is_Nil_conv)
  next
    case False
    then show ?thesis using pre Join_append [of "[strings_Join ?p '' '']" "with_texts tm (groupPrefix h) ys" "'' ''"]
        Join_append [of ?p "with_texts tm (groupPrefix h) ys" "'' ''"]
      by (simp add: WithAttrs_fields with_texts_append del: append_is_Nil_conv)
  qed
qed

subsection \<open>The order of the metadata\<close>

lemma UniqBy_loop_acc: "UniqBy_loop f ys seen acc = acc @ UniqBy_loop f ys seen []"
proof (induction ys arbitrary: seen acc)
  case (Cons y ys)
  from Cons [of "insert (f y) seen" "acc @ [y]"] Cons [of "insert (f y) seen" "[y]"] Cons [of seen acc]
  show ?case by (simp add: Let_def)
qed simp

lemma UniqBy_loop_append:
  "UniqBy_loop f (xs @ ys) seen [] = UniqBy_loop f xs seen [] @ UniqBy_loop f ys (seen \<union> f ` set xs) []"
proof (induction xs arbitrary: seen)
  case (Cons x xs)
  show ?case
    using Cons.IH UniqBy_loop_acc [of f "xs @ ys" "insert (f x) seen" "[x]"] UniqBy_loop_acc [of f xs "insert (f x) seen" "[x]"]
    by (auto simp: Let_def insert_absorb)
qed simp

lemma UniqBy_loop_seen: "S \<inter> f ` set ys = {} \<Longrightarrow> UniqBy_loop f ys (seen \<union> S) acc = UniqBy_loop f ys seen acc"
  by (induction ys arbitrary: seen acc) (auto simp: Let_def simp flip: Un_insert_left)

lemma UniqByLast_append:
  assumes "f ` set xs \<inter> f ` set ys = {}"
  shows "UniqByLast (xs @ ys) f = UniqByLast xs f @ UniqByLast ys f"
  using assms UniqBy_loop_append [of f "rev ys" "rev xs" "{}"] UniqBy_loop_seen [of "f ` set ys" f "rev xs" "{}" "[]"]
  by (simp add: UniqByLast_rev UniqBy_def Int_commute)

lemma withMetadata_loop_names:
  assumes idx: "idx = IndexMap (map fst md0)" and d0: "distinct (map fst md0)"
  shows "prefix (map fst md0) (map fst md) \<Longrightarrow>
    map fst (withMetadata_loop idx attrs md) = map fst md @ filter (\<lambda>k. k \<notin> set (map fst md0)) (map fst attrs)"
proof (induction attrs arbitrary: md)
  case (Cons a attrs)
  have len: "length md0 \<le> length md" using Cons.prems by (metis length_map prefix_length_le)
  show ?case
  proof (cases "fst a \<in> set (map fst md0)")
    case True
    then obtain i where i: "i < length md0" "map fst md0 ! i = fst a" by (metis in_set_conv_nth length_map)
    then have ix: "idx (fst a) = Some i" using IndexMap_distinct [OF d0] idx by (metis length_map)
    have im: "i < length md" using i len by simp
    obtain zs where "map fst md = map fst md0 @ zs" using Cons.prems by (auto simp: prefix_def)
    then have "map fst md ! i = map fst md0 ! i" using i(1) by (simp add: nth_append)
    then have "map fst (md[i := a]) = map fst md" using i(2) im by (intro map_fst_update) auto
    then show ?thesis using Cons.IH [of "md[i := a]"] Cons.prems ix im True by simp
  next
    case False
    then have ix: "idx (fst a) = None" using conjunct2 [OF IndexMap_distinct [OF d0]] unfolding idx by simp
    have "prefix (map fst md0) (map fst (md @ [a]))" using Cons.prems by simp
    from Cons.IH [OF this] show ?thesis using ix False by simp
  qed
qed simp

lemma withMetadata_names:
  assumes "distinct (map fst (metadata h))"
  shows "map fst (metadata (withMetadata attrs h))
    = map fst (metadata h) @ filter (\<lambda>k. k \<notin> fst ` set (metadata h)) (map fst (UniqByLast attrs fst))"
proof (cases "metadata h = []")
  case False
  then show ?thesis
    using withMetadata_loop_names [OF refl assms prefix_order.order_refl, of "UniqByLast attrs fst"]
    by (simp add: withMetadata_def Let_def Map_slice_eq)
qed (simp add: withMetadata_def Let_def)

text \<open>A list with distinct names is determined by the order of the names and the map.\<close>

lemma names_and_map:
  "map fst xs = map fst ys \<Longrightarrow> map_of xs = map_of ys \<Longrightarrow> distinct (map fst xs) \<Longrightarrow> xs = ys"
proof (induction xs ys rule: list_induct2')
  case (4 x xs y ys)
  have f: "fst x = fst y" "map fst xs = map fst ys" "distinct (map fst xs)" "fst x \<notin> set (map fst xs)" using 4(2,4) by auto
  have "snd x = snd y" using fun_cong [OF 4(3), of "fst x"] f(1) by (cases x; cases y) auto
  moreover have "map_of xs = map_of ys"
  proof
    fix k
    show "map_of xs k = map_of ys k"
    proof (cases "k = fst x")
      case True
      then have "k \<notin> fst ` set xs" "k \<notin> fst ` set ys" using f by (metis list.set_map)+
      then show ?thesis by (simp add: map_of_eq_None_iff [symmetric])
    next
      case False
      then show ?thesis using fun_cong [OF 4(3), of k] f(1) by (cases x; cases y) auto
    qed
  qed
  ultimately show ?case using 4(1) f by (cases x; cases y) auto
qed auto

lemma WithAttrs_names:
  assumes "distinct (map fst (metadata h))"
  shows "map fst (metadata (WithAttrs tm h attrs))
    = map fst (metadata h) @ filter (\<lambda>k. k \<notin> fst ` set (metadata h)) (map fst (UniqByLast (fst (SplitMetadata attrs)) fst))"
  using withMetadata_names [OF assms, of "fst (SplitMetadata attrs)"]
  by (auto simp: WithAttrs_fields SplitMetadata_eq UniqByLast_rev UniqBy_def)

lemma With_twice_map:
  assumes d: "distinct (map fst (metadata h))"
  shows "map_of (metadata (WithAttrs tm (WithAttrs tm h xs) ys)) = map_of (metadata (WithAttrs tm h (xs @ ys)))"
  using With_metadata [OF d, of tm xs] With_metadata [OF d, of tm "xs @ ys"] With_metadata [of "WithAttrs tm h xs" tm ys]
  by (simp add: SplitMetadata_eq)

lemma With_twice_same:
  assumes d: "distinct (map fst (metadata h))"
    and new: "fst ` set (fst (SplitMetadata xs)) \<inter> fst ` set (fst (SplitMetadata ys)) = {}"
  shows "metadata (WithAttrs tm (WithAttrs tm h xs) ys) = metadata (WithAttrs tm h (xs @ ys))"
proof (rule names_and_map)
  have d1: "distinct (map fst (metadata (WithAttrs tm h xs)))" using With_metadata [OF d] by blast
  then show "distinct (map fst (metadata (WithAttrs tm (WithAttrs tm h xs) ys)))" using With_metadata by blast
  show "map_of (metadata (WithAttrs tm (WithAttrs tm h xs) ys)) = map_of (metadata (WithAttrs tm h (xs @ ys)))"
    by (rule With_twice_map [OF d])
  have app: "UniqByLast (fst (SplitMetadata (xs @ ys))) fst
      = UniqByLast (fst (SplitMetadata xs)) fst @ UniqByLast (fst (SplitMetadata ys)) fst"
    using UniqByLast_append [OF new] by (simp add: SplitMetadata_eq)
  have known: "fst ` set (metadata (WithAttrs tm h xs)) = fst ` set (metadata h) \<union> fst ` set (fst (SplitMetadata xs))"
    using arg_cong [OF WithAttrs_names [OF d, of tm xs], of set] UniqByLast_keys [of fst "fst (SplitMetadata xs)"] by auto
  have "k \<notin> fst ` set (fst (SplitMetadata xs))" if "k \<in> set (map fst (UniqByLast (fst (SplitMetadata ys)) fst))" for k
    using that new UniqByLast_keys [of fst "fst (SplitMetadata ys)"] by auto
  then have "filter (\<lambda>k. k \<notin> fst ` set (metadata (WithAttrs tm h xs))) (map fst (UniqByLast (fst (SplitMetadata ys)) fst))
      = filter (\<lambda>k. k \<notin> fst ` set (metadata h)) (map fst (UniqByLast (fst (SplitMetadata ys)) fst))"
    unfolding known by (intro filter_cong) auto
  then show "map fst (metadata (WithAttrs tm (WithAttrs tm h xs) ys)) = map fst (metadata (WithAttrs tm h (xs @ ys)))"
    by (simp add: WithAttrs_names [OF d1] WithAttrs_names [OF d] app)
qed

lemma ConsoleHandler_eqI:
  "hlevel a = hlevel b \<Longrightarrow> sourceLevel a = sourceLevel b \<Longrightarrow> enableTime a = enableTime b \<Longrightarrow> timeFormat a = timeFormat b \<Longrightarrow>
   levelFormat a = levelFormat b \<Longrightarrow> groupPrefix a = groupPrefix b \<Longrightarrow> preFormatedAttr a = preFormatedAttr b \<Longrightarrow>
   metadata a = metadata b \<Longrightarrow> a = (b :: 't ConsoleHandler)"
  by simp

lemma WithAttrs_rest:
  "hlevel (WithAttrs tm h as) = hlevel h \<and> sourceLevel (WithAttrs tm h as) = sourceLevel h
   \<and> enableTime (WithAttrs tm h as) = enableTime h \<and> timeFormat (WithAttrs tm h as) = timeFormat h
   \<and> levelFormat (WithAttrs tm h as) = levelFormat h"
  by (simp add: WithAttrs_def withAttrs_def withMetadata_def Let_def split: prod.split)

subsection \<open>Properties\<close>

text \<open>
  C15: the metadata of a handler has one value for each name. \<open>WithAttrs\<close> keeps that, keeps the names it
  finds in their places and adds new ones behind them, and the last metadata attribute of a name
  overrides.
\<close>

theorem WithAttrs_metadata:
  assumes "distinct (map fst (metadata h))"
  shows "distinct (map fst (metadata (WithAttrs tm h attrs)))
    \<and> prefix (map fst (metadata h)) (map fst (metadata (WithAttrs tm h attrs)))
    \<and> map_of (metadata (WithAttrs tm h attrs)) = map_of (metadata h) ++ map_of (rev (fst (SplitMetadata attrs)))"
  by (rule With_metadata [OF assms])

theorem WithAttrs_metadata_witness:
  "distinct (map fst (metadata (WithAttrs dec_nat (example_handler\<lparr>metadata := [(''id'', StringValue ''x1'')]\<rparr>)
      [NewMetadata ''n'' (ArgString ''1''), NewMetadata ''id'' (ArgString ''x2'')])))
   \<and> map_of (metadata (WithAttrs dec_nat (example_handler\<lparr>metadata := [(''id'', StringValue ''x1'')]\<rparr>)
      [NewMetadata ''n'' (ArgString ''1''), NewMetadata ''id'' (ArgString ''x2'')])) ''id'' = Some (StringValue ''x2'')"
proof -
  have d: "distinct (map fst (metadata (example_handler\<lparr>metadata := [(''id'', StringValue ''x1'' :: nat sval)]\<rparr>)))" by simp
  have "fst (SplitMetadata [NewMetadata ''n'' (ArgString ''1''), NewMetadata ''id'' (ArgString ''x2'')])
      = [(''n'', StringValue ''1''), (''id'', StringValue ''x2'' :: nat sval)]"
    by (simp add: SplitMetadata_eq) (simp add: NewMetadata_def)
  with WithAttrs_metadata [OF d, of dec_nat "[NewMetadata ''n'' (ArgString ''1''), NewMetadata ''id'' (ArgString ''x2'')]"]
  show ?thesis by simp
qed

text \<open>
  C16: attributes given in two calls give a handler that prints their texts as if they had been given
  in one, under whatever group the handler has, with the same value for each name of metadata.
  The two handlers differ at most in the order of the metadata, and are the same when the second
  call has no metadata of a name that the first one has. The handler's own metadata has one value for
  each name, as every handler has it.
\<close>

theorem WithAttrs_append:
  assumes "distinct (map fst (metadata h))"
  shows "(WithAttrs tm (WithAttrs tm h xs) ys)\<lparr>metadata := []\<rparr> = (WithAttrs tm h (xs @ ys))\<lparr>metadata := []\<rparr>
    \<and> map_of (metadata (WithAttrs tm (WithAttrs tm h xs) ys)) = map_of (metadata (WithAttrs tm h (xs @ ys)))
    \<and> (fst ` set (fst (SplitMetadata xs)) \<inter> fst ` set (fst (SplitMetadata ys)) = {} \<longrightarrow>
        WithAttrs tm (WithAttrs tm h xs) ys = WithAttrs tm h (xs @ ys))"
proof -
  have "(WithAttrs tm (WithAttrs tm h xs) ys)\<lparr>metadata := []\<rparr> = (WithAttrs tm h (xs @ ys))\<lparr>metadata := []\<rparr>"
    by (rule ConsoleHandler_eqI) (simp_all add: WithAttrs_rest With_twice)
  moreover have "WithAttrs tm (WithAttrs tm h xs) ys = WithAttrs tm h (xs @ ys)"
    if "fst ` set (fst (SplitMetadata xs)) \<inter> fst ` set (fst (SplitMetadata ys)) = {}"
    by (rule ConsoleHandler_eqI) (simp_all add: WithAttrs_rest With_twice With_twice_same [OF assms that])
  ultimately show ?thesis using With_twice_map [OF assms] by blast
qed

theorem WithAttrs_append_witness:
  "WithAttrs dec_nat (WithAttrs dec_nat example_handler [(''a'', StringValue ''1'')]) [NewMetadata ''n'' (ArgString ''2'')]
    = WithAttrs dec_nat example_handler [(''a'', StringValue ''1''), NewMetadata ''n'' (ArgString ''2'')]"
proof -
  have "distinct (map fst (metadata example_handler))" by (simp add: example_handler_def)
  moreover have "fst (SplitMetadata [(''a'', StringValue ''1'' :: nat sval)]) = []"
    by (simp add: SplitMetadata_eq is_metadata_def metadataPrefix_def)
  ultimately show ?thesis
    using WithAttrs_append [of example_handler dec_nat "[(''a'', StringValue ''1'')]" "[NewMetadata ''n'' (ArgString ''2'')]"]
    by simp
qed

text \<open>
  C17: attributes given under groups that were opened one inside the other are printed with the names
  of all the groups before the key, joined by dots, the outermost first (for attributes that are not
  metadata, on a handler that has no group and no attributes yet); opening a group without
  a name changes nothing.
\<close>

theorem WithGroups_prefix_keys:
  assumes "[] \<notin> set gs" and "groupPrefix h = []" and "preFormatedAttr h = []" and "filter is_metadata attrs = []"
  shows "preFormatedAttr (WithAttrs tm (foldl WithGroup h gs) attrs)
    = strings_Join (map (\<lambda>(k, v). strings_Join (gs @ [k]) ''.'' @ ''='' @ value_String tm v) attrs) '' ''
   \<and> WithGroup h [] = h"
proof -
  have f: "filter (\<lambda>a. \<not> is_metadata a) attrs = attrs" using assms(4) by (simp add: filter_empty_conv filter_id_conv)
  have p: "groupPrefix (foldl WithGroup h gs) = strings_Join gs ''.''" using WithGroups_prefix [OF assms(1), of h] assms(2) by simp
  have "strings_Join gs ''.'' = [] \<longleftrightarrow> gs = []"
  proof (cases gs)
    case (Cons x xs)
    with assms(1) show ?thesis by (cases xs) auto
  qed simp
  then have "with_texts tm (strings_Join gs ''.'') attrs
      = map (\<lambda>(k, v). strings_Join (gs @ [k]) ''.'' @ ''='' @ value_String tm v) attrs"
    by (auto simp: with_texts_def f attr_String_def Join_append)
  then show ?thesis using p WithGroups_frame [of h gs] assms(3)
    by (simp add: WithAttrs_fields pre_texts_def) (simp add: WithGroup_def)
qed

theorem WithGroups_prefix_keys_witness:
  "preFormatedAttr (WithAttrs dec_nat (foldl WithGroup (example_handler\<lparr>groupPrefix := []\<rparr>) [''a'', ''b''])
      [(''k'', StringValue ''v''), (''l'', TimeValue 3)]) = ''a.b.k=v a.b.l=3''"
proof -
  have "[] \<notin> set [''a'', ''b'']" by simp
  moreover have "groupPrefix (example_handler\<lparr>groupPrefix := []\<rparr>) = []" "preFormatedAttr (example_handler\<lparr>groupPrefix := []\<rparr>) = []"
    by (simp_all add: example_handler_def)
  moreover have "filter is_metadata [(''k'', StringValue ''v''), (''l'', TimeValue 3 :: nat sval)] = []"
    by (simp add: is_metadata_def metadataPrefix_def)
  ultimately show ?thesis
    using WithGroups_prefix_keys [of "[''a'', ''b'']" "example_handler\<lparr>groupPrefix := []\<rparr>"
        "[(''k'', StringValue ''v''), (''l'', TimeValue 3)]" dec_nat]
    by (simp add: dec_nat.simps)
qed

text \<open>
  An error attribute is printed with its message when it comes with a record, and with the address
  of the closure that carries it when it was given by \<open>WithAttrs\<close>, which does not resolve values.
\<close>

theorem AttrError_unresolved:
  "AttrError addr (Some e) = Inr a \<longrightarrow>
     attr_text [] tf tm (fst a) (snd a) = '' error='' @ quoted (err_msg e) @ '' ''
   \<and> preFormatedAttr (WithAttrs tm (h\<lparr>groupPrefix := [], preFormatedAttr := []\<rparr>) [a]) = ''error='' @ addr"
proof -
  have "\<not> is_metadata (''error'', v :: 'a sval)" for v by (simp add: is_metadata_def metadataPrefix_def)
  moreover have "Resolve (LogValuer addr (StringValue (err_msg e))) = (StringValue (err_msg e) :: 'a sval)"
    by (simp add: Resolve_def numeral_eq_Suc)
  ultimately show ?thesis
    by (auto simp: AttrError_def attr_text.simps value_text_def WithAttrs_fields pre_texts_def with_texts_def attr_String_def)
qed

theorem AttrError_unresolved_witness:
  "attr_text [] dec_nat dec_nat ''error'' (LogValuer ''0xc0de'' (StringValue ''EOF'')) = '' error=EOF ''
   \<and> preFormatedAttr (WithAttrs dec_nat (example_handler\<lparr>groupPrefix := [], preFormatedAttr := []\<rparr>)
       [(''error'', LogValuer ''0xc0de'' (StringValue ''EOF''))]) = ''error=0xc0de''"
  using AttrError_unresolved [of "''0xc0de''" io_EOF "(''error'', LogValuer ''0xc0de'' (StringValue ''EOF''))"
      dec_nat dec_nat example_handler]
  by (simp add: AttrError_def quoted_def)

end
