(* ===== verification/Logger.thy ===== *)
theory Logger
  imports Console
begin

text \<open>
  The front end of \<^verbatim>\<open>log\<close>: \<^verbatim>\<open>feature.go\<close>, \<^verbatim>\<open>option.go\<close>, \<^verbatim>\<open>move.go\<close>, \<^verbatim>\<open>default.go\<close>, \<^verbatim>\<open>factory.go\<close>. Feature
  loggers are pointers, and an option writes through the pointer it is applied to, so they live in
  a list indexed by their addresses. What a program brings along (handlers, loggers of its own,
  the clock, the printing of arbitrary values) is a record of functions.
\<close>

subsection \<open>Loggers, options and arguments\<close>

text \<open>\<open>Other\<close> is a logger of the user's own.\<close>

datatype ('h, 'o) logger =
    FeatureLogger nat
  | SlogLogger 'h
  | UnimplementedContextLogger "('h, 'o) logger"
  | Other 'o

datatype ('h, 'o) Option =
    WithErrorLogger "('h, 'o) logger"
  | WithSetCallerSkip int
  | WithAddCallerSkip int
  | WithStrict
  | WithDisableSource
  | WithEnableSource

text \<open>An argument of type \<open>any\<close>; the last case has its Go type and what \<^verbatim>\<open>slog.AnyValue\<close> makes of it.\<close>

datatype ('h, 'o, 't) any =
    AnyString string
  | AnyAttr "'t attr"
  | AnyOption "('h, 'o) Option"
  | AnyValue string "'t sval"

record ('h, 'o) featureLogger =
  fhandler :: 'h
  strict :: bool
  callerSkip :: int
  enableTrace :: bool
  errorLogger :: "('h, 'o) logger option"

type_synonym ('h, 'o) loggers = "('h, 'o) featureLogger list"

text \<open>\<^verbatim>\<open>context.Context\<close> values are only passed through, a nil one is replaced.\<close>

datatype ctx = NilContext | Background | Context string

text \<open>
  The interfaces the loggers call. A frame of the call stack is the source it stands for; \<open>frame\<close>
  gives the one of a function of the library. \<open>print_type\<close> and \<open>print_value\<close> are the verbs \<open>%T\<close>
  and \<open>%v\<close>. The methods of other loggers get their call as the package's functions do; the optional
  ones may be absent.
\<close>

record ('h, 'o, 't, 'w) log_ops =
  h_Enabled :: "'h \<Rightarrow> ctx \<Rightarrow> int \<Rightarrow> bool"
  h_Handle :: "'h \<Rightarrow> ctx \<Rightarrow> 't Record \<Rightarrow> 'w \<Rightarrow> (go_error option \<times> 'w) go option"
  h_WithAttrs :: "'h \<Rightarrow> 't attr list \<Rightarrow> 'h"
  h_WithGroup :: "'h \<Rightarrow> string \<Rightarrow> 'h"
  o_log :: "'o \<Rightarrow> ctx option \<Rightarrow> int \<Rightarrow> string \<Rightarrow> ('h, 'o, 't) any list \<Rightarrow> 'w \<Rightarrow> 'w go option"
  o_Context :: "'o \<Rightarrow> bool"
  o_Handler :: "'o \<Rightarrow> 'h option"
  o_With :: "'o \<Rightarrow> (('h, 'o, 't) any list \<Rightarrow> ('h, 'o) logger) option"
  o_WithGroup :: "'o \<Rightarrow> (string \<Rightarrow> ('h, 'o) logger) option"
  clock :: 't
  frame :: "string \<Rightarrow> source"
  print_type :: "('h, 'o, 't) any \<Rightarrow> string"
  print_value :: "('h, 'o, 't) any \<Rightarrow> string"
  attr_time :: "'t \<Rightarrow> string"

subsection \<open>What slog does with arguments\<close>

definition any_value :: "('h, 'o, 't, 'w) log_ops \<Rightarrow> ('h, 'o, 't) any \<Rightarrow> 't sval" where
  "any_value ops x = (case x of
      AnyString s \<Rightarrow> StringValue s
    | AnyAttr a \<Rightarrow> TextValue (attr_String (attr_time ops) a)
    | AnyOption opt \<Rightarrow> TextValue (print_value ops (AnyOption opt))
    | AnyValue t v \<Rightarrow> v)"

text \<open>\<^verbatim>\<open>argsToAttr\<close>, round after round: a string is a key that takes the next argument for its value.\<close>

fun argsToAttrs :: "('h, 'o, 't, 'w) log_ops \<Rightarrow> ('h, 'o, 't) any list \<Rightarrow> 't attr list" where
  "argsToAttrs ops [] = []"
| "argsToAttrs ops [AnyString s] = [(''!BADKEY'', StringValue s)]"
| "argsToAttrs ops (AnyString s # x # args) = (s, any_value ops x) # argsToAttrs ops args"
| "argsToAttrs ops (AnyAttr a # args) = a # argsToAttrs ops args"
| "argsToAttrs ops (x # args) = (''!BADKEY'', any_value ops x) # argsToAttrs ops args"

text \<open>\<^verbatim>\<open>Record.Add\<close> and \<^verbatim>\<open>Record.AddAttrs\<close> leave out groups without members.\<close>

definition AddAttrs :: "'t attr list \<Rightarrow> 't attr list" where
  "AddAttrs attrs = filter (\<lambda>a. snd a \<noteq> GroupValue []) attrs"

definition Record_Add :: "('h, 'o, 't, 'w) log_ops \<Rightarrow> ('h, 'o, 't) any list \<Rightarrow> 't attr list" where
  "Record_Add ops args = AddAttrs (argsToAttrs ops args)"

text \<open>\<^verbatim>\<open>runtime.Callers\<close> for one frame; none is left beyond the bottom of the stack.\<close>

definition runtime_Callers :: "int \<Rightarrow> source list \<Rightarrow> source option" where
  "runtime_Callers skip frames = (if nat skip < length frames then Some (frames ! nat skip) else None)"

subsection \<open>Logging\<close>

definition initializeCallerSkip :: int where
  "initializeCallerSkip = 3"

text \<open>The methods: the four names, with \<open>Context\<close> behind them when a context is passed.\<close>

definition method_name :: "ctx option \<Rightarrow> int \<Rightarrow> string" where
  "method_name c level =
     (if level = LevelDebug then ''Debug'' else if level = LevelInfo then ''Info''
      else if level = LevelWarn then ''Warn'' else ''Error'') @ (if c = None then [] else ''Context'')"

definition context_of :: "ctx option \<Rightarrow> ctx" where
  "context_of c = (case c of None \<Rightarrow> Background | Some NilContext \<Rightarrow> Background | Some x \<Rightarrow> x)"

text \<open>The context methods of \<open>UnimplementedContextLogger\<close> call the other ones of the logger they hold: the context is
  dropped, and they stay on the call stack. The four others are the held logger's own.\<close>

definition unimplemented_frames :: "('h, 'o, 't, 'w) log_ops \<Rightarrow> ctx option \<Rightarrow> int \<Rightarrow> source list \<Rightarrow> source list" where
  "unimplemented_frames ops c level frames =
     (if c = None then frames else frame ops (''UnimplementedContextLogger.'' @ method_name c level) # frames)"

text \<open>
  The arguments in strict mode: attributes are kept, anything else goes to the error logger (the
  argument \<open>warn\<close>), or panics when there is none.
\<close>

fun strict_loop :: "('h, 'o, 't, 'w) log_ops \<Rightarrow> ('t attr list \<Rightarrow> 'w \<Rightarrow> 'w go option) option
    \<Rightarrow> ('h, 'o, 't) any list \<Rightarrow> 't attr list \<Rightarrow> 'w \<Rightarrow> ('t attr list \<times> 'w) go option" where
  "strict_loop ops warn [] attrs w = go_return (attrs, w)"
| "strict_loop ops warn (v # args) attrs w =
     (case v of
        AnyAttr a \<Rightarrow> strict_loop ops warn args (attrs @ [a]) w
      | _ \<Rightarrow> (case warn of
          Some f \<Rightarrow> go_bind (f [(''Type'', StringValue (print_type ops v)), (''Value'', StringValue (print_value ops v))] w)
              (\<lambda>w'. strict_loop ops warn args attrs w')
        | None \<Rightarrow> Some (Inl (PanicMsg (''Unexcepted logging attr, Type: '' @ print_type ops v @ '' Value: '' @ print_value ops v)))))"

text \<open>Both are monotone in the calls they make, as a recursive definition through them needs.\<close>

lemma go_bind_mono [partial_function_mono]:
  fixes m :: "('x \<Rightarrow> 'y option) \<Rightarrow> 'a go option"
  assumes m: "mono_option m" and k: "\<And>a. mono_option (\<lambda>f. k a f)"
  shows "mono_option (\<lambda>f. go_bind (m f) (\<lambda>a. k a f))"
proof (rule monotoneI)
  fix f g :: "'x \<Rightarrow> 'y option" assume fg: "fun_ord option_ord f g"
  have m': "option_ord (m f) (m g)" using m fg by (rule monotoneD [of _ _ _ f g])
  have k': "option_ord (k a f) (k a g)" for a using k fg by (rule monotoneD [of _ _ _ f g])
  show "option_ord (go_bind (m f) (\<lambda>a. k a f)) (go_bind (m g) (\<lambda>a. k a g))"
  proof (cases "m f = None")
    case True
    then show ?thesis by (simp add: go_bind_def flat_ord_def)
  next
    case False
    then have "m g = m f" using m' by (auto simp: flat_ord_def)
    then show ?thesis using k' by (auto simp: go_bind_def flat_ord_def split: option.split sum.split)
  qed
qed

lemma strict_loop_mono [partial_function_mono]:
  assumes g: "\<And>a w. mono_option (\<lambda>f. g f a w)"
  shows "mono_option (\<lambda>f. strict_loop ops (Some (g f)) args attrs w)"
proof (induction args arbitrary: attrs w)
  case Nil
  show ?case by (simp add: option.const_mono)
next
  case (Cons v args)
  have warn: "mono_option (\<lambda>f. go_bind (g f x w) (\<lambda>w'. strict_loop ops (Some (g f)) args attrs w'))" for x attrs w
    using g Cons.IH by (rule go_bind_mono)
  show ?case by (cases v) (simp_all add: Cons.IH warn)
qed

partial_function (option) logger_log :: "('h, 'o, 't, 'w) log_ops \<Rightarrow> ('h, 'o) loggers \<Rightarrow> ('h, 'o) logger
    \<Rightarrow> ctx option \<Rightarrow> int \<Rightarrow> string \<Rightarrow> ('h, 'o, 't) any list \<Rightarrow> source list \<Rightarrow> 'w \<Rightarrow> 'w go option" where
  "logger_log ops hp lg c level msg args frames w =
     (case lg of
        Other u \<Rightarrow> o_log ops u c level msg args w
      | UnimplementedContextLogger l \<Rightarrow>
          logger_log ops hp l None level msg args (unimplemented_frames ops c level frames) w
      | SlogLogger h \<Rightarrow>
          (if \<not> h_Enabled ops h (context_of c) level then go_return w
           else go_bind (h_Handle ops h (context_of c)
               \<lparr>Time = clock ops, Level = level, Message = msg, Attrs = Record_Add ops args,
                SourceOf = runtime_Callers 3 (frame ops ''runtime.Callers'' # frame ops ''Logger.log''
                  # frame ops (''Logger.'' @ method_name c level) # frames)\<rparr> w)
             (\<lambda>(err, w'). go_return w'))
      | FeatureLogger a \<Rightarrow>
          (if a \<ge> length hp then Some (Inl NilDereference)
           else let l = hp ! a;
                    inside = frame ops ''featureLogger.log'' # frame ops (''featureLogger.'' @ method_name c level) # frames
             in if \<not> h_Enabled ops (fhandler l) (context_of c) level then go_return w
                else let pc = (if enableTrace l
                       then runtime_Callers (wrap64 (initializeCallerSkip + callerSkip l)) (frame ops ''runtime.Callers'' # inside)
                       else None)
                  in go_bind
                       (if \<not> strict l then go_return (Record_Add ops args, w)
                        else case errorLogger l of
                          None \<Rightarrow> strict_loop ops None args [] w
                        | Some e \<Rightarrow> strict_loop ops
                            (Some (\<lambda>attrs w'. logger_log ops hp e None LevelWarn ''Unexcepted logging attr'' (map AnyAttr attrs) inside w'))
                            args [] w)
                       (\<lambda>(attrs, w1).
                          go_bind (h_Handle ops (fhandler l) (context_of c)
                              \<lparr>Time = clock ops, Level = level, Message = msg,
                               Attrs = (if strict l then AddAttrs attrs else attrs), SourceOf = pc\<rparr> w1)
                            (\<lambda>(err, w2). case errorLogger l of
                                None \<Rightarrow> go_return w2
                              | Some e \<Rightarrow>
                                  (if err = None then go_return w2
                                   else case AttrError ''ValueFunc'' err of
                                     Inl p \<Rightarrow> Some (Inl p)
                                   | Inr attr \<Rightarrow> logger_log ops hp e None LevelError
                                       ''An unexcepted error occurred during logging'' [AnyAttr attr] inside w2)))))"

subsection \<open>Options and \<open>With\<close>\<close>

text \<open>
  \<open>apply\<close> on the logger \<open>l\<close> at address \<open>self\<close>. The closure of \<open>WithErrorLogger\<close> names its parameter like the
  logger passed to the option, so it stores the logger it is applied to.
\<close>

fun apply_option :: "('h, 'o) Option \<Rightarrow> nat \<Rightarrow> ('h, 'o) featureLogger \<Rightarrow> ('h, 'o) featureLogger" where
  "apply_option (WithErrorLogger e) self l = l\<lparr>errorLogger := Some (FeatureLogger self)\<rparr>"
| "apply_option (WithSetCallerSkip n) self l = l\<lparr>callerSkip := n\<rparr>"
| "apply_option (WithAddCallerSkip n) self l = l\<lparr>callerSkip := wrap64 (callerSkip l + n)\<rparr>"
| "apply_option WithStrict self l = l\<lparr>strict := True\<rparr>"
| "apply_option WithDisableSource self l = l\<lparr>enableTrace := False\<rparr>"
| "apply_option WithEnableSource self l = l\<lparr>enableTrace := True\<rparr>"

definition flushOptions :: "nat \<Rightarrow> ('h, 'o) Option list \<Rightarrow> ('h, 'o) featureLogger \<Rightarrow> ('h, 'o) featureLogger" where
  "flushOptions self options l2 = fold (\<lambda>opt. apply_option opt self) options l2"

definition flushAttrs :: "('h, 'o, 't, 'w) log_ops \<Rightarrow> 't attr list \<Rightarrow> ('h, 'o) featureLogger \<Rightarrow> ('h, 'o) featureLogger" where
  "flushAttrs ops attrs l2 = l2\<lparr>fhandler := h_WithAttrs ops (fhandler l2) attrs\<rparr>"

text \<open>Attributes as arguments of a \<open>With\<close>.\<close>

fun attrsToAny_loop :: "'t attr list \<Rightarrow> ('h, 'o, 't) any list \<Rightarrow> ('h, 'o, 't) any list" where
  "attrsToAny_loop [] ans = ans"
| "attrsToAny_loop (v # attrs) ans = attrsToAny_loop attrs (ans @ [AnyAttr v])"

definition attrsToAny :: "'t attr list \<Rightarrow> ('h, 'o, 't) any list" where
  "attrsToAny attrs = attrsToAny_loop attrs []"

text \<open>The loop of \<open>With\<close>: the pending attributes and options are the two lists.\<close>

fun With_loop :: "('h, 'o, 't, 'w) log_ops \<Rightarrow> nat \<Rightarrow> ('h, 'o, 't) any list \<Rightarrow> 't attr list \<Rightarrow> ('h, 'o) Option list
    \<Rightarrow> ('h, 'o) featureLogger \<Rightarrow> ('h, 'o) featureLogger go" where
  "With_loop ops self [] attrs options l2 = Inr (flushOptions self options (flushAttrs ops attrs l2))"
| "With_loop ops self (aa # a) attrs options l2 =
     (case aa of
        AnyAttr x \<Rightarrow> With_loop ops self a (attrs @ [x]) [] (flushOptions self options l2)
      | AnyOption x \<Rightarrow> With_loop ops self a [] (options @ [x]) (flushAttrs ops attrs l2)
      | _ \<Rightarrow> Inl (PanicMsg (''unsupported type: '' @ print_type ops aa @ '': '' @ print_value ops aa)))"

lemma With_loop_attrs:
  "With_loop ops self (attrsToAny_loop attrs' (map AnyAttr attrs)) pending [] l2
    = Inr (flushAttrs ops (pending @ attrs @ attrs') l2)"
proof (induction attrs' arbitrary: attrs)
  case Nil
  show ?case by (induction attrs arbitrary: pending) (simp_all add: flushOptions_def)
next
  case (Cons v attrs')
  show ?case using Cons [of "attrs @ [v]"] by simp
qed

definition clone_logger :: "('h, 'o) featureLogger \<Rightarrow> ('h, 'o) featureLogger" where
  "clone_logger l =
     \<lparr>fhandler = fhandler l, strict = strict l, callerSkip = callerSkip l, enableTrace = enableTrace l,
      errorLogger = errorLogger l\<rparr>"

lemma clone_logger_id [simp]: "clone_logger l = l"
  by (simp add: clone_logger_def)

text \<open>The clone is the next cell of the list.\<close>

definition feature_With :: "('h, 'o, 't, 'w) log_ops \<Rightarrow> ('h, 'o, 't) any list \<Rightarrow> nat \<Rightarrow> ('h, 'o) loggers
    \<Rightarrow> (('h, 'o) logger \<times> ('h, 'o) loggers) go" where
  "feature_With ops a l hp =
     (if length a = 0 then Inr (FeatureLogger l, hp)
      else if l \<ge> length hp then Inl NilDereference
      else case With_loop ops (length hp) a [] [] (clone_logger (hp ! l)) of
             Inl p \<Rightarrow> Inl p
           | Inr l2 \<Rightarrow> Inr (FeatureLogger (length hp), hp @ [l2]))"

definition newFeatureLogger :: "('h, 'o, 't, 'w) log_ops \<Rightarrow> 'h \<Rightarrow> ('h, 'o, 't) any list \<Rightarrow> ('h, 'o) loggers
    \<Rightarrow> (('h, 'o) logger \<times> ('h, 'o) loggers) go" where
  "newFeatureLogger ops h vv hp =
     feature_With ops vv (length hp)
       (hp @ [\<lparr>fhandler = h, strict = False, callerSkip = 0, enableTrace = True, errorLogger = None\<rparr>])"

definition feature_WithGroup :: "('h, 'o, 't, 'w) log_ops \<Rightarrow> string \<Rightarrow> nat \<Rightarrow> ('h, 'o) loggers
    \<Rightarrow> (('h, 'o) logger \<times> ('h, 'o) loggers) go" where
  "feature_WithGroup ops s l hp =
     (if l \<ge> length hp then Inl NilDereference
      else Inr (FeatureLogger (length hp), hp @ [(clone_logger (hp ! l))\<lparr>fhandler := h_WithGroup ops (fhandler (hp ! l)) s\<rparr>]))"

definition feature_Enabled :: "('h, 'o, 't, 'w) log_ops \<Rightarrow> ctx \<Rightarrow> int \<Rightarrow> nat \<Rightarrow> ('h, 'o) loggers \<Rightarrow> bool go" where
  "feature_Enabled ops c level l hp =
     (if l \<ge> length hp then Inl NilDereference
      else Inr (h_Enabled ops (fhandler (hp ! l)) (context_of (Some c)) level))"

subsection \<open>The functions on any logger\<close>

text \<open>\<^verbatim>\<open>slog.Logger.With\<close> and \<^verbatim>\<open>slog.Logger.WithGroup\<close>.\<close>

definition slog_With :: "('h, 'o, 't, 'w) log_ops \<Rightarrow> ('h, 'o, 't) any list \<Rightarrow> 'h \<Rightarrow> 'h" where
  "slog_With ops args h = (if length args = 0 then h else h_WithAttrs ops h (argsToAttrs ops args))"

definition slog_WithGroup :: "('h, 'o, 't, 'w) log_ops \<Rightarrow> string \<Rightarrow> 'h \<Rightarrow> 'h" where
  "slog_WithGroup ops name h = (if name = [] then h else h_WithGroup ops h name)"

definition AsContextLogger :: "('h, 'o, 't, 'w) log_ops \<Rightarrow> ('h, 'o) logger \<Rightarrow> ('h, 'o) logger" where
  "AsContextLogger ops l = (case l of
      Other u \<Rightarrow> (if o_Context ops u then l else UnimplementedContextLogger l)
    | _ \<Rightarrow> l)"

definition New_logger :: "('h, 'o, 't, 'w) log_ops \<Rightarrow> 'h \<Rightarrow> ('h, 'o, 't) any list \<Rightarrow> ('h, 'o) loggers
    \<Rightarrow> (('h, 'o) logger \<times> ('h, 'o) loggers) go" where
  "New_logger ops h vv hp = newFeatureLogger ops h vv hp"

definition NewSlog :: "'h \<Rightarrow> ('h, 'o) logger" where
  "NewSlog h = SlogLogger h"

definition GetHandler :: "('h, 'o, 't, 'w) log_ops \<Rightarrow> ('h, 'o) logger \<Rightarrow> ('h, 'o) loggers \<Rightarrow> 'h option go" where
  "GetHandler ops l hp = (case l of
      FeatureLogger a \<Rightarrow> (if a \<ge> length hp then Inl NilDereference else Inr (Some (fhandler (hp ! a))))
    | SlogLogger h \<Rightarrow> Inr (Some h)
    | UnimplementedContextLogger l' \<Rightarrow> Inr None
    | Other u \<Rightarrow> Inr (o_Handler ops u))"

definition is_option :: "('h, 'o, 't) any \<Rightarrow> bool" where
  "is_option x = (case x of AnyOption u \<Rightarrow> True | _ \<Rightarrow> False)"

definition With_logger :: "('h, 'o, 't, 'w) log_ops \<Rightarrow> ('h, 'o) logger \<Rightarrow> ('h, 'o, 't) any list \<Rightarrow> ('h, 'o) loggers
    \<Rightarrow> (('h, 'o) logger \<times> ('h, 'o) loggers) go" where
  "With_logger ops l v hp =
     (if length v = 0 then Inr (l, hp)
      else case l of
        FeatureLogger a \<Rightarrow> feature_With ops v a hp
      | SlogLogger h \<Rightarrow>
          (let noOption = filter (\<lambda>x. \<not> is_option x) v
           in if length noOption = 0 then Inr (l, hp) else Inr (SlogLogger (slog_With ops noOption h), hp))
      | UnimplementedContextLogger l' \<Rightarrow> Inl (PanicMsg ''Logger doesn't implement With'')
      | Other u \<Rightarrow> (case o_With ops u of
            Some f \<Rightarrow> Inr (f v, hp)
          | None \<Rightarrow> Inl (PanicMsg ''Logger doesn't implement With'')))"

definition WithGroup_logger :: "('h, 'o, 't, 'w) log_ops \<Rightarrow> ('h, 'o) logger \<Rightarrow> string \<Rightarrow> ('h, 'o) loggers
    \<Rightarrow> (('h, 'o) logger \<times> ('h, 'o) loggers) go" where
  "WithGroup_logger ops l name hp =
     (if length name = 0 then Inr (l, hp)
      else case l of
        FeatureLogger a \<Rightarrow> feature_WithGroup ops name a hp
      | SlogLogger h \<Rightarrow> Inr (SlogLogger (slog_WithGroup ops name h), hp)
      | UnimplementedContextLogger l' \<Rightarrow> Inl (PanicMsg ''Logger doesn't implement group'')
      | Other u \<Rightarrow> (case o_WithGroup ops u of
            Some f \<Rightarrow> Inr (f name, hp)
          | None \<Rightarrow> Inl (PanicMsg ''Logger doesn't implement group'')))"

subsection \<open>The default logger\<close>

text \<open>The variables of the package, with the loggers they point to.\<close>

record ('h, 'o) log_vars =
  internalLogger :: "('h, 'o) logger"
  defaultLogger :: "('h, 'o) logger"
  loggers :: "('h, 'o) loggers"

text \<open>Their initial values; \<open>text_handler\<close> is \<^verbatim>\<open>slog.NewTextHandler(os.Stderr, nil)\<close>.\<close>

definition init_log_vars :: "('h, 'o, 't, 'w) log_ops \<Rightarrow> 'h \<Rightarrow> ('h, 'o) log_vars go" where
  "init_log_vars ops text_handler =
     (case New_logger ops text_handler [AnyOption (WithAddCallerSkip 1)] [] of
        Inl p \<Rightarrow> Inl p
      | Inr (internal, hp) \<Rightarrow>
          (case New_logger ops text_handler [] hp of
             Inl p \<Rightarrow> Inl p
           | Inr (def, hp') \<Rightarrow> Inr \<lparr>internalLogger = internal, defaultLogger = def, loggers = hp'\<rparr>))"

definition SetDefaultLogger :: "('h, 'o, 't, 'w) log_ops \<Rightarrow> ('h, 'o) logger \<Rightarrow> ('h, 'o) log_vars
    \<Rightarrow> ('h, 'o) logger go \<times> ('h, 'o) log_vars" where
  "SetDefaultLogger ops l vars =
     (let old = defaultLogger vars;
          vars1 = vars\<lparr>defaultLogger := AsContextLogger ops l\<rparr>
      in case With_logger ops (defaultLogger vars1) [AnyOption (WithAddCallerSkip 1)] (loggers vars1) of
           Inl p \<Rightarrow> (Inl p, vars1)
         | Inr (w, hp) \<Rightarrow> (Inr old, vars1\<lparr>internalLogger := AsContextLogger ops w, loggers := hp\<rparr>))"

definition GetDefaultLogger :: "('h, 'o) log_vars \<Rightarrow> ('h, 'o) logger" where
  "GetDefaultLogger vars = internalLogger vars"

definition Default :: "('h, 'o) log_vars \<Rightarrow> ('h, 'o) logger" where
  "Default vars = defaultLogger vars"

text \<open>\<open>Debug\<close>, \<open>Info\<close>, \<open>Warn\<close>, \<open>Error\<close> and the four that take a context.\<close>

definition package_log :: "('h, 'o, 't, 'w) log_ops \<Rightarrow> ('h, 'o) log_vars \<Rightarrow> ctx option \<Rightarrow> int \<Rightarrow> string
    \<Rightarrow> ('h, 'o, 't) any list \<Rightarrow> source list \<Rightarrow> 'w \<Rightarrow> 'w go option" where
  "package_log ops vars c level msg v frames w =
     logger_log ops (loggers vars) (internalLogger vars) c level msg v (frame ops (''log.'' @ method_name c level) # frames) w"

subsection \<open>The factory\<close>

record 'h Factory =
  factory_handler :: 'h

definition NewFactory :: "'h \<Rightarrow> 'h Factory" where
  "NewFactory handler = \<lparr>factory_handler = handler\<rparr>"

fun Factory_loop :: "('h, 'o, 't, 'w) log_ops \<Rightarrow> ('h, 'o, 't) any list \<Rightarrow> 't attr list \<Rightarrow> 'h \<Rightarrow> 'h go" where
  "Factory_loop ops [] attrs h = Inr (slog_With ops (map AnyAttr attrs) h)"
| "Factory_loop ops (v # vv) attrs h =
     (case v of
        AnyString x \<Rightarrow> Factory_loop ops vv []
          (slog_WithGroup ops x (if length attrs \<noteq> 0 then slog_With ops (map AnyAttr attrs) h else h))
      | AnyAttr x \<Rightarrow> Factory_loop ops vv (attrs @ [x]) h
      | _ \<Rightarrow> Inl (PanicMsg ''unexcepted input''))"

definition Factory_New :: "('h, 'o, 't, 'w) log_ops \<Rightarrow> ('h, 'o, 't) any list \<Rightarrow> 'h Factory \<Rightarrow> ('h, 'o) logger go" where
  "Factory_New ops vv f = map_sum id SlogLogger (Factory_loop ops vv [] (factory_handler f))"

end
