(* ===== verification/LoggerLaws.thy ===== *)
theory LoggerLaws
  imports Logger ConsoleWith
begin

text \<open>
  What the loggers promise: how \<open>With\<close> sorts options and attributes, which records reach the handler
  and with which source, and what happens when the handler fails. The handler is an interface;
  the console handler implements it.
\<close>

subsection \<open>The interface of handlers\<close>

text \<open>
  Attributes given in two calls count as given in one, and giving none changes nothing. What a
  handler shows of itself is its \<open>view\<close>; \<open>hinv\<close> is its invariant.
\<close>

locale slog_handler =
  fixes ops :: "('h, 'o, 't, 'w) log_ops" and hinv :: "'h \<Rightarrow> bool" and view :: "'h \<Rightarrow> 'v"
  assumes with_inv: "hinv h \<Longrightarrow> hinv (h_WithAttrs ops h as)"
    and group_inv: "hinv h \<Longrightarrow> hinv (h_WithGroup ops h g)"
    and with_none: "hinv h \<Longrightarrow> view (h_WithAttrs ops h []) = view h"
    and with_append: "hinv h \<Longrightarrow> view (h_WithAttrs ops (h_WithAttrs ops h as) bs) = view (h_WithAttrs ops h (as @ bs))"
    and with_view: "hinv h \<Longrightarrow> hinv h' \<Longrightarrow> view h = view h' \<Longrightarrow> view (h_WithAttrs ops h as) = view (h_WithAttrs ops h' as)"
    and group_view: "hinv h \<Longrightarrow> hinv h' \<Longrightarrow> view h = view h' \<Longrightarrow> view (h_WithGroup ops h g) = view (h_WithGroup ops h' g)"

text \<open>The attributes and the options among the arguments of \<open>With\<close>.\<close>

fun attrs_of :: "('h, 'o, 't) any list \<Rightarrow> 't attr list" where
  "attrs_of [] = []"
| "attrs_of (AnyAttr a # xs) = a # attrs_of xs"
| "attrs_of (x # xs) = attrs_of xs"

fun options_of :: "('h, 'o, 't) any list \<Rightarrow> ('h, 'o) Option list" where
  "options_of [] = []"
| "options_of (AnyOption x # xs) = x # options_of xs"
| "options_of (x # xs) = options_of xs"

definition with_argument :: "('h, 'o, 't) any \<Rightarrow> bool" where
  "with_argument x = (case x of AnyAttr a \<Rightarrow> True | AnyOption y \<Rightarrow> True | _ \<Rightarrow> False)"

lemma apply_option_handler: "apply_option opt self (l\<lparr>fhandler := h\<rparr>) = (apply_option opt self l)\<lparr>fhandler := h\<rparr>"
  by (cases opt) simp_all

lemma fhandler_apply [simp]: "fhandler (apply_option opt self l) = fhandler l"
  by (cases opt) simp_all

lemma flushOptions_handler: "flushOptions self os (l\<lparr>fhandler := h\<rparr>) = (flushOptions self os l)\<lparr>fhandler := h\<rparr>"
  by (induction os arbitrary: l) (simp_all add: flushOptions_def apply_option_handler)

lemma fhandler_flushOptions [simp]: "fhandler (flushOptions self os l) = fhandler l"
  by (induction os arbitrary: l) (simp_all add: flushOptions_def)

lemma flushOptions_append: "flushOptions self (os @ os') l = flushOptions self os' (flushOptions self os l)"
  by (simp add: flushOptions_def)

lemma flushOptions_Nil [simp]: "flushOptions self [] l = l"
  by (simp add: flushOptions_def)

context slog_handler begin

lemma With_loop_spec:
  "list_all with_argument args \<Longrightarrow> hinv (fhandler l2) \<Longrightarrow>
    \<exists>h'. With_loop ops self args attrs options l2
        = Inr ((flushOptions self (options @ options_of args) l2)\<lparr>fhandler := h'\<rparr>)
      \<and> hinv h' \<and> view h' = view (h_WithAttrs ops (fhandler l2) (attrs @ attrs_of args))"
proof (induction args arbitrary: attrs options l2)
  case Nil
  then show ?case
    by (intro exI [of _ "h_WithAttrs ops (fhandler l2) attrs"]) (simp add: flushAttrs_def flushOptions_handler with_inv)
next
  case (Cons x args)
  then show ?case
  proof (cases x)
    case (AnyAttr a)
    from Cons.IH [of "flushOptions self options l2" "attrs @ [a]" "[]"] Cons.prems AnyAttr
    show ?thesis by (simp add: flushOptions_append)
  next
    case (AnyOption u)
    let ?h = "h_WithAttrs ops (fhandler l2) attrs"
    obtain h' where h': "With_loop ops self args [] (options @ [u]) (flushAttrs ops attrs l2)
        = Inr ((flushOptions self ((options @ [u]) @ options_of args) (flushAttrs ops attrs l2))\<lparr>fhandler := h'\<rparr>)"
      "hinv h'" "view h' = view (h_WithAttrs ops ?h ([] @ attrs_of args))"
      using Cons.IH [of "flushAttrs ops attrs l2" "[]" "options @ [u]"] Cons.prems by (auto simp: flushAttrs_def with_inv)
    then show ?thesis using AnyOption with_append [OF Cons.prems(2)]
      by (intro exI [of _ h']) (simp add: flushAttrs_def flushOptions_handler)
  qed (simp_all add: with_argument_def)
qed

end

subsection \<open>The console handler as a handler of loggers\<close>

text \<open>The world the console handler writes to; failures of its flushes go to the internal logger.\<close>

record 'w console_world =
  cw_writer :: 'w
  cw_alloc :: allocator
  cw_internal :: "(string \<times> go_error option) list"

definition console_Handle :: "'t log_env \<Rightarrow> 'w write_fn \<Rightarrow> nat \<Rightarrow> 't Handler \<Rightarrow> ctx \<Rightarrow> 't Record \<Rightarrow> 'w console_world
    \<Rightarrow> (go_error option \<times> 'w console_world) go option" where
  "console_Handle env wr choice h c r w = (case h of
      DiscardHandler \<Rightarrow> go_return (None, w)
    | Console ch \<Rightarrow> go_bind (Handle env wr choice ch r (cw_writer w) (cw_alloc w))
        (\<lambda>(err, logs, w', al'). go_return (err, w\<lparr>cw_writer := w', cw_alloc := al', cw_internal := cw_internal w @ logs\<rparr>)))"

text \<open>The methods of the two handlers in place of those of \<open>base\<close>.\<close>

definition console_ops :: "'t log_env \<Rightarrow> 'w write_fn \<Rightarrow> nat \<Rightarrow> ('t Handler, 'o, 't, 'w console_world) log_ops
    \<Rightarrow> ('t Handler, 'o, 't, 'w console_world) log_ops" where
  "console_ops env wr choice base = base\<lparr>
     h_Enabled := (\<lambda>h c level. case h of DiscardHandler \<Rightarrow> False | Console ch \<Rightarrow> Enabled ch level),
     h_Handle := console_Handle env wr choice,
     h_WithAttrs := (\<lambda>h as. case h of DiscardHandler \<Rightarrow> DiscardHandler | Console ch \<Rightarrow> Console (WithAttrs (slog_time env) ch as)),
     h_WithGroup := (\<lambda>h g. case h of DiscardHandler \<Rightarrow> DiscardHandler | Console ch \<Rightarrow> Console (WithGroup ch g))\<rparr>"

definition console_inv :: "'t Handler \<Rightarrow> bool" where
  "console_inv h = (case h of DiscardHandler \<Rightarrow> True | Console ch \<Rightarrow> distinct (map fst (metadata ch)))"

text \<open>All of a handler but the order of its metadata.\<close>

definition console_view :: "'t Handler \<Rightarrow> ('t ConsoleHandler \<times> (string \<Rightarrow> 't sval option)) option" where
  "console_view h = (case h of DiscardHandler \<Rightarrow> None | Console ch \<Rightarrow> Some (ch\<lparr>metadata := []\<rparr>, map_of (metadata ch)))"

lemma WithAttrs_view:
  "(WithAttrs tm h as)\<lparr>metadata := []\<rparr> = (h\<lparr>metadata := []\<rparr>)
     \<lparr>preFormatedAttr := strings_Join (pre_texts h @ with_texts tm (groupPrefix h) as) '' ''\<rparr>"
  by (rule ConsoleHandler_eqI) (simp_all add: WithAttrs_rest WithAttrs_fields)

lemma console_handler:
  fixes env :: "'t log_env"
  shows "slog_handler (console_ops env wr choice base) console_inv console_view"
proof
  fix h :: "'t Handler" and as assume "console_inv h"
  then show "console_inv (h_WithAttrs (console_ops env wr choice base) h as)"
    by (cases h) (simp_all add: console_inv_def console_ops_def With_metadata)
next
  fix h :: "'t Handler" and g assume "console_inv h"
  then show "console_inv (h_WithGroup (console_ops env wr choice base) h g)"
    by (cases h) (simp_all add: console_inv_def console_ops_def)
next
  fix h :: "'t Handler" assume "console_inv h"
  then show "console_view (h_WithAttrs (console_ops env wr choice base) h []) = console_view h"
    by (cases h) (simp_all add: console_ops_def WithAttrs_def)
next
  fix h :: "'t Handler" and as bs assume h: "console_inv h"
  show "console_view (h_WithAttrs (console_ops env wr choice base) (h_WithAttrs (console_ops env wr choice base) h as) bs)
      = console_view (h_WithAttrs (console_ops env wr choice base) h (as @ bs))"
  proof (cases h)
    case (Console ch)
    let ?tm = "slog_time env"
    have d: "distinct (map fst (metadata ch))" using h Console by (simp add: console_inv_def)
    have "(WithAttrs ?tm (WithAttrs ?tm ch as) bs)\<lparr>metadata := []\<rparr> = (WithAttrs ?tm ch (as @ bs))\<lparr>metadata := []\<rparr>"
      by (rule ConsoleHandler_eqI) (simp_all add: WithAttrs_rest With_twice)
    moreover have "map_of (metadata (WithAttrs ?tm (WithAttrs ?tm ch as) bs)) = map_of (metadata (WithAttrs ?tm ch (as @ bs)))"
      using With_metadata [OF d, of ?tm as] With_metadata [OF d, of ?tm "as @ bs"]
        With_metadata [of "WithAttrs ?tm ch as" ?tm bs] by (simp add: SplitMetadata_eq)
    ultimately show ?thesis using Console by (simp add: console_ops_def console_view_def)
  qed (simp add: console_ops_def)
next
  fix h h' :: "'t Handler" and as assume h: "console_inv h" "console_inv h'" "console_view h = console_view h'"
  show "console_view (h_WithAttrs (console_ops env wr choice base) h as) = console_view (h_WithAttrs (console_ops env wr choice base) h' as)"
  proof (cases "h = DiscardHandler \<or> h' = DiscardHandler")
    case False
    then obtain ch ch' where c: "h = Console ch" "h' = Console ch'" by (cases h; cases h') auto
    have e: "ch\<lparr>metadata := []\<rparr> = ch'\<lparr>metadata := []\<rparr>" "map_of (metadata ch) = map_of (metadata ch')"
      and d: "distinct (map fst (metadata ch))" "distinct (map fst (metadata ch'))"
      using h c by (simp_all add: console_view_def console_inv_def)
    have g: "groupPrefix ch = groupPrefix ch'" "preFormatedAttr ch = preFormatedAttr ch'"
      using arg_cong [OF e(1), of groupPrefix] arg_cong [OF e(1), of preFormatedAttr] by simp_all
    show ?thesis using c e(2) With_metadata [OF d(1), of "slog_time env" as] With_metadata [OF d(2), of "slog_time env" as]
      by (simp add: console_ops_def console_view_def WithAttrs_view e(1) g pre_texts_def)
  qed (use h(3) in \<open>auto simp: console_view_def console_ops_def split: Handler.splits\<close>)
next
  fix h h' :: "'t Handler" and g assume h: "console_inv h" "console_inv h'" "console_view h = console_view h'"
  show "console_view (h_WithGroup (console_ops env wr choice base) h g) = console_view (h_WithGroup (console_ops env wr choice base) h' g)"
  proof (cases "h = DiscardHandler \<or> h' = DiscardHandler")
    case False
    then obtain ch ch' where c: "h = Console ch" "h' = Console ch'" by (cases h; cases h') auto
    have e: "ch\<lparr>metadata := []\<rparr> = ch'\<lparr>metadata := []\<rparr>" "map_of (metadata ch) = map_of (metadata ch')"
      using h c by (simp_all add: console_view_def)
    have "(WithGroup x g)\<lparr>metadata := []\<rparr> = WithGroup (x\<lparr>metadata := []\<rparr>) g" for x :: "'t ConsoleHandler"
      by (simp add: WithGroup_def withGroup_def)
    then show ?thesis using c e by (simp add: console_ops_def console_view_def)
  qed (use h(3) in \<open>auto simp: console_view_def console_ops_def split: Handler.splits\<close>)
qed

interpretation console: slog_handler "console_ops env wr choice base" console_inv console_view
  for env wr choice base
  by (rule console_handler)

subsection \<open>One call of a feature logger\<close>

lemma Callers_method: "runtime_Callers 3 (x # y # z # frames) = (if frames = [] then None else Some (hd frames))"
  by (cases frames) (simp_all add: runtime_Callers_def)

lemma Callers_skip: "0 \<le> n \<Longrightarrow> runtime_Callers (3 + n) (x # y # z # frames) = runtime_Callers n frames"
  by (simp add: runtime_Callers_def nat_add_distrib)

lemma Callers_next: "0 \<le> n \<Longrightarrow> runtime_Callers (n + 1) (x # frames) = runtime_Callers n frames"
  by (simp add: runtime_Callers_def nat_add_distrib)

text \<open>The record a logger without error logger hands over.\<close>

definition feature_record :: "('h, 'o, 't, 'w) log_ops \<Rightarrow> ('h, 'o) featureLogger \<Rightarrow> int \<Rightarrow> string \<Rightarrow> 't attr list
    \<Rightarrow> source option \<Rightarrow> 't Record" where
  "feature_record ops l level msg attrs pc =
     \<lparr>Time = clock ops, Level = level, Message = msg, Attrs = attrs, SourceOf = (if enableTrace l then pc else None)\<rparr>"

lemma feature_log_plain:
  assumes "a < length hp" and "\<not> strict (hp ! a)" and "errorLogger (hp ! a) = None"
    and "0 \<le> callerSkip (hp ! a)" and "callerSkip (hp ! a) \<le> max_int - 3"
  shows "logger_log ops hp (FeatureLogger a) c level msg args frames w
    = (if \<not> h_Enabled ops (fhandler (hp ! a)) (context_of c) level then go_return w
       else go_bind (h_Handle ops (fhandler (hp ! a)) (context_of c)
           (feature_record ops (hp ! a) level msg (Record_Add ops args) (runtime_Callers (callerSkip (hp ! a)) frames)) w)
         (\<lambda>(err, w'). go_return w'))"
proof -
  have s: "wrap64 (initializeCallerSkip + callerSkip (hp ! a)) = 3 + callerSkip (hp ! a)"
    using assms(4,5) by (simp add: initializeCallerSkip_def wrap64_nonneg)
  show ?thesis
    using assms by (subst logger_log.simps)
      (simp add: s Callers_skip feature_record_def Let_def case_prod_unfold cong: if_cong)
qed

text \<open>A logger without error logger, strict or not.\<close>

lemma feature_log_alone:
  assumes "a < length hp" and "errorLogger (hp ! a) = None"
    and "0 \<le> callerSkip (hp ! a)" and "callerSkip (hp ! a) \<le> max_int - 3"
  shows "logger_log ops hp (FeatureLogger a) c level msg args frames w
    = (if \<not> h_Enabled ops (fhandler (hp ! a)) (context_of c) level then go_return w
       else go_bind (if strict (hp ! a) then strict_loop ops None args [] w else go_return (Record_Add ops args, w))
         (\<lambda>(attrs, w1). go_bind (h_Handle ops (fhandler (hp ! a)) (context_of c)
             (feature_record ops (hp ! a) level msg (if strict (hp ! a) then AddAttrs attrs else attrs)
               (runtime_Callers (callerSkip (hp ! a)) frames)) w1)
           (\<lambda>(err, w'). go_return w')))"
proof -
  have s: "wrap64 (initializeCallerSkip + callerSkip (hp ! a)) = 3 + callerSkip (hp ! a)"
    using assms(3,4) by (simp add: initializeCallerSkip_def wrap64_nonneg)
  show ?thesis
    using assms by (subst logger_log.simps)
      (simp add: s Callers_skip feature_record_def Let_def case_prod_unfold cong: if_cong)
qed

definition is_attr :: "('h, 'o, 't) any \<Rightarrow> bool" where
  "is_attr x = (case x of AnyAttr a \<Rightarrow> True | _ \<Rightarrow> False)"

lemma strict_loop_attrs:
  "strict_loop ops None args attrs w
    = (case filter (\<lambda>x. \<not> is_attr x) args of
         [] \<Rightarrow> go_return (attrs @ attrs_of args, w)
       | v # _ \<Rightarrow> Some (Inl (PanicMsg (''Unexcepted logging attr, Type: '' @ print_type ops v @ '' Value: '' @ print_value ops v))))"
proof (induction args arbitrary: attrs)
  case Nil
  show ?case by simp
next
  case (Cons v args)
  then show ?case by (cases v) (auto simp: is_attr_def split: list.split)
qed

text \<open>Attributes alone give the same record in strict mode and out of it.\<close>

lemma strict_loop_only_attrs: "list_all is_attr args \<Longrightarrow> strict_loop ops warn args attrs w = go_return (attrs @ attrs_of args, w)"
proof (induction args arbitrary: attrs)
  case (Cons v args)
  then show ?case by (cases v) (simp_all add: is_attr_def)
qed simp

lemma argsToAttrs_only_attrs: "list_all is_attr args \<Longrightarrow> argsToAttrs ops args = attrs_of args"
proof (induction args)
  case (Cons v args)
  then show ?case by (cases v) (simp_all add: is_attr_def)
qed simp

text \<open>A record that the handler takes without an error, whatever the options.\<close>

lemma feature_log_taken:
  assumes "a < length hp" and "strict (hp ! a) \<longrightarrow> list_all is_attr args"
    and "0 \<le> callerSkip (hp ! a)" and "callerSkip (hp ! a) \<le> max_int - 3"
    and "h_Enabled ops (fhandler (hp ! a)) (context_of c) level"
    and "h_Handle ops (fhandler (hp ! a)) (context_of c)
      (feature_record ops (hp ! a) level msg (Record_Add ops args) (runtime_Callers (callerSkip (hp ! a)) frames)) w
      = Some (Inr (None, w'))"
  shows "logger_log ops hp (FeatureLogger a) c level msg args frames w = Some (Inr w')"
proof -
  have s: "wrap64 (initializeCallerSkip + callerSkip (hp ! a)) = 3 + callerSkip (hp ! a)"
    using assms(3,4) by (simp add: initializeCallerSkip_def wrap64_nonneg)
  have h: "h_Handle ops (fhandler (hp ! a)) (context_of c) \<lparr>Time = clock ops, Level = level, Message = msg,
      Attrs = Record_Add ops args, SourceOf = (if enableTrace (hp ! a) then runtime_Callers (callerSkip (hp ! a)) frames else None)\<rparr> w
      = Some (Inr (None, w'))"
    using assms(6) by (simp add: feature_record_def)
  show ?thesis
  proof (cases "strict (hp ! a)")
    case True
    then have "Record_Add ops args = AddAttrs (attrs_of args)" "list_all is_attr args"
      using assms(2) argsToAttrs_only_attrs [of args ops] by (simp_all add: Record_Add_def)
    then show ?thesis using True assms(1,3,5) h
      by (subst logger_log.simps)
        (cases "errorLogger (hp ! a)", simp_all add: s Callers_skip strict_loop_only_attrs Let_def go_return_def cong: if_cong)
  next
    case False
    then show ?thesis using assms(1,3,5) h
      by (subst logger_log.simps)
        (cases "errorLogger (hp ! a)", simp_all add: s Callers_skip Let_def go_return_def cong: if_cong)
  qed
qed

subsection \<open>Loggers made by the factory\<close>

text \<open>Strings open groups, attributes are added, one at a time and in order.\<close>

definition factory_step :: "('h, 'o, 't, 'w) log_ops \<Rightarrow> ('h, 'o, 't) any \<Rightarrow> 'h \<Rightarrow> 'h" where
  "factory_step ops v h = (case v of
      AnyString g \<Rightarrow> slog_WithGroup ops g h
    | AnyAttr a \<Rightarrow> h_WithAttrs ops h [a]
    | _ \<Rightarrow> h)"

definition factory_argument :: "('h, 'o, 't) any \<Rightarrow> bool" where
  "factory_argument x = (case x of AnyAttr a \<Rightarrow> True | AnyString g \<Rightarrow> True | _ \<Rightarrow> False)"

lemma argsToAttrs_attrs [simp]: "argsToAttrs ops (map AnyAttr as) = as"
  by (induction as) simp_all

context slog_handler begin

lemma slog_With_spec:
  "hinv h \<Longrightarrow> hinv (slog_With ops (map AnyAttr as) h) \<and> view (slog_With ops (map AnyAttr as) h) = view (h_WithAttrs ops h as)"
  by (simp add: slog_With_def with_inv with_none)

lemma slog_WithGroup_spec:
  "hinv h \<Longrightarrow> hinv h' \<Longrightarrow> view h = view h' \<Longrightarrow>
    hinv (slog_WithGroup ops g h) \<and> view (slog_WithGroup ops g h) = view (slog_WithGroup ops g h')"
  by (cases "g = []") (simp_all add: slog_WithGroup_def group_inv group_view [of h h' g])

lemma factory_step_inv: "hinv h \<Longrightarrow> hinv (factory_step ops v h)"
  by (cases v) (simp_all add: factory_step_def slog_WithGroup_def group_inv with_inv)

lemma Factory_loop_spec:
  "list_all factory_argument vv \<Longrightarrow> hinv h \<Longrightarrow> hinv h0 \<Longrightarrow> view (h_WithAttrs ops h attrs) = view h0 \<Longrightarrow>
    \<exists>h'. Factory_loop ops vv attrs h = Inr h' \<and> hinv h' \<and> view h' = view (fold (factory_step ops) vv h0)"
proof (induction vv arbitrary: attrs h h0)
  case Nil
  then show ?case using slog_With_spec [of h attrs] by simp
next
  case (Cons v vv)
  show ?case
  proof (cases v)
    case (AnyString g)
    define h1 where "h1 = (if length attrs \<noteq> 0 then slog_With ops (map AnyAttr attrs) h else h)"
    have h1: "hinv h1" "view h1 = view h0"
      using slog_With_spec [of h attrs] Cons.prems with_none [of h] by (auto simp: h1_def)
    note g = slog_WithGroup_spec [OF h1(1) Cons.prems(3) h1(2), of g]
    from Cons.IH [of "slog_WithGroup ops g h1" "slog_WithGroup ops g h0" "[]"] Cons.prems(1)
      g factory_step_inv [OF Cons.prems(3), of v] with_none [of "slog_WithGroup ops g h1"] AnyString
    show ?thesis by (simp add: factory_step_def h1_def)
  next
    case (AnyAttr a)
    have "view (h_WithAttrs ops h (attrs @ [a])) = view (h_WithAttrs ops h0 [a])"
      using with_append [OF Cons.prems(2), of attrs "[a]"] with_view [OF with_inv [OF Cons.prems(2)] Cons.prems(3,4), of "[a]"] by simp
    from Cons.IH [OF _ Cons.prems(2) with_inv [OF Cons.prems(3)] this] Cons.prems(1) AnyAttr
    show ?thesis by (simp add: factory_step_def)
  qed (use Cons.prems(1) in \<open>simp_all add: factory_argument_def\<close>)
qed

end

text \<open>Functions of a program for examples: a handler with some \<open>Handle\<close> and \<open>WithAttrs\<close>.\<close>

definition plain_ops :: "('h \<Rightarrow> nat Record \<Rightarrow> 'w \<Rightarrow> (go_error option \<times> 'w) go option) \<Rightarrow> ('h \<Rightarrow> nat attr list \<Rightarrow> 'h)
    \<Rightarrow> ('h, nat, nat, 'w) log_ops" where
  "plain_ops handle with_attrs =
     \<lparr>h_Enabled = (\<lambda>h c l. LevelInfo \<le> l), h_Handle = (\<lambda>h c r w. handle h r w), h_WithAttrs = with_attrs,
      h_WithGroup = (\<lambda>h g. h), o_log = (\<lambda>u c l m args w. go_return w), o_Context = (\<lambda>u. u \<noteq> 0), o_Handler = (\<lambda>u. None),
      o_With = (\<lambda>u. None), o_WithGroup = (\<lambda>u. None), clock = 7, frame = (\<lambda>f. \<lparr>File = ''lib.go'', Line = 1, Function = f\<rparr>),
      print_type = (\<lambda>x. ''T''), print_value = (\<lambda>x. ''V''), attr_time = dec_nat\<rparr>"

text \<open>One that collects the records, and one that always fails.\<close>

definition recording_ops :: "(nat attr list, nat, nat, nat Record list) log_ops" where
  "recording_ops = plain_ops (\<lambda>h r w. go_return (None, w @ [r\<lparr>Attrs := h @ Attrs r\<rparr>])) (@)"

definition failing_ops :: "(nat attr list, nat, nat, nat) log_ops" where
  "failing_ops = plain_ops (\<lambda>h r w. go_return (Some io_EOF, w + 1)) (@)"

definition example_logger :: "'h \<Rightarrow> ('h, nat) featureLogger" where
  "example_logger h = \<lparr>fhandler = h, strict = False, callerSkip = 0, enableTrace = True, errorLogger = None\<rparr>"

abbreviation example_console :: "(nat Handler, nat, nat, log_file safe_writer console_world) log_ops" where
  "example_console \<equiv> console_ops example_env (safe_Write file_Write) 0 (plain_ops (\<lambda>h r w. go_return (None, w)) (\<lambda>h as. h))"

subsection \<open>Properties\<close>

text \<open>
  C12: \<open>With\<close> may be given attributes and options in any order. The logger it returns has all the options,
  applied from left to right, and a handler that shows itself like the old one with all the
  attributes in one call; the old logger is not changed.
\<close>

theorem With_collects:
  assumes "slog_handler ops hinv view" and "list_all with_argument args" and "args \<noteq> []"
    and "a < length hp" and "hinv (fhandler (hp ! a))"
  shows "\<exists>h'. feature_With ops args a hp
      = Inr (FeatureLogger (length hp), hp @ [(flushOptions (length hp) (options_of args) (hp ! a))\<lparr>fhandler := h'\<rparr>])
    \<and> hinv h' \<and> view h' = view (h_WithAttrs ops (fhandler (hp ! a)) (attrs_of args))"
  using slog_handler.With_loop_spec [OF assms(1,2,5), of "length hp" "[]" "[]"] assms(3,4)
  by (auto simp: feature_With_def)

theorem With_collects_witness:
  "\<exists>h'. feature_With example_console [AnyOption WithStrict, AnyAttr (''k'', StringValue ''v''), AnyOption (WithAddCallerSkip 2)] 0
       [example_logger (Console example_handler)]
     = Inr (FeatureLogger 1, [example_logger (Console example_handler),
         \<lparr>fhandler = h', strict = True, callerSkip = 2, enableTrace = True, errorLogger = None\<rparr>])
   \<and> console_view h' = console_view (Console (WithAttrs dec_nat example_handler [(''k'', StringValue ''v'')]))"
proof -
  let ?args = "[AnyOption WithStrict, AnyAttr (''k'', StringValue ''v''), AnyOption (WithAddCallerSkip 2)] :: (nat Handler, nat, nat) any list"
  let ?hp = "[example_logger (Console example_handler)]"
  have args: "list_all with_argument ?args" by (simp add: with_argument_def)
  have inv: "console_inv (fhandler (?hp ! 0))" by (simp add: console_inv_def example_logger_def example_handler_def)
  have "(flushOptions (length ?hp) (options_of ?args) (?hp ! 0))\<lparr>fhandler := h'\<rparr>
      = \<lparr>fhandler = h', strict = True, callerSkip = 2, enableTrace = True, errorLogger = None\<rparr>" for h'
    by (simp add: flushOptions_def example_logger_def wrap64_nonneg)
  moreover have "h_WithAttrs example_console (fhandler (?hp ! 0)) (attrs_of ?args)
      = Console (WithAttrs dec_nat example_handler [(''k'', StringValue ''v'')])"
    by (simp add: console_ops_def example_logger_def example_env_def)
  ultimately show ?thesis
    using With_collects [OF console.slog_handler_axioms args _ _ inv, of example_env "safe_Write file_Write" 0
        "plain_ops (\<lambda>h r w. go_return (None, w)) (\<lambda>h as. h)"] by auto
qed

text \<open>
  C13: a logger made with default options is \<^verbatim>\<open>slog.Logger\<close> on the same handler: every method, given the
  same arguments by the same caller, hands over the same record, with the caller as its source.
\<close>

theorem feature_is_slog:
  assumes "newFeatureLogger ops h [] hp = Inr (l, hp')"
  shows "logger_log ops hp' l c level msg args frames w = logger_log ops hp' (SlogLogger h) c level msg args frames w"
proof -
  have l: "l = FeatureLogger (length hp)" "length hp < length hp'" "hp' ! length hp
      = \<lparr>fhandler = h, strict = False, callerSkip = 0, enableTrace = True, errorLogger = None\<rparr>"
    using assms by (auto simp: newFeatureLogger_def feature_With_def)
  have "runtime_Callers 0 frames = runtime_Callers 3 (x # y # z # frames)" for x y z
    using Callers_skip [of 0] by simp
  then show ?thesis unfolding l(1)
    by (subst feature_log_plain) (auto simp: l logger_log.simps [of ops hp' "SlogLogger h"] feature_record_def cong: if_cong)
qed

theorem feature_is_slog_witness:
  "logger_log recording_ops [example_logger []] (FeatureLogger 0) None LevelInfo ''m'' [AnyString ''k'', AnyString ''v'']
      [\<lparr>File = ''main.go'', Line = 3, Function = ''main''\<rparr>] []
    = Some (Inr [\<lparr>Time = 7, Level = 0, Message = ''m'', Attrs = [(''k'', StringValue ''v'')],
        SourceOf = Some \<lparr>File = ''main.go'', Line = 3, Function = ''main''\<rparr>\<rparr>])"
proof -
  have "newFeatureLogger recording_ops [] [] [] = Inr (FeatureLogger 0, [example_logger []])"
    by (simp add: newFeatureLogger_def feature_With_def example_logger_def)
  from feature_is_slog [OF this] show ?thesis
    by (simp add: logger_log.simps [of _ _ "SlogLogger _"] recording_ops_def plain_ops_def runtime_Callers_def
        Record_Add_def AddAttrs_def any_value_def) (simp add: go_return_def)
qed

text \<open>
  C14: after \<open>SetDefaultLogger\<close> with a feature logger that has no error logger, a function of the package
  does exactly what the method of the default logger does when the caller calls it directly: the
  frame of the package's own function is skipped. This is for a logger, strict or not, whose own
  caller skip is not negative (with a negative one both calls report frames inside the library), and
  a handler that goes on as before when it is given no attributes.
\<close>

theorem package_skips_itself:
  assumes "SetDefaultLogger ops (FeatureLogger a) vars = (Inr old, vars')"
    and handle: "\<And>h c r w. h_Handle ops (h_WithAttrs ops h []) c r w = h_Handle ops h c r w"
    and enabled: "\<And>h c level. h_Enabled ops (h_WithAttrs ops h []) c level = h_Enabled ops h c level"
    and "a < length (loggers vars)" and "errorLogger (loggers vars ! a) = None"
    and "0 \<le> callerSkip (loggers vars ! a)" and "callerSkip (loggers vars ! a) \<le> max_int - 4"
  shows "package_log ops vars' c level msg v frames w
    = logger_log ops (loggers vars') (Default vars') c level msg v frames w"
proof -
  let ?l = "loggers vars ! a"
  let ?l2 = "?l\<lparr>fhandler := h_WithAttrs ops (h_WithAttrs ops (fhandler ?l) []) [], callerSkip := callerSkip ?l + 1\<rparr>"
  have l: "internalLogger vars' = FeatureLogger (length (loggers vars))" "defaultLogger vars' = FeatureLogger a"
    "loggers vars' = loggers vars @ [?l2]"
    using assms by (auto simp: SetDefaultLogger_def AsContextLogger_def With_logger_def feature_With_def Let_def
        flushAttrs_def flushOptions_def wrap64_nonneg)
  have i: "loggers vars' ! a = ?l" "loggers vars' ! length (loggers vars) = ?l2" "a < length (loggers vars')"
    "length (loggers vars) < length (loggers vars')"
    using assms(4) by (simp_all add: l nth_append)
  have "logger_log ops (loggers vars') (FeatureLogger (length (loggers vars))) c level msg v (x # frames) w
      = logger_log ops (loggers vars') (FeatureLogger a) c level msg v frames w" for x
    using feature_log_alone [OF i(4), of ops c level msg v "x # frames" w] feature_log_alone [OF i(3), of ops c level msg v frames w]
      assms(5-) by (simp add: i(1,2) handle enabled Callers_next feature_record_def cong: if_cong)
  then show ?thesis by (simp add: package_log_def Default_def l(1,2))
qed

theorem package_skips_itself_witness:
  "\<exists>old vars'. SetDefaultLogger recording_ops (FeatureLogger 0)
       \<lparr>internalLogger = SlogLogger [], defaultLogger = SlogLogger [], loggers = [example_logger []]\<rparr> = (Inr old, vars')
     \<and> package_log recording_ops vars' None LevelInfo ''m'' [] [\<lparr>File = ''main.go'', Line = 3, Function = ''main''\<rparr>] []
       = logger_log recording_ops (loggers vars') (Default vars') None LevelInfo ''m'' []
           [\<lparr>File = ''main.go'', Line = 3, Function = ''main''\<rparr>] []"
proof -
  let ?vars = "\<lparr>internalLogger = SlogLogger [], defaultLogger = SlogLogger [], loggers = [example_logger []]\<rparr> :: (nat attr list, nat) log_vars"
  obtain old vars' where set: "SetDefaultLogger recording_ops (FeatureLogger 0) ?vars = (Inr old, vars')"
    by (simp add: SetDefaultLogger_def AsContextLogger_def With_logger_def feature_With_def)
  have none: "h_WithAttrs recording_ops h [] = h" for h by (simp add: recording_ops_def plain_ops_def)
  from package_skips_itself [OF set] set show ?thesis by (simp add: example_logger_def none)
qed

text \<open>
  \<open>SetDefaultLogger\<close> panics for every logger of the user's own that has no context methods, even when
  it has a \<open>With\<close>: the wrapper hides it. By then the default logger has been replaced, while the
  functions of the package go on with the old one.
\<close>

theorem SetDefaultLogger_refuses:
  assumes "o_Context ops u \<longrightarrow> o_With ops u = None"
  shows "\<exists>vars'. SetDefaultLogger ops (Other u) vars = (Inl (PanicMsg ''Logger doesn't implement With''), vars')
    \<and> Default vars' = AsContextLogger ops (Other u) \<and> GetDefaultLogger vars' = GetDefaultLogger vars"
  using assms by (auto simp: SetDefaultLogger_def AsContextLogger_def With_logger_def Default_def GetDefaultLogger_def Let_def)

theorem SetDefaultLogger_refuses_witness:
  "\<exists>vars'. SetDefaultLogger recording_ops (Other 0)
       \<lparr>internalLogger = SlogLogger [], defaultLogger = SlogLogger [], loggers = []\<rparr>
       = (Inl (PanicMsg ''Logger doesn't implement With''), vars')
     \<and> Default vars' = UnimplementedContextLogger (Other 0) \<and> GetDefaultLogger vars' = SlogLogger []"
proof -
  have "o_Context recording_ops 0 \<longrightarrow> o_With recording_ops 0 = None" by (simp add: recording_ops_def plain_ops_def)
  from SetDefaultLogger_refuses [OF this, of "\<lparr>internalLogger = SlogLogger [], defaultLogger = SlogLogger [], loggers = []\<rparr>"]
  show ?thesis by (auto simp: AsContextLogger_def recording_ops_def plain_ops_def GetDefaultLogger_def)
qed

text \<open>
  In strict mode without an error logger, a record has exactly the attributes among the arguments,
  in their order; an argument that is not an attribute makes the call panic before the handler is
  called.
\<close>

theorem strict_attributes:
  assumes "a < length hp" and "strict (hp ! a)" and "errorLogger (hp ! a) = None"
    and "h_Enabled ops (fhandler (hp ! a)) (context_of c) level"
    and "0 \<le> callerSkip (hp ! a)" and "callerSkip (hp ! a) \<le> max_int - 3"
  shows "logger_log ops hp (FeatureLogger a) c level msg args frames w
    = (case filter (\<lambda>x. \<not> is_attr x) args of
         [] \<Rightarrow> go_bind (h_Handle ops (fhandler (hp ! a)) (context_of c)
             (feature_record ops (hp ! a) level msg (AddAttrs (attrs_of args)) (runtime_Callers (callerSkip (hp ! a)) frames)) w)
             (\<lambda>(err, w'). go_return w')
       | v # _ \<Rightarrow> Some (Inl (PanicMsg (''Unexcepted logging attr, Type: '' @ print_type ops v @ '' Value: '' @ print_value ops v))))"
proof -
  have s: "wrap64 (initializeCallerSkip + callerSkip (hp ! a)) = 3 + callerSkip (hp ! a)"
    using assms(5,6) by (simp add: initializeCallerSkip_def wrap64_nonneg)
  show ?thesis using assms by (subst logger_log.simps)
    (simp add: s Callers_skip strict_loop_attrs feature_record_def Let_def case_prod_unfold cong: if_cong split: list.split)
qed

theorem strict_attributes_witness:
  "logger_log recording_ops [(example_logger [])\<lparr>strict := True\<rparr>] (FeatureLogger 0) None LevelInfo ''m''
      [AnyAttr (''k'', StringValue ''v''), AnyString ''x''] [] []
    = Some (Inl (PanicMsg ''Unexcepted logging attr, Type: T Value: V''))"
  using strict_attributes [of 0 "[(example_logger [])\<lparr>strict := True\<rparr>]" recording_ops None LevelInfo "''m''"
      "[AnyAttr (''k'', StringValue ''v''), AnyString ''x'']" "[]" "[]"]
  by (simp add: example_logger_def recording_ops_def plain_ops_def is_attr_def)

text \<open>
  C38: the option \<open>WithErrorLogger\<close> makes the logger its own error logger, whatever logger it is given: when
  the handler fails on every record, a call at an enabled level never returns.
\<close>

theorem WithErrorLogger_diverges:
  assumes "newFeatureLogger ops h [AnyOption (WithErrorLogger e)] hp = Inr (l, hp')"
    and "\<And>h c r w. \<exists>err w'. h_Handle ops h c r w = Some (Inr (Some err, w'))"
    and "\<And>h. h_Enabled ops h Background LevelError" and "\<And>h. h_Enabled ops h (context_of c) level"
  shows "logger_log ops hp' l c level msg args frames w = None"
proof -
  let ?a = "Suc (length hp)"
  have l: "l = FeatureLogger ?a" "hp' = hp @ [\<lparr>fhandler = h, strict = False, callerSkip = 0, enableTrace = True, errorLogger = None\<rparr>,
      \<lparr>fhandler = h_WithAttrs ops (h_WithAttrs ops h []) [], strict = False, callerSkip = 0, enableTrace = True,
       errorLogger = Some (FeatureLogger ?a)\<rparr>]"
    using assms(1) by (auto simp: newFeatureLogger_def feature_With_def flushAttrs_def flushOptions_def)
  have cell: "?a < length hp'" "\<not> strict (hp' ! ?a)" "errorLogger (hp' ! ?a) = Some (FeatureLogger ?a)"
    by (simp_all add: l(2) nth_append)
  define P :: "('a, 'b, 'c, 'd) log_ops \<Rightarrow> ('a, 'b) loggers \<Rightarrow> ('a, 'b) logger \<Rightarrow> ctx option \<Rightarrow> int \<Rightarrow> string
      \<Rightarrow> ('a, 'b, 'c) any list \<Rightarrow> source list \<Rightarrow> 'd \<Rightarrow> 'd go \<Rightarrow> bool"
    where "P = (\<lambda>ops0 hp0 l0 c0 level0 msg0 args0 frames0 w0 y. ops0 = ops \<longrightarrow> hp0 = hp' \<longrightarrow> l0 = FeatureLogger ?a \<longrightarrow>
      \<not> h_Enabled ops (fhandler (hp' ! ?a)) (context_of c0) level0)"
  have loops: "P ops hp' (FeatureLogger ?a) c level msg args frames w y"
    if "logger_log ops hp' (FeatureLogger ?a) c level msg args frames w = Some y" for y
  proof (rule logger_log.raw_induct [of P, OF _ that], goal_cases)
    case (1 log ops0 hp0 l0 c0 level0 msg0 args0 frames0 w0 y)
    show ?case unfolding P_def
    proof (intro impI notI)
      assume e: "ops0 = ops" "hp0 = hp'" "l0 = FeatureLogger ?a" "h_Enabled ops (fhandler (hp' ! ?a)) (context_of c0) level0"
      obtain pc where pc: "pc = (if enableTrace (hp' ! ?a)
        then runtime_Callers (wrap64 (initializeCallerSkip + callerSkip (hp' ! ?a)))
          (frame ops ''runtime.Callers'' # frame ops ''featureLogger.log'' # frame ops (''featureLogger.'' @ method_name c0 level0) # frames0)
        else None)" by simp
      obtain err w' where "h_Handle ops (fhandler (hp' ! ?a)) (context_of c0)
          \<lparr>Time = clock ops, Level = level0, Message = msg0, Attrs = Record_Add ops args0, SourceOf = pc\<rparr> w0 = Some (Inr (Some err, w'))"
        using assms(2) by blast
      then have "\<exists>m x fr. log ops hp' (FeatureLogger ?a) None LevelError m x fr w' = Some y"
        using 1(2) e cell by (simp add: pc AttrError_def Let_def cong: if_cong) blast
      then obtain m x fr where "log ops hp' (FeatureLogger ?a) None LevelError m x fr w' = Some y" by blast
      from 1(1) [OF this] assms(3) show False by (simp add: P_def context_of_def)
    qed
  qed
  then show ?thesis unfolding l(1) using assms(4) by (cases "logger_log ops hp' (FeatureLogger ?a) c level msg args frames w") (auto simp: P_def)
qed

theorem WithErrorLogger_diverges_witness:
  "\<exists>l hp. newFeatureLogger failing_ops [] [AnyOption (WithErrorLogger (SlogLogger []))] [] = Inr (l, hp)
    \<and> logger_log failing_ops hp l None LevelInfo ''m'' [] [] 0 = None"
proof -
  obtain l hp where new: "newFeatureLogger failing_ops [] [AnyOption (WithErrorLogger (SlogLogger []))] [] = Inr (l, hp)"
    by (simp add: newFeatureLogger_def feature_With_def)
  have "\<exists>err w'. h_Handle failing_ops h c r w = Some (Inr (Some err, w'))" for h c r w
    by (simp add: failing_ops_def plain_ops_def go_return_def)
  moreover have "h_Enabled failing_ops h c LevelInfo" "h_Enabled failing_ops h c LevelError" for h c
    by (simp_all add: failing_ops_def plain_ops_def)
  ultimately show ?thesis using new WithErrorLogger_diverges [OF new, of None LevelInfo "''m''" "[]" "[]" 0] by blast
qed

text \<open>
  The logger of a factory has a handler that shows itself like the factory's after opening a group
  for every string and adding every attribute, in the order of the arguments.
\<close>

theorem Factory_New_in_order:
  assumes "slog_handler ops hinv view" and "list_all factory_argument vv" and "hinv (factory_handler f)"
  shows "\<exists>h. Factory_New ops vv f = Inr (SlogLogger h) \<and> hinv h
    \<and> view h = view (fold (factory_step ops) vv (factory_handler f))"
  using slog_handler.Factory_loop_spec [OF assms(1,2,3,3), of "[]"] slog_handler.with_none [OF assms(1,3)]
  by (auto simp: Factory_New_def)

theorem Factory_New_in_order_witness:
  "\<exists>h. Factory_New example_console [AnyAttr (''a'', StringValue ''1''), AnyString ''g'', AnyAttr (''b'', StringValue ''2'')]
      (NewFactory (Console (example_handler\<lparr>groupPrefix := []\<rparr>))) = Inr (SlogLogger h)
    \<and> (case h of Console ch \<Rightarrow> preFormatedAttr ch = ''a=1 g.b=2'' | DiscardHandler \<Rightarrow> False)"
proof -
  let ?vv = "[AnyAttr (''a'', StringValue ''1''), AnyString ''g'', AnyAttr (''b'', StringValue ''2'')] :: (nat Handler, nat, nat) any list"
  let ?f = "NewFactory (Console (example_handler\<lparr>groupPrefix := []\<rparr>))"
  let ?ops = "example_console"
  have "list_all factory_argument ?vv" by (simp add: factory_argument_def)
  moreover have "console_inv (factory_handler ?f)" by (simp add: NewFactory_def console_inv_def example_handler_def)
  ultimately obtain h where h: "Factory_New ?ops ?vv ?f = Inr (SlogLogger h)"
      "console_view h = console_view (fold (factory_step ?ops) ?vv (factory_handler ?f))"
    using Factory_New_in_order [OF console.slog_handler_axioms] by blast
  have nm: "\<not> is_metadata (''a'', v)" "\<not> is_metadata (''b'', v)" for v :: "nat sval"
    by (simp_all add: is_metadata_def metadataPrefix_def)
  obtain ch where ch: "fold (factory_step ?ops) ?vv (factory_handler ?f) = Console ch" "preFormatedAttr ch = ''a=1 g.b=2''"
    by (simp add: factory_step_def console_ops_def NewFactory_def slog_WithGroup_def WithAttrs_fields WithGroup_prefix
        pre_texts_def with_texts_def nm attr_String_def example_handler_def)
  from h(2) ch obtain ch' where "h = Console ch'" "ch'\<lparr>metadata := []\<rparr> = ch\<lparr>metadata := []\<rparr>"
    by (cases h) (auto simp: console_view_def)
  moreover from arg_cong [OF this(2), of preFormatedAttr] have "preFormatedAttr ch' = preFormatedAttr ch" by simp
  ultimately show ?thesis using h(1) ch(2) by simp
qed

text \<open>
  C11: a logger over the console handler and a writer that keeps the contract of \<^verbatim>\<open>io.Writer\<close>, with any options
  but a negative caller skip (or one within 3 of MaxInt); a strict one is given attributes only. A call below the handler's level changes nothing. A call at its level or above
  whose line fits the buffer makes exactly one write of exactly the line that the handler's format
  gives the record, with the caller, or the frame as many above it as the skip says, for its source;
  it returns normally whatever that write does, and leaves an error of it to the internal logger.
\<close>

theorem logger_prints_line:
  assumes "io_full_writer wr winv sink" and "heap_ok (cw_alloc w)" and "winv (cw_writer w)"
    and "a < length hp" and "fhandler (hp ! a) = Console ch" and "strict (hp ! a) \<longrightarrow> list_all is_attr args"
    and "0 \<le> callerSkip (hp ! a)" and "callerSkip (hp ! a) \<le> max_int - 3"
    and "line = format_line env ch (feature_record (console_ops env wr choice base) (hp ! a) level msg
        (Record_Add (console_ops env wr choice base) args) (runtime_Callers (callerSkip (hp ! a)) frames))"
    and "wr (cw_writer w) (bytes line) = Inr (n, e, w1)"
  shows "(level < hlevel ch \<longrightarrow>
        logger_log (console_ops env wr choice base) hp (FeatureLogger a) c level msg args frames w = Some (Inr w))
    \<and> (hlevel ch \<le> level \<and> length line \<le> 16384 \<longrightarrow>
        (\<exists>al'. logger_log (console_ops env wr choice base) hp (FeatureLogger a) c level msg args frames w
           = Some (Inr \<lparr>cw_writer = w1, cw_alloc = al', cw_internal = cw_internal w
               @ (if e = None then [] else [(''flush log buffer failed'', Some (Cause e ''flush''))])\<rparr>)
         \<and> heap_ok al'))"
proof (intro conjI impI)
  assume "level < hlevel ch"
  then show "logger_log (console_ops env wr choice base) hp (FeatureLogger a) c level msg args frames w = Some (Inr w)"
    using assms(4,5) by (subst logger_log.simps) (simp add: console_ops_def Enabled_def go_return_def)
next
  assume on: "hlevel ch \<le> level \<and> length line \<le> 16384"
  let ?ops = "console_ops env wr choice base"
  define r where "r = feature_record ?ops (hp ! a) level msg (Record_Add ?ops args) (runtime_Callers (callerSkip (hp ! a)) frames)"
  let ?logs = "if e = None then [] else [(''flush log buffer failed'', Some (Cause e ''flush''))]"
  from io_full_writer.Handle_short [OF assms(1,2,3), of env ch r n e w1 choice] assms(9,10) on
  obtain al' where al': "heap_ok al'" "Handle env wr choice ch r (cw_writer w) (cw_alloc w) = Some (Inr (None, ?logs, w1, al'))"
    by (auto simp: r_def)
  have en: "h_Enabled ?ops (fhandler (hp ! a)) (context_of c) level" using on assms(5) by (simp add: console_ops_def Enabled_def)
  have "h_Handle ?ops (fhandler (hp ! a)) (context_of c) r w
      = Some (Inr (None, w\<lparr>cw_writer := w1, cw_alloc := al', cw_internal := cw_internal w @ ?logs\<rparr>))"
    using al'(2) assms(5) by (simp add: console_ops_def console_Handle_def go_return_def)
  from feature_log_taken [OF assms(4,6,7,8) en this [unfolded r_def]]
  have "logger_log ?ops hp (FeatureLogger a) c level msg args frames w
      = Some (Inr (w\<lparr>cw_writer := w1, cw_alloc := al', cw_internal := cw_internal w @ ?logs\<rparr>))" .
  with al'(1) show "\<exists>al'. logger_log ?ops hp (FeatureLogger a) c level msg args frames w
      = Some (Inr \<lparr>cw_writer = w1, cw_alloc = al', cw_internal = cw_internal w @ ?logs\<rparr>) \<and> heap_ok al'"
    by (intro exI [of _ al']) simp
qed

theorem logger_prints_line_witness:
  "\<exists>al'. logger_log example_console [(example_logger (Console example_handler))\<lparr>strict := True\<rparr>] (FeatureLogger 0) None LevelInfo ''hi'' [] []
      \<lparr>cw_writer = NewSafeWriter (\<lambda>_. False) \<lparr>chunks = [], space_left = 100\<rparr>, cw_alloc = newDefaultAllocator, cw_internal = []\<rparr>
      = Some (Inr \<lparr>cw_writer = NewSafeWriter (\<lambda>_. False) \<lparr>chunks = [bytes (''7 INFO  [x1] hi'' @ [CHR 0x0A])], space_left = 84\<rparr>,
          cw_alloc = al', cw_internal = []\<rparr>)"
proof -
  let ?line = "''7 INFO  [x1] hi'' @ [CHR 0x0A]"
  let ?w = "\<lparr>cw_writer = NewSafeWriter (\<lambda>_. False) \<lparr>chunks = [], space_left = 100\<rparr>, cw_alloc = newDefaultAllocator, cw_internal = []\<rparr>"
  let ?hp = "[(example_logger (Console example_handler))\<lparr>strict := True\<rparr>]"
  have cell: "fhandler (?hp ! 0) = Console example_handler" "callerSkip (?hp ! 0) = 0" "0 < length ?hp"
    by (simp_all add: example_logger_def)
  have line: "?line = format_line example_env example_handler (feature_record example_console (?hp ! 0) LevelInfo ''hi''
      (Record_Add example_console []) (runtime_Callers (callerSkip (?hp ! 0)) []))"
    by (simp add: format_line_def example_env_def example_handler_def meta_text_def EqualLengthLevelFormatter_def dec_nat.simps
        feature_record_def Record_Add_def AddAttrs_def runtime_Callers_def console_ops_def plain_ops_def example_logger_def)
  have call: "safe_Write file_Write (cw_writer ?w) (bytes ?line)
      = Inr (16, None, NewSafeWriter (\<lambda>_. False) \<lparr>chunks = [bytes ?line], space_left = 84\<rparr>)"
    by (simp add: safe_Write_def SafeWriter_Write_def NewSafeWriter_def file_Write_def bytes_def)
  have "heap_ok (cw_alloc ?w)" using alloc_wf_heap [OF alloc_wf_new] by simp
  from logger_prints_line [OF safe_file.io_full_writer_axioms this _ cell(3,1) _ _ _ line call, of None] cell(2)
  show ?thesis by (auto simp: example_handler_def)
qed

end
