(* ===== verification/BufPool.thy ===== *)
theory BufPool
  imports Lifecycle
begin

text \<open>
  \<^verbatim>\<open>enhancements/pool/pool.go\<close>, the typed wrapper of \<^verbatim>\<open>sync.Pool\<close>, and \<^verbatim>\<open>buf/pool.go\<close>, the deprecated pool of
  buffers of one size. As in the allocator a \<^verbatim>\<open>sync.Pool\<close> is a list, and \<open>choice\<close> says which item it
  hands out, or that it has none left (it may drop items at any time).
\<close>

subsection \<open>The typed pool\<close>

record 'a Pool =
  items :: "'a list"

definition New_Pool :: "'a Pool" where
  "New_Pool = \<lparr>items = []\<rparr>"

text \<open>\<open>constructor\<close> is the function the pool was made with, over the state \<open>'s\<close>.\<close>

definition Get_Pool :: "nat \<Rightarrow> ('s \<Rightarrow> ('a \<times> 's) go) \<Rightarrow> 'a Pool \<Rightarrow> 's \<Rightarrow> ('a \<times> 'a Pool \<times> 's) go" where
  "Get_Pool choice constructor p s =
     (if choice < length (items p)
      then Inr (items p ! choice, p\<lparr>items := take choice (items p) @ drop (Suc choice) (items p)\<rparr>, s)
      else case constructor s of Inl q \<Rightarrow> Inl q | Inr (x, s') \<Rightarrow> Inr (x, p, s'))"

definition Put_Pool :: "'a \<Rightarrow> 'a Pool \<Rightarrow> 'a Pool" where
  "Put_Pool v p = p\<lparr>items := v # items p\<rparr>"

subsection \<open>The pool of buffers\<close>

definition maxBufferSize :: int where
  "maxBufferSize = 65536"

record BufferPool =
  psize :: int
  ppool :: "Buffer Pool option"

definition NewPool :: "int \<Rightarrow> BufferPool go" where
  "NewPool sz =
     (if sz \<le> 0 then Inl (PanicMsg ''negative buffer pool size'')
      else Inr \<lparr>psize = sz, ppool = (if sz < maxBufferSize then Some New_Pool else None)\<rparr>)"

definition poolIsValid :: "BufferPool \<Rightarrow> bool" where
  "poolIsValid p \<longleftrightarrow> psize p < maxBufferSize \<and> ppool p \<noteq> None"

text \<open>\<open>As(make([]byte, n))\<close>; a negative length panics.\<close>

definition As_make :: "int \<Rightarrow> allocator \<Rightarrow> (Buffer \<times> allocator) go" where
  "As_make n al =
     (if n < 0 then Inl (PanicMsg ''makeslice: len out of range'')
      else Inr (As (Slice (next_array al) (replicate (nat n) 0) (nat n)), al\<lparr>next_array := Suc (next_array al)\<rparr>))"

definition BufferPool_Get :: "nat \<Rightarrow> nat \<Rightarrow> BufferPool \<Rightarrow> allocator \<Rightarrow> (Buffer \<times> BufferPool \<times> allocator) go" where
  "BufferPool_Get choice array p al =
     (if \<not> poolIsValid p then (case As_make (psize p) al of Inl q \<Rightarrow> Inl q | Inr (b, al') \<Rightarrow> Inr (b, p, al'))
      else case Get_Pool choice (NewSize array (psize p)) (the (ppool p)) al of
             Inl q \<Rightarrow> Inl q
           | Inr (b, pp, al') \<Rightarrow> Inr (Reset b, p\<lparr>ppool := Some pp\<rparr>, al'))"

definition BufferPool_GetSize :: "nat \<Rightarrow> nat \<Rightarrow> int \<Rightarrow> BufferPool \<Rightarrow> allocator \<Rightarrow> (Buffer \<times> BufferPool \<times> allocator) go" where
  "BufferPool_GetSize choice array sz p al =
     (if psize p \<le> sz \<and> poolIsValid p
      then (case BufferPool_Get choice array p al of
              Inl q \<Rightarrow> Inl q
            | Inr (b, p', al') \<Rightarrow>
                (case Resize b sz of (err, b') \<Rightarrow>
                   (case Must err of Inl q \<Rightarrow> Inl q | Inr _ \<Rightarrow> Inr (b', p', al'))))
      else case As_make sz al of Inl q \<Rightarrow> Inl q | Inr (b, al') \<Rightarrow> Inr (b, p, al'))"

definition BufferPool_Put :: "Buffer \<Rightarrow> BufferPool \<Rightarrow> BufferPool" where
  "BufferPool_Put x p =
     (if \<not> poolIsValid p \<or> bsize x > psize p \<or> ref x > 0 then p
      else p\<lparr>ppool := Some (Put_Pool x (the (ppool p)))\<rparr>)"

subsection \<open>What a pool keeps\<close>

text \<open>Its buffers are in order, no larger than its size, and nobody holds a reference.\<close>

definition item_ok :: "int \<Rightarrow> Buffer \<Rightarrow> bool" where
  "item_ok sz b \<longleftrightarrow> buf_wf b \<and> returnable b \<and> bsize b \<le> sz \<and> ref b \<le> 0"

definition pool_inv :: "BufferPool \<Rightarrow> bool" where
  "pool_inv p \<longleftrightarrow> 0 < psize p \<and> psize p \<le> max_int
     \<and> (case ppool p of None \<Rightarrow> maxBufferSize \<le> psize p
        | Some pp \<Rightarrow> psize p < maxBufferSize \<and> list_all (item_ok (psize p)) (items pp))"

lemma pool_inv_new: "0 < sz \<Longrightarrow> sz \<le> max_int \<Longrightarrow> NewPool sz = Inr p \<Longrightarrow> pool_inv p"
  by (auto simp: NewPool_def pool_inv_def New_Pool_def split: if_splits)

lemma pool_inv_put: "pool_inv p \<Longrightarrow> buf_wf x \<Longrightarrow> returnable x \<Longrightarrow> pool_inv (BufferPool_Put x p)"
proof (cases "\<not> poolIsValid p \<or> bsize x > psize p \<or> ref x > 0")
  case False
  assume inv: "pool_inv p" and x: "buf_wf x" "returnable x"
  obtain pp where pp: "ppool p = Some pp" "psize p < maxBufferSize" using False by (auto simp: poolIsValid_def)
  then have "BufferPool_Put x p = p\<lparr>ppool := Some (pp\<lparr>items := x # items pp\<rparr>)\<rparr>"
    using False by (simp add: BufferPool_Put_def Put_Pool_def)
  moreover have "item_ok (psize p) x" using False x by (simp add: item_ok_def)
  ultimately show ?thesis using inv pp(1) by (simp add: pool_inv_def)
qed (simp add: BufferPool_Put_def)

lemma buf_wf_Reset: "buf_wf b \<Longrightarrow> buf_wf (Reset b) \<and> contents (Reset b) = [] \<and> room (Reset b) = nat (bsize b)"
  by (auto simp: Reset_def buf_wf_def contents_def room_def)

lemma Get_pooled:
  assumes inv: "pool_inv p" and heap: "heap_ok al" and valid: "poolIsValid p"
  shows "\<exists>b p' al'. BufferPool_Get choice array p al = Inr (b, p', al') \<and> pool_inv p' \<and> heap_ok al' \<and> psize p' = psize p
    \<and> buf_wf b \<and> returnable b \<and> contents b = [] \<and> bsize b \<le> psize p \<and> ref b \<le> 0
    \<and> (choice < length (items (the (ppool p))) \<and> b = Reset (items (the (ppool p)) ! choice) \<or> slice_len (data b) = psize p)"
proof -
  obtain pp where pp: "ppool p = Some pp" using valid by (auto simp: poolIsValid_def)
  show ?thesis
  proof (cases "choice < length (items pp)")
    case True
    let ?b = "items pp ! choice"
    have "item_ok (psize p) ?b" using inv pp True by (simp add: pool_inv_def list_all_length)
    then have b: "buf_wf ?b" "returnable ?b" "bsize ?b \<le> psize p" "ref ?b \<le> 0" by (simp_all add: item_ok_def)
    have "items pp = take choice (items pp) @ items pp ! choice # drop (Suc choice) (items pp)"
      using True by (rule id_take_nth_drop)
    then have "list_all (item_ok (psize p)) (take choice (items pp) @ drop (Suc choice) (items pp))"
      using inv pp by (simp add: pool_inv_def) (metis list_all_append list.pred_inject(2))
    then have "pool_inv (p\<lparr>ppool := Some (pp\<lparr>items := take choice (items pp) @ drop (Suc choice) (items pp)\<rparr>)\<rparr>)"
      using inv pp by (simp add: pool_inv_def)
    then show ?thesis using True b buf_wf_Reset [OF b(1)] heap valid pp
      by (simp add: BufferPool_Get_def Get_Pool_def returnable_def) (simp add: Reset_def)
  next
    case False
    have sz: "0 < psize p" "psize p \<le> 65535" using inv pp by (simp_all add: pool_inv_def maxBufferSize_def)
    obtain b al' where b: "NewSize array (psize p) al = Inr (b, al')" "heap_ok al'" "returnable b" "buf_wf b"
      using NewSize_heap [OF heap sz, of array] by blast
    obtain a cs al2 where get: "alloc_Get array (psize p) al = Inr (Slice a cs (nat (psize p)), al2)"
      using alloc_Get_heap [OF heap, of "psize p" array] sz by auto
    have s: "bsize b = psize p" "ref b = 0" "slice_len (data b) = psize p"
      using b(1) sz get by (auto simp: NewSize_def zero_Buffer_def get_def BufferMaxManagedSize_def)
    have same: "p\<lparr>ppool := Some pp\<rparr> = p" using pp by simp
    have inv': "pool_inv (p\<lparr>ppool := Some pp\<rparr>)" unfolding same by (rule inv)
    show ?thesis using False b buf_wf_Reset [OF b(4)] inv' valid pp s
      by (simp add: BufferPool_Get_def Get_Pool_def returnable_def) (simp add: Reset_def)
  qed
qed

subsection \<open>Properties\<close>

text \<open>
  C39: a pool whose buffers are in order hands out, from the pool or newly made, an empty buffer in order
  that is no larger than the pool's size, and taking it and putting any buffer in order back keep
  the pool in order. A pool of a size that is not pooled makes a buffer that is already full.
\<close>

theorem BufferPool_hands_out:
  assumes "pool_inv p" and "heap_ok al"
  shows "\<exists>b p' al'. BufferPool_Get choice array p al = Inr (b, p', al') \<and> pool_inv p' \<and> buf_wf b
    \<and> contents b = (if poolIsValid p then [] else replicate (nat (psize p)) 0) \<and> bsize b \<le> psize p
    \<and> (buf_wf x \<and> returnable x \<longrightarrow> pool_inv (BufferPool_Put x p'))"
proof (cases "poolIsValid p")
  case True
  then obtain b p' al' where "BufferPool_Get choice array p al = Inr (b, p', al')" "pool_inv p'" "buf_wf b" "contents b = []"
    "bsize b \<le> psize p" using Get_pooled [OF assms True, of choice array] by blast
  with True pool_inv_put [of p' x] show ?thesis by simp
next
  case False
  have p: "0 < psize p" "psize p \<le> max_int" using assms(1) by (auto simp: pool_inv_def)
  let ?b = "As (Slice (next_array al) (replicate (nat (psize p)) 0) (nat (psize p)))"
  have "BufferPool_Get choice array p al = Inr (?b, p, al\<lparr>next_array := Suc (next_array al)\<rparr>)"
    using False p by (simp add: BufferPool_Get_def As_make_def)
  moreover have "buf_wf ?b" "contents ?b = replicate (nat (psize p)) 0" "bsize ?b \<le> psize p"
    using p by (simp_all add: As_def zero_Buffer_def buf_wf_def slice_cap_def contents_def slice_of_def)
  ultimately show ?thesis using False assms(1) pool_inv_put [OF assms(1), of x]
    by (intro exI [of _ ?b] exI [of _ p] exI [of _ "al\<lparr>next_array := Suc (next_array al)\<rparr>"]) simp
qed

theorem BufferPool_hands_out_witness:
  "\<exists>b p' al'. BufferPool_Get 0 0 \<lparr>psize = 100, ppool = Some New_Pool\<rparr> newDefaultAllocator = Inr (b, p', al')
    \<and> contents b = [] \<and> pool_inv (BufferPool_Put zero_Buffer p')"
proof -
  have "pool_inv \<lparr>psize = 100, ppool = Some New_Pool\<rparr>" by (rule pool_inv_new [of 100]) (simp_all add: NewPool_def maxBufferSize_def)
  from BufferPool_hands_out [OF this alloc_wf_heap [OF alloc_wf_new], of 0 0 zero_Buffer]
  show ?thesis by (auto simp: poolIsValid_def maxBufferSize_def zero_Buffer_def buf_wf_def returnable_def slice_cap_def)
qed

text \<open>
  \<open>GetSize\<close> turns to the pool exactly when its buffers are not too large: for a size above the
  pool's it panics whenever the buffer it gets is one of the pool's own.
\<close>

theorem GetSize_panics:
  assumes "pool_inv p" and "heap_ok al" and "poolIsValid p" and "psize p < sz"
    and "\<forall>b\<in>set (items (the (ppool p))). slice_len (data b) \<le> psize p"
  shows "BufferPool_GetSize choice array sz p al = Inl (PanicError ErrOverflow)"
proof -
  obtain b p' al' where g: "BufferPool_Get choice array p al = Inr (b, p', al')"
    "b = Reset (items (the (ppool p)) ! choice) \<and> choice < length (items (the (ppool p))) \<or> slice_len (data b) = psize p"
    using Get_pooled [OF assms(1-3), of choice array] by blast
  then have "slice_len (data b) \<le> psize p" using assms(5) by (auto simp: Reset_def)
  then show ?thesis using g assms(3,4) by (simp add: BufferPool_GetSize_def Resize_def Must_def)
qed

theorem GetSize_panics_witness:
  "BufferPool_GetSize 0 0 101 \<lparr>psize = 100, ppool = Some New_Pool\<rparr> newDefaultAllocator = Inl (PanicError ErrOverflow)"
proof -
  have "pool_inv \<lparr>psize = 100, ppool = Some New_Pool\<rparr>" by (rule pool_inv_new [of 100]) (simp_all add: NewPool_def maxBufferSize_def)
  from GetSize_panics [OF this alloc_wf_heap [OF alloc_wf_new], of 101 0 0]
  show ?thesis by (simp add: poolIsValid_def maxBufferSize_def New_Pool_def)
qed

end
