(* ===== verification/GenGoos.thy ===== *)
theory GenGoos
  imports Slog
begin

text \<open>
  \<^verbatim>\<open>sys/sysvars/gengoos.go\<close>, the generator of the \<^verbatim>\<open>zgoos_*.go\<close> files from the list in
  \<^verbatim>\<open>sys/syslist.go\<close>. \<open>unquote\<close> is \<^verbatim>\<open>strconv.Unquote\<close>; \<open>write_file\<close> tells which writes the
  system refuses. Strings are ASCII.
\<close>

subsection \<open>The functions of strings\<close>

definition newline :: char where
  "newline = CHR 0x0A"

text \<open>\<^verbatim>\<open>strings.Split(s, "\n")\<close>, \<^verbatim>\<open>strings.Fields\<close>, \<^verbatim>\<open>strings.Title\<close>.\<close>

fun split_lines :: "string \<Rightarrow> string \<Rightarrow> string list" where
  "split_lines acc [] = [rev acc]"
| "split_lines acc (c # cs) = (if c = newline then rev acc # split_lines [] cs else split_lines (c # acc) cs)"

fun fields_loop :: "string \<Rightarrow> string \<Rightarrow> string list" where
  "fields_loop acc [] = (if acc = [] then [] else [rev acc])"
| "fields_loop acc (c # cs) =
     (if is_space c then (if acc = [] then fields_loop [] cs else rev acc # fields_loop [] cs)
      else fields_loop (c # acc) cs)"

definition strings_Fields :: "string \<Rightarrow> string list" where
  "strings_Fields s = fields_loop [] s"

definition is_letter :: "char \<Rightarrow> bool" where
  "is_letter c = (let n = of_char c :: nat in 48 \<le> n \<and> n \<le> 57 \<or> 65 \<le> n \<and> n \<le> 90 \<or> 97 \<le> n \<and> n \<le> 122 \<or> n = 95)"

fun title_loop :: "bool \<Rightarrow> string \<Rightarrow> string" where
  "title_loop in_word [] = []"
| "title_loop in_word (c # cs) = (if in_word then c else to_upper c) # title_loop (is_letter c) cs"

definition strings_Title :: "string \<Rightarrow> string" where
  "strings_Title s = title_loop False s"

subsection \<open>The generator\<close>

definition goosPrefix :: string where
  "goosPrefix = ''const goosList = ''"

text \<open>The list is that of the last line that has the prefix; what cannot be unquoted is fatal.\<close>

fun parse_goosList :: "(string \<Rightarrow> go_error + string) \<Rightarrow> string list \<Rightarrow> string list \<Rightarrow> string + string list" where
  "parse_goosList unquote [] gooses = Inr gooses"
| "parse_goosList unquote (line # ls) gooses =
     (if take (length goosPrefix) line = goosPrefix
      then (case unquote (drop (length goosPrefix) line) of
              Inl err \<Rightarrow> Inl (''parsing goosList: '' @ err_msg err)
            | Inr s \<Rightarrow> parse_goosList unquote ls (strings_Fields s))
      else parse_goosList unquote ls gooses)"

definition target_tags :: "string \<Rightarrow> string list" where
  "target_tags target =
     (if target = ''linux'' then [''!android''] else [])
     @ (if target = ''solaris'' then [''!illumos''] else [])
     @ (if target = ''darwin'' then [''!ios''] else [])
     @ [target]"

definition goos_line :: "string \<Rightarrow> string \<Rightarrow> string" where
  "goos_line target goos =
     ''const Is'' @ strings_Title goos @ '' = '' @ (if goos = target then ''true'' else ''false'') @ [newline]"

definition goos_file :: "string list \<Rightarrow> string \<Rightarrow> string" where
  "goos_file gooses target =
     ''// Code generated by gengoos.go using 'go generate'. DO NOT EDIT.'' @ [newline, newline]
     @ ''//go:build '' @ strings_Join (target_tags target) '' && '' @ [newline]
     @ ''package sysvars'' @ [newline, newline]
     @ ''const GOOS = `'' @ target @ ''`'' @ [newline, newline]
     @ concat (map (goos_line target) gooses)"

text \<open>The files written before the end, and the message of \<^verbatim>\<open>log.Fatal\<close> when it ends early.\<close>

fun write_targets :: "(string \<Rightarrow> go_error option) \<Rightarrow> string list \<Rightarrow> string list \<Rightarrow> (string \<times> string) list
    \<Rightarrow> (string \<times> string) list \<times> string option" where
  "write_targets write_file gooses [] files = (files, None)"
| "write_targets write_file gooses (target # targets) files =
     (if target = ''nacl'' then write_targets write_file gooses targets files
      else let name = ''zgoos_'' @ target @ ''.go''
           in case write_file name of
                None \<Rightarrow> write_targets write_file gooses targets (files @ [(name, goos_file gooses target)])
              | Some err \<Rightarrow> (files, Some (err_msg err)))"

definition gengoos_main :: "(string \<Rightarrow> go_error + string) \<Rightarrow> (string \<Rightarrow> go_error option) \<Rightarrow> go_error + string
    \<Rightarrow> (string \<times> string) list \<times> string option" where
  "gengoos_main unquote write_file syslist =
     (case syslist of
        Inl err \<Rightarrow> ([], Some (err_msg err))
      | Inr text \<Rightarrow>
          (case parse_goosList unquote (split_lines [] text) [] of
             Inl msg \<Rightarrow> ([], Some msg)
           | Inr gooses \<Rightarrow> write_targets write_file gooses gooses []))"

subsection \<open>What the build takes of it\<close>

text \<open>
  The tags that the Go tool takes as satisfied for a value of \<open>GOOS\<close>, and whether the constraint of a file
  holds: a conjunction of tags, negated by an exclamation mark.
\<close>

definition satisfied :: "string \<Rightarrow> string set" where
  "satisfied os = {os} \<union> (if os = ''android'' then {''linux''} else {})
     \<union> (if os = ''illumos'' then {''solaris''} else {}) \<union> (if os = ''ios'' then {''darwin''} else {})"

definition tag_holds :: "string \<Rightarrow> string \<Rightarrow> bool" where
  "tag_holds os tag = (case tag of
      [] \<Rightarrow> False
    | c # rest \<Rightarrow> (if c = CHR ''!'' then rest \<notin> satisfied os else tag \<in> satisfied os))"

definition file_built :: "string \<Rightarrow> string \<Rightarrow> bool" where
  "file_built os target \<longleftrightarrow> list_all (tag_holds os) (target_tags target)"

lemma file_built_iff:
  assumes "target \<noteq> []" and "hd target \<noteq> CHR ''!''"
  shows "file_built os target \<longleftrightarrow> os = target"
proof -
  have "tag_holds os target \<longleftrightarrow> target \<in> satisfied os" using assms by (cases target) (simp_all add: tag_holds_def)
  then show ?thesis by (auto simp: file_built_def target_tags_def tag_holds_def satisfied_def)
qed

lemma write_targets_ok:
  "(\<And>name. write_file name = None) \<Longrightarrow> write_targets write_file gooses targets files
    = (files @ map (\<lambda>t. (''zgoos_'' @ t @ ''.go'', goos_file gooses t)) (filter (\<lambda>t. t \<noteq> ''nacl'') targets), None)"
  by (induction targets arbitrary: files) simp_all

lemma parse_skips: "list_all (\<lambda>l. take (length goosPrefix) l \<noteq> goosPrefix) ls \<Longrightarrow>
    parse_goosList unquote (ls @ rest) gooses = parse_goosList unquote rest gooses"
  by (induction ls) simp_all

lemma fields_not_Nil: "[] \<notin> set (fields_loop acc s)"
  by (induction acc s rule: fields_loop.induct) auto

lemma filter_single: "distinct xs \<Longrightarrow> x \<in> set xs \<Longrightarrow> filter (\<lambda>y. x = y) xs = [x]"
  by (induction xs) (auto simp: filter_empty_conv)

subsection \<open>The files it writes\<close>

text \<open>
  From a source file with one list line the generator writes one file for every name but \<^verbatim>\<open>nacl\<close>, and
  for every system of the list exactly one of these files is built, its own: the tags keep
  Android out of Linux's file, illumos out of Solaris's and iOS out of Darwin's.
\<close>

theorem gengoos_one_file_each:
  assumes "split_lines [] text = before @ (goosPrefix @ quoted_list) # after"
    and "list_all (\<lambda>l. take (length goosPrefix) l \<noteq> goosPrefix) (before @ after)"
    and "unquote quoted_list = Inr s" and "\<And>name. write_file name = None"
    and "distinct (strings_Fields s)" and "list_all (\<lambda>t. hd t \<noteq> CHR ''!'') (strings_Fields s)"
  shows "gengoos_main unquote write_file (Inr text)
      = (map (\<lambda>t. (''zgoos_'' @ t @ ''.go'', goos_file (strings_Fields s) t)) (filter (\<lambda>t. t \<noteq> ''nacl'') (strings_Fields s)), None)
    \<and> (\<forall>os\<in>set (strings_Fields s). filter (file_built os) (strings_Fields s) = [os])"
proof
  have "list_all (\<lambda>l. take (length goosPrefix) l \<noteq> goosPrefix) before"
    and "list_all (\<lambda>l. take (length goosPrefix) l \<noteq> goosPrefix) after" using assms(2) by simp_all
  then have "parse_goosList unquote (split_lines [] text) [] = Inr (strings_Fields s)"
    using assms(1,3) parse_skips [of before] parse_skips [of after unquote "[]"] by simp
  then show "gengoos_main unquote write_file (Inr text)
      = (map (\<lambda>t. (''zgoos_'' @ t @ ''.go'', goos_file (strings_Fields s) t)) (filter (\<lambda>t. t \<noteq> ''nacl'') (strings_Fields s)), None)"
    by (simp add: gengoos_main_def write_targets_ok [OF assms(4)])
  show "\<forall>os\<in>set (strings_Fields s). filter (file_built os) (strings_Fields s) = [os]"
  proof
    fix os assume os: "os \<in> set (strings_Fields s)"
    have "file_built os t \<longleftrightarrow> os = t" if "t \<in> set (strings_Fields s)" for t
      using file_built_iff [of t os] fields_not_Nil [of "[]" s] assms(6) that by (auto simp: strings_Fields_def list_all_iff)
    then have "filter (file_built os) (strings_Fields s) = filter (\<lambda>t. os = t) (strings_Fields s)" by (rule filter_cong [OF refl])
    then show "filter (file_built os) (strings_Fields s) = [os]" using filter_single [OF assms(5) os] by simp
  qed
qed

text \<open>The list of \<^verbatim>\<open>syslist.go\<close>.\<close>

definition syslist :: string where
  "syslist = ''aix android darwin dragonfly freebsd hurd illumos ios js linux netbsd openbsd plan9 solaris windows zos''"

lemma syslist_fields: "strings_Fields syslist = [''aix'', ''android'', ''darwin'', ''dragonfly'', ''freebsd'', ''hurd'', ''illumos'', ''ios'', ''js'', ''linux'', ''netbsd'', ''openbsd'', ''plan9'', ''solaris'', ''windows'', ''zos'']"
  by code_simp

end
