(* ===== verification/Collector.thy ===== *)
theory Collector
  imports SubHub TaskGroup
begin

text \<open>
  \<^verbatim>\<open>sys/sysmetrics\<close> and \<^verbatim>\<open>enhancements/contextlib\<close>: the collector of system metrics. Five producers,
  the tasks of a group, subscribe to a hub; \<open>Collect\<close> publishes a task to them and waits. The
  model is a transition system that runs the step relation of the task group, the goroutine of
  \<open>Start\<close>, the producers and the callers of \<open>Collect\<close> and \<open>Close\<close> side by side. What \<^verbatim>\<open>gopsutil\<close>
  answers is a parameter of each turn of a producer (\<open>probes\<close>), with the types of its structures.
\<close>

subsection \<open>Metrics and tasks\<close>

record NetMetrics =
  Tx :: "64 word"
  Rx :: "64 word"
  TxAll :: "64 word"
  RxAll :: "64 word"

record ('avg, 'misc, 'vm) Metrics =
  taken :: nat
  Uptime :: "64 word"
  Load :: "'avg option"
  LoadMisc :: "'misc option"
  Mem :: "'vm option"
  Net :: "NetMetrics option"

text \<open>
  \<open>tctx\<close> names the caller's context; \<open>wg\<close> is the pointer to the wait group, with its counter;
  \<open>terr\<close> is the field \<open>err\<close>.
\<close>

record ('avg, 'misc, 'vm) collectTask =
  tctx :: nat
  metrics :: "('avg, 'misc, 'vm) Metrics"
  wg :: "int option"
  terr :: "go_error option"

record iostat =
  BytesSent :: "64 word"
  BytesRecv :: "64 word"

record ('avg, 'misc, 'vm) probes =
  IOCounters :: "iostat list \<times> go_error option"
  Avg :: "'avg option \<times> go_error option"
  Misc :: "'misc option \<times> go_error option"
  VirtualMemory :: "'vm option \<times> go_error option"
  host_Uptime :: "64 word \<times> go_error option"

text \<open>\<^verbatim>\<open>sync.WaitGroup\<close>: the counter, \<open>Done\<close> on it, and whether \<open>Wait\<close> returns.\<close>

definition wg_Done :: "int option \<Rightarrow> int option go" where
  "wg_Done w = (case w of None \<Rightarrow> Inl NilDereference
     | Some n \<Rightarrow> if n - 1 < 0 then Inl NegativeWaitGroup else Inr (Some (n - 1)))"

definition wg_Wait :: "int option \<Rightarrow> bool go" where
  "wg_Wait w = (case w of None \<Rightarrow> Inl NilDereference | Some n \<Rightarrow> Inr (n = 0))"

definition newCollectTask :: "nat \<Rightarrow> nat \<Rightarrow> ('avg, 'misc, 'vm) collectTask" where
  "newCollectTask ctx now =
     \<lparr>tctx = ctx,
      metrics = \<lparr>taken = now, Uptime = 0, Load = None, LoadMisc = None, Mem = None, Net = None\<rparr>,
      wg = Some 0, terr = None\<rparr>"

subsection \<open>The producers' functions\<close>

type_synonym ('avg, 'misc, 'vm) producer =
  "('avg, 'misc, 'vm) probes \<Rightarrow> ('avg, 'misc, 'vm) collectTask \<Rightarrow> go_error option \<times> ('avg, 'misc, 'vm) collectTask"

definition collect_net :: "('avg, 'misc, 'vm) producer" where
  "collect_net pr ct =
     (let (counter, err) = IOCounters pr
      in if err \<noteq> None then (err, ct)
         else if length counter > 0
         then (None, ct\<lparr>metrics := (metrics ct)\<lparr>Net :=
           Some \<lparr>Tx = 0, Rx = 0, TxAll = BytesSent (counter ! 0), RxAll = BytesRecv (counter ! 0)\<rparr>\<rparr>\<rparr>)
         else (None, ct))"

definition collect_loadAvg :: "('avg, 'misc, 'vm) producer" where
  "collect_loadAvg pr ct =
     (let (loadAvg, err) = Avg pr
      in if err \<noteq> None then (err, ct)
         else if loadAvg \<noteq> None then (None, ct\<lparr>metrics := (metrics ct)\<lparr>Load := loadAvg\<rparr>\<rparr>)
         else (None, ct))"

definition collect_loadMisc :: "('avg, 'misc, 'vm) producer" where
  "collect_loadMisc pr ct =
     (let (loadMisc, err) = Misc pr
      in if err \<noteq> None then (err, ct)
         else if loadMisc \<noteq> None then (None, ct\<lparr>metrics := (metrics ct)\<lparr>LoadMisc := loadMisc\<rparr>\<rparr>)
         else (None, ct))"

definition collect_mem :: "('avg, 'misc, 'vm) producer" where
  "collect_mem pr ct =
     (let (vmStat, err) = VirtualMemory pr
      in if err \<noteq> None then (err, ct)
         else if vmStat \<noteq> None then (None, ct\<lparr>metrics := (metrics ct)\<lparr>Mem := vmStat\<rparr>\<rparr>)
         else (None, ct))"

definition collect_uptime :: "('avg, 'misc, 'vm) producer" where
  "collect_uptime pr ct =
     (let (uptime, err) = host_Uptime pr
      in if err \<noteq> None then (err, ct)
         else if uptime \<noteq> 0 then (None, ct\<lparr>metrics := (metrics ct)\<lparr>Uptime := uptime\<rparr>\<rparr>)
         else (None, ct))"

definition producers :: "(string \<times> ('avg, 'misc, 'vm) producer) list" where
  "producers = [(''net'', collect_net), (''loadAvg'', collect_loadAvg), (''loadMisc'', collect_loadMisc),
     (''mem'', collect_mem), (''uptime'', collect_uptime)]"

text \<open>The part of a turn between the check of the task's context and \<open>ct.wg.Done\<close>.\<close>

definition run_producer :: "nat \<Rightarrow> ('avg, 'misc, 'vm) probes \<Rightarrow> ('avg, 'misc, 'vm) collectTask \<Rightarrow> ('avg, 'misc, 'vm) collectTask" where
  "run_producer t pr ct =
     (let (e, ct) = snd (producers ! t) pr ct in if e \<noteq> None then ct\<lparr>terr := e\<rparr> else ct)"

subsection \<open>The collector\<close>

abbreviation errCollectorCloseSuccess :: go_error where
  "errCollectorCloseSuccess \<equiv> Sentinel ''sysmetrics.errCollectorCloseSuccess'' ''closed''"
abbreviation errSubscriberClosed :: go_error where
  "errSubscriberClosed \<equiv> Sentinel ''sysmetrics.errSubscriberClosed'' ''subscribe channel closed''"
abbreviation context_Canceled :: go_error where
  "context_Canceled \<equiv> Sentinel ''context.Canceled'' ''context canceled''"

definition defaultChannelQueue :: int where "defaultChannelQueue = 16"
definition defaultTopic :: int where "defaultTopic = 0"

text \<open>
  \<open>cdone\<close> is the channel \<open>done\<close>: nil, open (\<open>Some False\<close>) or closed. \<open>tasks\<close> is the heap of collect
  tasks, a pointer being an index; \<open>runOnce\<close> says whether the \<^verbatim>\<open>sync.Once\<close> has fired. \<open>errors_logged\<close> is
  what went to the loggers at level error, with the logger (a number; debug messages are left out).
\<close>

record ('avg, 'misc, 'vm) collector =
  chub :: "(int, nat) hub option"
  runOnce :: bool
  cdone :: "bool option"
  clogger :: nat
  tasks :: "('avg, 'misc, 'vm) collectTask list"
  errors_logged :: "(nat \<times> string \<times> go_error option) list"

definition NewCollector :: "nat option \<Rightarrow> nat \<Rightarrow> ('avg, 'misc, 'vm) collector" where
  "NewCollector logger default_logger =
     \<lparr>chub = None, runOnce = False, cdone = None,
      clogger = (case logger of None \<Rightarrow> default_logger | Some l \<Rightarrow> l),
      tasks = [], errors_logged = []\<rparr>"

definition contextlib_Done :: "(nat \<Rightarrow> go_error option) \<Rightarrow> nat \<Rightarrow> bool" where
  "contextlib_Done ctxs ctx \<longleftrightarrow> ctxs ctx \<noteq> None"

text \<open>\<open>Collect\<close> up to its \<open>Wait\<close>, the test of \<open>Wait\<close>, and its results.\<close>

definition Collect_publish ::
  "64 word list \<Rightarrow> nat \<Rightarrow> nat \<Rightarrow> ('avg, 'misc, 'vm) collector \<Rightarrow> (nat \<times> ('avg, 'misc, 'vm) collector) go" where
  "Collect_publish visit ctx now c =
     (let ct = newCollectTask ctx now; k = length (tasks c)
      in case chub c of
           None \<Rightarrow> Inl NilDereference
         | Some h \<Rightarrow> (case Publish visit defaultTopic k h of
               Inl p \<Rightarrow> Inl p
             | Inr (n, h') \<Rightarrow> Inr (k, c\<lparr>chub := Some h', tasks := tasks c @ [ct]\<rparr>)))"

definition Collect_wait :: "nat \<Rightarrow> ('avg, 'misc, 'vm) collector \<Rightarrow> bool go" where
  "Collect_wait k c = wg_Wait (wg (tasks c ! k))"

definition Collect_results ::
  "nat \<Rightarrow> ('avg, 'misc, 'vm) collector \<Rightarrow> ('avg, 'misc, 'vm) Metrics \<times> go_error option" where
  "Collect_results k c = (metrics (tasks c ! k), terr (tasks c ! k))"

text \<open>\<open>close(c.done)\<close>, and \<open>Close\<close>: nothing is ever sent on the channel, so a receive succeeds only
  when it is closed, with \<open>done\<close> false.\<close>

definition close_done :: "('avg, 'misc, 'vm) collector \<Rightarrow> ('avg, 'misc, 'vm) collector go" where
  "close_done c = (case cdone c of
      None \<Rightarrow> Inl (PanicMsg ''close of nil channel'')
    | Some True \<Rightarrow> Inl CloseOfClosed
    | Some False \<Rightarrow> Inr (c\<lparr>cdone := Some True\<rparr>))"

definition Close_collector :: "('avg, 'misc, 'vm) collector \<Rightarrow> ('avg, 'misc, 'vm) collector go" where
  "Close_collector c = (case cdone c of None \<Rightarrow> Inr c | Some True \<Rightarrow> close_done c | Some False \<Rightarrow> close_done c)"

text \<open>\<open>Start\<close>: the flag says that this call launched the goroutine. \<open>n\<close> is the package's
  subscriber counter.\<close>

definition Start_collector :: "64 word \<Rightarrow> ('avg, 'misc, 'vm) collector \<Rightarrow> bool \<times> ('avg, 'misc, 'vm) collector" where
  "Start_collector n c =
     (if runOnce c then (False, c)
      else (True, c\<lparr>runOnce := True,
        chub := (if chub c = None
          then Some \<lparr>subscribers = (\<lambda>_. None),
            subs = (\<lambda>_. \<lparr>queue = [], capacity = 0, receivers = 0, received = [], closed = False\<rparr>),
            internalSubscriberID = n\<rparr>
          else chub c)\<rparr>))"

definition addProducer :: "string \<Rightarrow> group \<Rightarrow> group" where
  "addProducer name g = Append name g"

definition collector_group :: group where
  "collector_group = FastFail (fold addProducer [''net'', ''loadAvg'', ''loadMisc'', ''mem'', ''uptime''] newGroup)"

text \<open>The goroutine of \<open>Start\<close>, after \<open>group.Run\<close>.\<close>

definition after_run :: "go_error option \<Rightarrow> ('avg, 'misc, 'vm) collector \<Rightarrow> ('avg, 'misc, 'vm) collector go" where
  "after_run err c =
     (if err \<noteq> None then
        if IsMulti err [''context.Canceled'', ''sysmetrics.errCollectorCloseSuccess''] then close_done c
        else if IsMulti err [''sysmetrics.errSubscriberClosed''] then Inl (PanicMsg ''subscriber closed unexcepted'')
        else close_done (c\<lparr>errors_logged := errors_logged c @ [(clogger c, ''collector quit unexcepted'', err)]\<rparr>)
      else close_done c)"

subsection \<open>The producers' goroutines\<close>

text \<open>
  Where a producer is: before \<open>Subscribe\<close>; in the select, with its subscriber; with a task taken from its
  channel; about to count the task down; about to run the deferred \<open>Unsubscribe\<close>; done with it.
\<close>

datatype ppc =
    Entering
  | Choosing "64 word"
  | Took "64 word" nat
  | Counting "64 word" nat
  | Deferring "64 word" "go_error option"
  | Leaving "64 word" "go_error option"

text \<open>The case of the select that fires.\<close>

datatype choice = OnDone | OnCancel go_error | OnTask

datatype rpc = NotStarted | Launched | InRun | Ended

text \<open>The life of the goroutine of \<open>Start\<close>, in order.\<close>

fun rpc_rank :: "rpc \<Rightarrow> nat" where
  "rpc_rank NotStarted = 0"
| "rpc_rank Launched = 1"
| "rpc_rank InRun = 2"
| "rpc_rank Ended = 3"

lemma rpc_rank_inj: "rpc_rank a = rpc_rank b \<longleftrightarrow> a = b"
  by (cases a; cases b) simp_all

instantiation rpc :: linorder
begin

definition less_eq_rpc :: "rpc \<Rightarrow> rpc \<Rightarrow> bool" where
  "less_eq_rpc a b \<longleftrightarrow> rpc_rank a \<le> rpc_rank b"

definition less_rpc :: "rpc \<Rightarrow> rpc \<Rightarrow> bool" where
  "less_rpc a b \<longleftrightarrow> rpc_rank a < rpc_rank b"

instance
  by standard (auto simp: less_eq_rpc_def less_rpc_def rpc_rank_inj)

end

text \<open>
  \<open>grun\<close> is the run of the group, \<open>pcs\<close> the producers, \<open>runner\<close> the goroutine of \<open>Start\<close>, \<open>ctxs\<close> the errors
  of the callers' contexts once they are done. A panic in any of these goroutines ends the
  program: \<open>crash\<close>.
\<close>

record ('avg, 'misc, 'vm) sys =
  coll :: "('avg, 'misc, 'vm) collector"
  grun :: run
  pcs :: "nat \<Rightarrow> ppc"
  runner :: rpc
  ctxs :: "nat \<Rightarrow> go_error option"
  crash :: "panic option"

definition set_chan :: "64 word \<Rightarrow> nat chan \<Rightarrow> ('avg, 'misc, 'vm) sys \<Rightarrow> ('avg, 'misc, 'vm) sys" where
  "set_chan i ch s =
     s\<lparr>coll := (coll s)\<lparr>chub := map_option (\<lambda>h. h\<lparr>subs := (subs h)(i := ch)\<rparr>) (chub (coll s))\<rparr>\<rparr>"

definition set_task :: "nat \<Rightarrow> ('avg, 'misc, 'vm) collectTask \<Rightarrow> ('avg, 'misc, 'vm) sys \<Rightarrow> ('avg, 'misc, 'vm) sys" where
  "set_task k ct s = s\<lparr>coll := (coll s)\<lparr>tasks := (tasks (coll s))[k := ct]\<rparr>\<rparr>"

definition goes :: "nat \<Rightarrow> ppc \<Rightarrow> ('avg, 'misc, 'vm) sys \<Rightarrow> ('avg, 'misc, 'vm) sys" where
  "goes t p s = s\<lparr>pcs := (pcs s)(t := p)\<rparr>"

text \<open>\<open>ct.wg.Done()\<close>, and back to the select.\<close>

definition count_task :: "nat \<Rightarrow> 64 word \<Rightarrow> nat \<Rightarrow> ('avg, 'misc, 'vm) sys \<Rightarrow> ('avg, 'misc, 'vm) sys go" where
  "count_task t i k s =
     (let ct = tasks (coll s) ! k
      in case wg_Done (wg ct) of
           Inl p \<Rightarrow> Inl p
         | Inr w \<Rightarrow> Inr (goes t (Choosing i) (set_task k (ct\<lparr>wg := w\<rparr>) s)))"

text \<open>The next move of producer \<open>t\<close>; \<open>None\<close> when it cannot move. The zero value received from a
  closed channel is a nil task, and \<open>ct.wg\<close> panics on it.\<close>

definition producer_turn ::
  "('avg, 'misc, 'vm) probes \<Rightarrow> choice \<Rightarrow> nat \<Rightarrow> ('avg, 'misc, 'vm) sys \<Rightarrow> ('avg, 'misc, 'vm) sys go option" where
  "producer_turn pr ch t s =
     (case chub (coll s) of
        None \<Rightarrow> Some (Inl NilDereference)
      | Some h \<Rightarrow>
        (case pcs s t of
           Entering \<Rightarrow>
             (let (i, h') = Subscribe defaultTopic defaultChannelQueue h
              in Some (Inr (goes t (Choosing i) (s\<lparr>coll := (coll s)\<lparr>chub := Some h'\<rparr>\<rparr>))))
         | Choosing i \<Rightarrow>
             (case ch of
                OnDone \<Rightarrow> if cdone (coll s) = Some True
                  then Some (Inr (goes t (Deferring i (Some errCollectorCloseSuccess)) s)) else None
              | OnCancel e \<Rightarrow> if cancelCause (grun s) \<noteq> None \<and> (e = context_Canceled \<or> upstream (grun s) = Some e)
                  then Some (Inr (goes t (Deferring i (Some e)) s)) else None
              | OnTask \<Rightarrow>
                  (case receive (subs h i) of
                     None \<Rightarrow> None
                   | Some (None, _) \<Rightarrow> Some (Inl NilDereference)
                   | Some (Some k, c) \<Rightarrow> Some (Inr (goes t (Took i k) (set_chan i c s)))))
         | Took i k \<Rightarrow>
             (let ct = tasks (coll s) ! k
              in if contextlib_Done (ctxs s) (tctx ct)
                 then if wg ct \<noteq> None then Some (count_task t i k s) else Some (Inr (goes t (Choosing i) s))
                 else Some (Inr (goes t (Counting i k) (set_task k (run_producer t pr ct) s))))
         | Counting i k \<Rightarrow> Some (count_task t i k s)
         | Deferring i e \<Rightarrow>
             (case Unsubscribe_channel (subs h i) of
                Inl p \<Rightarrow> Some (Inl p)
              | Inr c \<Rightarrow> Some (Inr (goes t (Leaving i e) (set_chan i c s))))
         | Leaving i e \<Rightarrow> None))"

definition start_sys :: "('avg, 'misc, 'vm) sys" where
  "start_sys = \<lparr>coll = NewCollector None 0, grun = start_run collector_group, pcs = (\<lambda>_. Entering), runner = NotStarted,
     ctxs = (\<lambda>_. None), crash = None\<rparr>"

text \<open>The result of an operation on the collector: its new state, or the crash.\<close>

definition settled :: "('avg, 'misc, 'vm) collector go \<Rightarrow> ('avg, 'misc, 'vm) sys \<Rightarrow> ('avg, 'misc, 'vm) sys" where
  "settled r s = (case r of Inl p \<Rightarrow> s\<lparr>crash := Some p\<rparr> | Inr c \<Rightarrow> s\<lparr>coll := c\<rparr>)"

subsection \<open>Interleaving\<close>

text \<open>
  The steps of the group are those of \<open>run_step\<close>, except that a producer's task ends when the producer
  has returned, with its error. \<open>Collect\<close> walks the subscribers in any order (\<open>visit\<close>).
\<close>

inductive col_step :: "('avg, 'misc, 'vm) sys \<Rightarrow> ('avg, 'misc, 'vm) sys \<Rightarrow> bool" where
  cs_start: "crash s = None \<Longrightarrow> Start_collector n (coll s) = (launched, c) \<Longrightarrow>
    col_step s (s\<lparr>coll := c, runner := if launched then Launched else runner s\<rparr>)"
| cs_make: "crash s = None \<Longrightarrow> runner s = Launched \<Longrightarrow>
    col_step s (s\<lparr>coll := (coll s)\<lparr>cdone := Some False\<rparr>, runner := InRun\<rparr>)"
| cs_group: "crash s = None \<Longrightarrow> runner s = InRun \<Longrightarrow> run_step collector_group (grun s) r' \<Longrightarrow>
    (\<And>t. tpcs (grun s) t = Running \<Longrightarrow> tpcs r' t = Running) \<Longrightarrow> col_step s (s\<lparr>grun := r'\<rparr>)"
| cs_turn: "crash s = None \<Longrightarrow> runner s = InRun \<Longrightarrow> t < length (names collector_group) \<Longrightarrow>
    tpcs (grun s) t = Running \<Longrightarrow> producer_turn pr ch t s = Some (Inr s') \<Longrightarrow> col_step s s'"
| cs_crash: "crash s = None \<Longrightarrow> runner s = InRun \<Longrightarrow> t < length (names collector_group) \<Longrightarrow>
    tpcs (grun s) t = Running \<Longrightarrow> producer_turn pr ch t s = Some (Inl p) \<Longrightarrow> col_step s (s\<lparr>crash := Some p\<rparr>)"
| cs_return: "crash s = None \<Longrightarrow> runner s = InRun \<Longrightarrow> tpcs (grun s) t = Running \<Longrightarrow> pcs s t = Leaving i e \<Longrightarrow>
    col_step s (s\<lparr>grun := (grun s)\<lparr>tpcs := (tpcs (grun s))(t := Recording e)\<rparr>\<rparr>)"
| cs_over: "crash s = None \<Longrightarrow> runner s = InRun \<Longrightarrow> main (grun s) = Returned e \<Longrightarrow> after_run e (coll s) = Inr c \<Longrightarrow>
    col_step s (s\<lparr>coll := c, runner := Ended\<rparr>)"
| cs_over_crash: "crash s = None \<Longrightarrow> runner s = InRun \<Longrightarrow> main (grun s) = Returned e \<Longrightarrow> after_run e (coll s) = Inl p \<Longrightarrow>
    col_step s (s\<lparr>crash := Some p\<rparr>)"
| cs_collect: "crash s = None \<Longrightarrow> chub (coll s) = Some h \<Longrightarrow> mset visit = mset (topic_ids h defaultTopic) \<Longrightarrow>
    Collect_publish visit ctx now (coll s) = r \<Longrightarrow> col_step s (settled (map_sum id snd r) s)"
| cs_collect_early: "crash s = None \<Longrightarrow> chub (coll s) = None \<Longrightarrow>
    Collect_publish visit ctx now (coll s) = r \<Longrightarrow> col_step s (settled (map_sum id snd r) s)"
| cs_close: "crash s = None \<Longrightarrow> col_step s (settled (Close_collector (coll s)) s)"
| cs_cancel: "ctxs s ctx = None \<Longrightarrow> col_step s (s\<lparr>ctxs := (ctxs s)(ctx := Some e)\<rparr>)"

inductive col_reach :: "('avg, 'misc, 'vm) sys \<Rightarrow> bool" where
  col_starts: "col_reach start_sys"
| col_goes: "col_reach s \<Longrightarrow> col_step s s' \<Longrightarrow> col_reach s'"

subsection \<open>The invariants\<close>

text \<open>The life of the goroutine of \<open>Start\<close> and of the channel \<open>done\<close>.\<close>

definition goroutine_inv :: "('avg, 'misc, 'vm) sys \<Rightarrow> bool" where
  "goroutine_inv s \<longleftrightarrow> (runOnce (coll s) \<longleftrightarrow> runner s \<noteq> NotStarted) \<and> (chub (coll s) = None \<longleftrightarrow> runner s = NotStarted)
     \<and> (cdone (coll s) = None \<longleftrightarrow> runner s = NotStarted \<or> runner s = Launched)
     \<and> (runner s = Ended \<longrightarrow> cdone (coll s) = Some True)"

lemmas collector_ops = Start_collector_def Collect_publish_def Close_collector_def close_done_def after_run_def settled_def

lemma count_task_frame:
  "count_task t i k s = Inr s' \<Longrightarrow> runner s' = runner s \<and> crash s' = crash s \<and> cdone (coll s') = cdone (coll s)
    \<and> runOnce (coll s') = runOnce (coll s) \<and> chub (coll s') = chub (coll s)"
  by (auto simp: count_task_def goes_def set_task_def Let_def split: sum.splits)

lemma producer_turn_frame:
  "producer_turn pr ch t s = Some (Inr s') \<Longrightarrow> runner s' = runner s \<and> crash s' = crash s
    \<and> cdone (coll s') = cdone (coll s) \<and> runOnce (coll s') = runOnce (coll s)
    \<and> (chub (coll s') = None \<longleftrightarrow> chub (coll s) = None)"
  by (auto simp: producer_turn_def goes_def set_chan_def set_task_def Let_def
      split: option.splits ppc.splits choice.splits prod.splits sum.splits if_splits dest: count_task_frame)

lemma close_done_Inr: "close_done c = Inr c' \<Longrightarrow> cdone c = Some False \<and> c' = c\<lparr>cdone := Some True\<rparr>"
  by (auto simp: close_done_def split: option.splits bool.splits)

lemma after_run_Inr:
  "after_run e c = Inr c' \<Longrightarrow> cdone c = Some False \<and> cdone c' = Some True \<and> chub c' = chub c \<and> runOnce c' = runOnce c
    \<and> tasks c' = tasks c"
  by (auto simp: after_run_def split: if_splits dest!: close_done_Inr)

lemma Collect_publish_frame:
  "Collect_publish visit ctx now c = Inr (k, c') \<Longrightarrow> cdone c' = cdone c \<and> runOnce c' = runOnce c \<and> chub c \<noteq> None \<and> chub c' \<noteq> None"
  by (auto simp: Collect_publish_def Let_def split: option.splits sum.splits)

lemma Close_collector_Inr:
  "Close_collector c = Inr c' \<Longrightarrow> c' = (if cdone c = None then c else c\<lparr>cdone := Some True\<rparr>) \<and> cdone c \<noteq> Some True"
  by (auto simp: Close_collector_def split: option.splits bool.splits dest!: close_done_Inr)

lemma col_step_goroutine: "col_step s s' \<Longrightarrow> goroutine_inv s \<Longrightarrow> goroutine_inv s'"
proof (induction rule: col_step.induct)
  case (cs_start s n launched c)
  then show ?case by (auto simp: goroutine_inv_def Start_collector_def split: if_splits)
next
  case (cs_turn s t pr ch s')
  then show ?case using producer_turn_frame [of pr ch t s s'] unfolding goroutine_inv_def by simp
next
  case (cs_over s e c)
  then show ?case using after_run_Inr [of e "coll s" c] by (simp add: goroutine_inv_def)
next
  case (cs_collect s h visit ctx now r)
  then show ?case using Collect_publish_frame [of visit ctx now "coll s"]
    by (cases r) (auto simp: goroutine_inv_def settled_def)
next
  case (cs_collect_early s visit ctx now r)
  then show ?case by (auto simp: goroutine_inv_def settled_def Collect_publish_def Let_def)
next
  case (cs_close s)
  then show ?case using Close_collector_Inr [of "coll s"]
    by (cases "Close_collector (coll s)") (auto simp: goroutine_inv_def settled_def)
qed (auto simp: goroutine_inv_def)

lemma col_reach_goroutine: "col_reach s \<Longrightarrow> goroutine_inv s"
  by (induction rule: col_reach.induct)
    (auto simp: goroutine_inv_def start_sys_def NewCollector_def dest: col_step_goroutine)

text \<open>
  Every task there is has a wait group at zero, and what is queued or held by a producer is a task.
\<close>

fun task_of :: "ppc \<Rightarrow> nat option" where
  "task_of (Took i k) = Some k"
| "task_of (Counting i k) = Some k"
| "task_of _ = None"

definition task_inv :: "('avg, 'misc, 'vm) sys \<Rightarrow> bool" where
  "task_inv s \<longleftrightarrow> (\<forall>ct\<in>set (tasks (coll s)). wg ct = Some 0)
     \<and> (\<forall>h i. chub (coll s) = Some h \<longrightarrow> set (queue (subs h i)) \<subseteq> {..<length (tasks (coll s))})
     \<and> (\<forall>t k. task_of (pcs s t) = Some k \<longrightarrow> k < length (tasks (coll s)))"

lemma publish_loop_frame:
  "publish_loop is v nn s = Inr (nn', s') \<Longrightarrow>
    set (queue (s' i)) \<subseteq> insert v (set (queue (s i))) \<and> closed (s' i) = closed (s i)"
proof (induction "is" arbitrary: nn s)
  case Nil
  then show ?case by auto
next
  case (Cons j "is")
  show ?case
  proof (cases "nn \<le> 0")
    case True
    then show ?thesis using Cons.prems by auto
  next
    case False
    then obtain c where c: "publish v (s j) = Inr c" "publish_loop is v (nn - 1) (s(j := c)) = Inr (nn', s')"
      using Cons.prems by (auto split: sum.splits)
    have "set (queue c) \<subseteq> insert v (set (queue (s j))) \<and> closed c = closed (s j)"
      using c(1) by (auto simp: publish_def split: if_splits)
    with Cons.IH [OF c(2)] show ?thesis by (auto split: if_splits)
  qed
qed

lemma Publish_frame:
  "Publish visit topic v h = Inr (n, h') \<Longrightarrow> subscribers h' = subscribers h \<and> internalSubscriberID h' = internalSubscriberID h
    \<and> set (queue (subs h' i)) \<subseteq> insert v (set (queue (subs h i))) \<and> closed (subs h' i) = closed (subs h i)"
  using publish_loop_frame [of visit v _ "subs h" _ _ i]
  unfolding Publish_def PublishN_def Let_def by (simp split: sum.splits if_splits; fastforce)

lemma Collect_publish_Inr:
  assumes "Collect_publish visit ctx now c = Inr (k, c')"
  obtains h n h' where "chub c = Some h" "Publish visit defaultTopic (length (tasks c)) h = Inr (n, h')"
    "c' = c\<lparr>chub := Some h', tasks := tasks c @ [newCollectTask ctx now]\<rparr>" "k = length (tasks c)"
  using assms by (auto simp: Collect_publish_def Let_def split: option.splits sum.splits)

lemma run_producer_wg [simp]: "t < 5 \<Longrightarrow> wg (run_producer t pr ct) = wg ct"
  by (auto simp: run_producer_def producers_def less_Suc_eq numeral_eq_Suc collect_net_def collect_loadAvg_def
      collect_loadMisc_def collect_mem_def collect_uptime_def Let_def split: prod.splits if_splits)

lemma count_task_zero: "wg (tasks (coll s) ! k) = Some 0 \<Longrightarrow> count_task t i k s = Inl NegativeWaitGroup"
  by (simp add: count_task_def wg_Done_def Let_def)

lemma names_collector [simp]: "names collector_group = [''net'', ''loadAvg'', ''loadMisc'', ''mem'', ''uptime'']"
  by (simp add: collector_group_def FastFail_def addProducer_def Append_def newGroup_def)

lemma task_invD:
  assumes "task_inv s"
  shows "k < length (tasks (coll s)) \<Longrightarrow> wg (tasks (coll s) ! k) = Some 0"
    and "task_of (pcs s t) = Some k \<Longrightarrow> k < length (tasks (coll s))"
    and "chub (coll s) = Some h \<Longrightarrow> v \<in> set (queue (subs h i)) \<Longrightarrow> v < length (tasks (coll s))"
  using assms by (auto simp: task_inv_def)

text \<open>The turns of a producer that do not panic, by cases.\<close>

lemma producer_turn_cases:
  assumes turn: "producer_turn pr ch t s = Some (Inr s')" and inv: "task_inv s"
  obtains (enters) h i h' where "chub (coll s) = Some h" "pcs s t = Entering"
      "Subscribe defaultTopic defaultChannelQueue h = (i, h')" "s' = goes t (Choosing i) (s\<lparr>coll := (coll s)\<lparr>chub := Some h'\<rparr>\<rparr>)"
  | (leaves) i e where "pcs s t = Choosing i" "s' = goes t (Deferring i e) s"
  | (takes) h i k c where "chub (coll s) = Some h" "pcs s t = Choosing i" "receive (subs h i) = Some (Some k, c)"
      "s' = goes t (Took i k) (set_chan i c s)"
  | (collects) i k where "pcs s t = Took i k" "k < length (tasks (coll s))"
      "s' = goes t (Counting i k) (set_task k (run_producer t pr (tasks (coll s) ! k)) s)"
  | (unsubscribes) h i e c where "chub (coll s) = Some h" "pcs s t = Deferring i e" "Unsubscribe_channel (subs h i) = Inr c"
      "s' = goes t (Leaving i e) (set_chan i c s)"
proof -
  obtain h where h: "chub (coll s) = Some h"
    using turn by (cases "chub (coll s)") (simp_all add: producer_turn_def)
  show thesis
  proof (cases "pcs s t")
    case Entering
    then show ?thesis using turn h enters [of h] by (auto simp: producer_turn_def split: prod.splits)
  next
    case (Choosing i)
    then show ?thesis using turn h leaves [of i] takes [of h i]
      by (auto simp: producer_turn_def split: choice.splits if_splits option.splits prod.splits)
  next
    case (Took i k)
    have k: "k < length (tasks (coll s))" using task_invD(2) [OF inv, of t k] Took by simp
    then have w: "wg (tasks (coll s) ! k) = Some 0" by (rule task_invD(1) [OF inv])
    then show ?thesis using turn h collects [OF Took k] Took count_task_zero [OF w]
      by (auto simp: producer_turn_def Let_def split: if_splits)
  next
    case (Counting i k)
    have "k < length (tasks (coll s))" using task_invD(2) [OF inv, of t k] Counting by simp
    then have "wg (tasks (coll s) ! k) = Some 0" by (rule task_invD(1) [OF inv])
    then show ?thesis using turn h Counting count_task_zero [of s k] by (simp add: producer_turn_def)
  next
    case (Deferring i e)
    then show ?thesis using turn h unsubscribes [of h i e] by (auto simp: producer_turn_def split: sum.splits)
  next
    case (Leaving i e)
    then show ?thesis using turn h by (simp add: producer_turn_def)
  qed
qed

lemma producer_turn_task:
  assumes turn: "producer_turn pr ch t s = Some (Inr s')" and t: "t < 5" and inv: "task_inv s"
  shows "task_inv s'"
proof -
  note d = task_invD [OF inv]
  have zero: "\<forall>ct\<in>set (tasks (coll s)). wg ct = Some 0" using inv by (simp add: task_inv_def)
  from turn inv show ?thesis
  proof (cases rule: producer_turn_cases)
    case (enters h i h')
    have "set (queue (subs h' j)) \<subseteq> set (queue (subs h j))" for j
      using enters(3) by (auto simp: Subscribe_def newChannelSubscriber_def Let_def split: if_splits)
    then show ?thesis using enters(1) zero d(2,3) unfolding enters(4)
      by (fastforce simp: task_inv_def goes_def)
  next
    case (leaves i e)
    then show ?thesis using zero d(2,3) by (auto simp: task_inv_def goes_def)
  next
    case (takes h i k c)
    have q: "queue (subs h i) = k # queue c"
      using takes(3) by (auto simp: receive_def split: list.splits if_splits)
    then have k: "k < length (tasks (coll s))" using d(3) [OF takes(1), of k i] by simp
    have "v < length (tasks (coll s))" if "v \<in> set (queue c)" for v
      using d(3) [OF takes(1), of v i] that q by simp
    with k show ?thesis using zero d(2) d(3) [OF takes(1)] takes(1) unfolding takes(4)
      by (auto simp: task_inv_def goes_def set_chan_def)
  next
    case (collects i k)
    have "\<forall>ct\<in>set ((tasks (coll s))[k := run_producer t pr (tasks (coll s) ! k)]). wg ct = Some 0"
      using zero d(1) [OF collects(2)] t by (auto dest!: set_update_subset_insert [THEN subsetD])
    then show ?thesis using d(2,3) collects(2) unfolding collects(3)
      by (auto simp: task_inv_def goes_def set_task_def)
  next
    case (unsubscribes h i e c)
    have "queue c = queue (subs h i)"
      using unsubscribes(3) by (auto simp: Unsubscribe_channel_def split: if_splits)
    then show ?thesis using zero d(2) d(3) [OF unsubscribes(1)] unsubscribes(1) unfolding unsubscribes(4)
      by (auto simp: task_inv_def goes_def set_chan_def)
  qed
qed

lemma Collect_publish_task:
  assumes pub: "Collect_publish visit ctx now (coll s) = Inr (k, c')" and inv: "task_inv s"
  shows "task_inv (s\<lparr>coll := c'\<rparr>)"
proof -
  obtain h n h' where h: "chub (coll s) = Some h" "Publish visit defaultTopic (length (tasks (coll s))) h = Inr (n, h')"
    "c' = (coll s)\<lparr>chub := Some h', tasks := tasks (coll s) @ [newCollectTask ctx now]\<rparr>"
    using pub by (rule Collect_publish_Inr)
  have "v < Suc (length (tasks (coll s)))" if "v \<in> set (queue (subs h' i))" for v i
    using Publish_frame [OF h(2), of i] task_invD(3) [OF inv h(1), of v i] that by auto
  moreover have "k < Suc (length (tasks (coll s)))" if "task_of (pcs s t) = Some k" for t k
    using task_invD(2) [OF inv that] by simp
  ultimately show ?thesis using inv unfolding h(3) by (auto simp: task_inv_def newCollectTask_def)
qed

lemma task_inv_upd [simp]: "task_inv (s\<lparr>crash := p\<rparr>) = task_inv s" "task_inv (s\<lparr>runner := q\<rparr>) = task_inv s"
  by (simp_all add: task_inv_def)

lemma col_step_task: "col_step s s' \<Longrightarrow> task_inv s \<Longrightarrow> task_inv s'"
proof (induction rule: col_step.induct)
  case (cs_start s n launched c)
  then show ?case by (fastforce simp: task_inv_def Start_collector_def split: if_splits)
next
  case (cs_turn s t pr ch s')
  then show ?case using producer_turn_task [of pr ch t s s'] by simp
next
  case (cs_over s e c)
  then show ?case using after_run_Inr [of e "coll s" c] by (auto simp: task_inv_def)
next
  case (cs_collect s h visit ctx now r)
  then show ?case by (cases r) (auto simp: settled_def dest: Collect_publish_task)
next
  case (cs_collect_early s visit ctx now r)
  then show ?case by (auto simp: task_inv_def settled_def Collect_publish_def Let_def)
next
  case (cs_close s)
  then show ?case using Close_collector_Inr [of "coll s"]
    by (cases "Close_collector (coll s)") (auto simp: task_inv_def settled_def)
qed (auto simp: task_inv_def)

lemma col_reach_task: "col_reach s \<Longrightarrow> task_inv s"
proof (induction rule: col_reach.induct)
  case (col_goes s s')
  then show ?case using col_step_task by blast
qed (simp add: task_inv_def start_sys_def NewCollector_def)

text \<open>
  The subscribers of the hub are those of the producers that have entered, with consecutive ids;
  the channel of a producer that has left is closed.
\<close>

fun chan_of :: "ppc \<Rightarrow> 64 word option" where
  "chan_of Entering = None"
| "chan_of (Choosing i) = Some i"
| "chan_of (Took i k) = Some i"
| "chan_of (Counting i k) = Some i"
| "chan_of (Deferring i e) = Some i"
| "chan_of (Leaving i e) = Some i"

definition entered :: "(nat \<Rightarrow> ppc) \<Rightarrow> nat set" where
  "entered p = {t. t < 5 \<and> p t \<noteq> Entering}"

definition hub_ids :: "(nat \<Rightarrow> ppc) \<Rightarrow> (int, nat) hub \<Rightarrow> bool" where
  "hub_ids p h \<longleftrightarrow> (\<exists>n. topic_ids h defaultTopic = map (\<lambda>j. n + of_nat (Suc j)) [0..<card (entered p)]
          \<and> internalSubscriberID h = n + of_nat (card (entered p)))
     \<and> (\<forall>t<5. \<forall>i. chan_of (p t) = Some i \<longrightarrow> i \<in> set (topic_ids h defaultTopic))
     \<and> (\<forall>t<5. \<forall>i e. p t = Leaving i e \<longrightarrow> closed (subs h i))"

definition ids_inv :: "('avg, 'misc, 'vm) sys \<Rightarrow> bool" where
  "ids_inv s \<longleftrightarrow> (chub (coll s) = None \<longrightarrow> entered (pcs s) = {}) \<and> (\<forall>h. chub (coll s) = Some h \<longrightarrow> hub_ids (pcs s) h)"

lemma ids_inv_upd [simp]:
  "ids_inv (s\<lparr>crash := p\<rparr>) = ids_inv s" "ids_inv (s\<lparr>runner := q\<rparr>) = ids_inv s" "ids_inv (s\<lparr>grun := r\<rparr>) = ids_inv s"
  "ids_inv (s\<lparr>ctxs := x\<rparr>) = ids_inv s"
  by (simp_all add: ids_inv_def)

lemma ids_inv_coll:
  "ids_inv s \<Longrightarrow> chub c = chub (coll s) \<Longrightarrow> ids_inv (s\<lparr>coll := c\<rparr>)"
  by (simp add: ids_inv_def)

lemma small_ids: "j < 5 \<Longrightarrow> k < 5 \<Longrightarrow> (of_nat (Suc j) :: 64 word) = of_nat (Suc k) \<Longrightarrow> j = k"
proof -
  assume a: "j < 5" "k < 5" and e: "(of_nat (Suc j) :: 64 word) = of_nat (Suc k)"
  then have "take_bit 64 (Suc j) = take_bit 64 (Suc k)" by (simp only: word_of_nat_eq_iff) simp
  then show "j = k" using a by (simp add: take_bit_nat_eq_self)
qed

lemma card_entered: "t < 5 \<Longrightarrow> p t = Entering \<Longrightarrow> card (entered p) < 5"
proof -
  assume "t < 5" "p t = Entering"
  then have "entered p \<subset> {..<5}" by (auto simp: entered_def)
  from psubset_card_mono [OF _ this] show "card (entered p) < 5" by simp
qed

lemma ids_invD:
  assumes "ids_inv s" and "chub (coll s) = Some h"
  shows "\<exists>n. topic_ids h defaultTopic = map (\<lambda>j. n + of_nat (Suc j)) [0..<card (entered (pcs s))]
      \<and> internalSubscriberID h = n + of_nat (card (entered (pcs s)))"
    and "t < 5 \<Longrightarrow> chan_of (pcs s t) = Some i \<Longrightarrow> i \<in> set (topic_ids h defaultTopic)"
    and "t < 5 \<Longrightarrow> pcs s t = Leaving i e \<Longrightarrow> closed (subs h i)"
  using assms by (auto simp: ids_inv_def hub_ids_def)

text \<open>A producer moves on with its subscriber, and the hub changes at most in that one's channel.\<close>

lemma ids_inv_move:
  assumes inv: "ids_inv s" and h: "chub (coll s) = Some h" and t: "t < 5" and src: "chan_of (pcs s t) = Some i"
    and dst: "chan_of p = Some i" and c: "chub (coll s') = Some (h\<lparr>subs := (subs h)(i := ch)\<rparr>)"
    and keep: "closed (subs h i) \<Longrightarrow> closed ch" and gone: "\<And>e j. p = Leaving j e \<Longrightarrow> closed ch"
    and pcs: "pcs s' = (pcs s)(t := p)"
  shows "ids_inv s'"
proof -
  have "p \<noteq> Entering" "pcs s t \<noteq> Entering" using src dst by auto
  then have ent: "entered (pcs s') = entered (pcs s)" by (auto simp: entered_def pcs)
  have tops: "topic_ids (h\<lparr>subs := (subs h)(i := ch)\<rparr>) = topic_ids h" by (simp add: topic_ids_def fun_eq_iff)
  note d = ids_invD [OF inv h]
  have mem: "j \<in> set (topic_ids h defaultTopic)" if "u < 5" "chan_of (pcs s' u) = Some j" for u j
    using d(2) [of u j] d(2) [OF t src] that dst by (auto simp: pcs split: if_splits)
  have cl: "closed (((subs h)(i := ch)) j)" if "u < 5" "pcs s' u = Leaving j e" for u j e
    using d(3) [of u j e] that keep gone dst by (auto simp: pcs split: if_splits)
  have "hub_ids (pcs s') h'" if "subs h' = (subs h)(i := ch)" "topic_ids h' = topic_ids h"
    "internalSubscriberID h' = internalSubscriberID h" for h'
    using d(1) mem cl unfolding hub_ids_def that ent by blast
  from this [of "h\<lparr>subs := (subs h)(i := ch)\<rparr>"] show ?thesis by (simp add: ids_inv_def c tops)
qed

lemma ids_inv_enter:
  assumes inv: "ids_inv s" and h: "chub (coll s) = Some h" and t: "t < 5" and p: "pcs s t = Entering"
    and sub: "Subscribe defaultTopic q h = (i, h')"
  shows "ids_inv (goes t (Choosing i) (s\<lparr>coll := (coll s)\<lparr>chub := Some h'\<rparr>\<rparr>))" (is "ids_inv ?s")
proof -
  note d = ids_invD [OF inv h]
  let ?c = "card (entered (pcs s))"
  obtain n where n: "topic_ids h defaultTopic = map (\<lambda>j. n + of_nat (Suc j)) [0..<?c]"
    "internalSubscriberID h = n + of_nat ?c" using d(1) by blast
  have c5: "?c < 5" by (rule card_entered [of t "pcs s", OF t p])
  have i: "i = n + of_nat (Suc ?c)" using sub n(2)
    by (auto simp: Subscribe_def newChannelSubscriber_def Let_def algebra_simps)
  have new: "i \<notin> set (topic_ids h defaultTopic)"
  proof
    assume "i \<in> set (topic_ids h defaultTopic)"
    then obtain j where j: "j < ?c" "(of_nat (Suc ?c) :: 64 word) = of_nat (Suc j)" unfolding n(1) i by auto
    from small_ids [OF c5 _ j(2)] j(1) c5 show False by simp
  qed
  then have tops: "topic_ids h' defaultTopic = topic_ids h defaultTopic @ [i]"
    using sub by (auto simp: Subscribe_def newChannelSubscriber_def Let_def topic_ids_def split: option.splits)
  have ctr: "internalSubscriberID h' = i" and subs: "\<And>j. j \<noteq> i \<Longrightarrow> subs h' j = subs h j"
    using sub by (auto simp: Subscribe_def newChannelSubscriber_def Let_def)
  have "entered (pcs ?s) = insert t (entered (pcs s))" using t by (auto simp: entered_def goes_def)
  moreover have "t \<notin> entered (pcs s)" "finite (entered (pcs s))" using p by (auto simp: entered_def)
  ultimately have card: "card (entered (pcs ?s)) = Suc ?c" by simp
  have coll: "chub (coll ?s) = Some h'" by (simp add: goes_def)
  have "closed (subs h' j)" if "u < 5" "pcs ?s u = Leaving j e" for u j e
  proof -
    have "pcs s u = Leaving j e" using that by (auto simp: goes_def split: if_splits)
    then have "closed (subs h j)" "j \<noteq> i" using d(2) [OF that(1), of j] d(3) [OF that(1)] new by auto
    then show ?thesis using subs by simp
  qed
  moreover have "j \<in> set (topic_ids h' defaultTopic)" if "u < 5" "chan_of (pcs ?s u) = Some j" for u j
    using d(2) [of u j] that by (auto simp: tops goes_def split: if_splits)
  moreover have "topic_ids h' defaultTopic = map (\<lambda>j. n + of_nat (Suc j)) [0..<Suc ?c]"
    by (simp add: tops n(1) i)
  ultimately show ?thesis unfolding ids_inv_def hub_ids_def coll card using ctr i by blast
qed

lemma producer_turn_ids:
  assumes turn: "producer_turn pr ch t s = Some (Inr s')" and t: "t < 5" and task: "task_inv s" and inv: "ids_inv s"
  shows "ids_inv s'"
proof -
  obtain h where h: "chub (coll s) = Some h"
    using turn by (cases "chub (coll s)") (simp_all add: producer_turn_def)
  have same: "subs h = (subs h)(i := subs h i)" for i by simp
  from turn task show ?thesis
  proof (cases rule: producer_turn_cases)
    case (enters h i h')
    show ?thesis unfolding enters(4) by (rule ids_inv_enter [OF inv enters(1) t enters(2,3)])
  next
    case (leaves i e)
    show ?thesis by (rule ids_inv_move [OF inv h t, of i "Deferring i e" _ "subs h i"])
      (use h leaves in \<open>auto simp: goes_def\<close>)
  next
    case (takes h2 i k c)
    then have "closed c = closed (subs h i)" using h by (auto simp: receive_def split: list.splits if_splits)
    then show ?thesis by (intro ids_inv_move [OF inv h t, of i "Took i k" _ c])
      (use h takes in \<open>auto simp: goes_def set_chan_def\<close>)
  next
    case (collects i k)
    show ?thesis by (rule ids_inv_move [OF inv h t, of i "Counting i k" _ "subs h i"])
      (use h collects in \<open>auto simp: goes_def set_task_def\<close>)
  next
    case (unsubscribes h2 i e c)
    then have "closed c" by (auto simp: Unsubscribe_channel_def split: if_splits)
    then show ?thesis by (intro ids_inv_move [OF inv h t, of i "Leaving i e" _ c])
      (use h unsubscribes in \<open>auto simp: goes_def set_chan_def\<close>)
  qed
qed

lemma Collect_publish_ids:
  assumes pub: "Collect_publish visit ctx now (coll s) = Inr (k, c')" and inv: "ids_inv s"
  shows "ids_inv (s\<lparr>coll := c'\<rparr>)"
proof -
  obtain h n h' where h: "chub (coll s) = Some h" "Publish visit defaultTopic (length (tasks (coll s))) h = Inr (n, h')"
    "c' = (coll s)\<lparr>chub := Some h', tasks := tasks (coll s) @ [newCollectTask ctx now]\<rparr>"
    using pub by (rule Collect_publish_Inr)
  have "topic_ids h' = topic_ids h" "closed (subs h' i) = closed (subs h i)" "internalSubscriberID h' = internalSubscriberID h" for i
    using Publish_frame [OF h(2)] by (auto simp: topic_ids_def fun_eq_iff)
  then show ?thesis using inv unfolding h(3) by (simp add: ids_inv_def hub_ids_def h(1))
qed

lemma col_step_ids: "col_step s s' \<Longrightarrow> task_inv s \<Longrightarrow> ids_inv s \<Longrightarrow> ids_inv s'"
proof (induction rule: col_step.induct)
  case (cs_start s n launched c)
  then show ?case
  proof (cases "\<not> runOnce (coll s) \<and> chub (coll s) = None")
    case True
    then have e: "entered (pcs s) = {}" using cs_start by (simp add: ids_inv_def)
    then have "pcs s t = Entering" if "t < 5" for t using that by (auto simp: entered_def)
    then show ?thesis using True cs_start e by (auto simp: ids_inv_def hub_ids_def Start_collector_def topic_ids_def)
  qed (auto simp: ids_inv_def Start_collector_def split: if_splits)
next
  case (cs_turn s t pr ch s')
  then show ?case using producer_turn_ids [of pr ch t s s'] by simp
next
  case (cs_over s e c)
  then show ?case using after_run_Inr [of e "coll s" c] by (simp add: ids_inv_coll)
next
  case (cs_collect s h visit ctx now r)
  then show ?case by (cases r) (auto simp: settled_def dest: Collect_publish_ids)
next
  case (cs_collect_early s visit ctx now r)
  then show ?case by (auto simp: settled_def Collect_publish_def Let_def)
next
  case (cs_close s)
  then show ?case using Close_collector_Inr [of "coll s"]
    by (cases "Close_collector (coll s)") (auto simp: settled_def intro: ids_inv_coll)
next
  case (cs_make s)
  then show ?case by (simp add: ids_inv_coll)
qed simp_all

lemma col_reach_ids: "col_reach s \<Longrightarrow> ids_inv s"
proof (induction rule: col_reach.induct)
  case (col_goes s s')
  then show ?case using col_step_ids col_reach_task by blast
qed (simp add: ids_inv_def entered_def start_sys_def NewCollector_def)

subsection \<open>What the producers gather\<close>

text \<open>A field that only the item \<open>t\<close> of a list changes.\<close>

lemma fold_one_writer:
  assumes "distinct xs" and "\<And>u x. u \<in> set xs \<Longrightarrow> f (F u x) = (if u = t then g x else f x)"
    and "\<And>x y. f x = f y \<Longrightarrow> g x = g y"
  shows "f (fold F xs x) = (if t \<in> set xs then g x else f x)"
  using assms(1,2)
proof (induction xs arbitrary: x)
  case (Cons u xs)
  have "f (fold F xs (F u x)) = (if t \<in> set xs then g (F u x) else f (F u x))"
    using Cons.prems by (intro Cons.IH) auto
  moreover have "g (F u x) = g x" if "u \<noteq> t" using Cons.prems(2) [of u x] that by (intro assms(3)) simp
  ultimately show ?case using Cons.prems by auto
qed simp

definition probe_error :: "('avg, 'misc, 'vm) probes \<Rightarrow> nat \<Rightarrow> go_error option" where
  "probe_error pr t = [snd (IOCounters pr), snd (Avg pr), snd (Misc pr), snd (VirtualMemory pr), snd (host_Uptime pr)] ! t"

text \<open>What a task holds once every producer has had its turn with it.\<close>

definition gathered :: "('avg, 'misc, 'vm) probes \<Rightarrow> ('avg, 'misc, 'vm) Metrics \<Rightarrow> ('avg, 'misc, 'vm) Metrics" where
  "gathered pr m =
     \<lparr>taken = taken m,
      Uptime = (if snd (host_Uptime pr) = None \<and> fst (host_Uptime pr) \<noteq> 0 then fst (host_Uptime pr) else Uptime m),
      Load = (if snd (Avg pr) = None \<and> fst (Avg pr) \<noteq> None then fst (Avg pr) else Load m),
      LoadMisc = (if snd (Misc pr) = None \<and> fst (Misc pr) \<noteq> None then fst (Misc pr) else LoadMisc m),
      Mem = (if snd (VirtualMemory pr) = None \<and> fst (VirtualMemory pr) \<noteq> None then fst (VirtualMemory pr) else Mem m),
      Net = (if snd (IOCounters pr) = None \<and> fst (IOCounters pr) \<noteq> []
        then Some \<lparr>Tx = 0, Rx = 0, TxAll = BytesSent (hd (fst (IOCounters pr))), RxAll = BytesRecv (hd (fst (IOCounters pr)))\<rparr>
        else Net m)\<rparr>"

lemmas producer_fns = run_producer_def producers_def probe_error_def gathered_def collect_net_def collect_loadAvg_def
  collect_loadMisc_def collect_mem_def collect_uptime_def

lemma run_producer_metrics:
  "metrics (run_producer 0 pr ct) = (metrics ct)\<lparr>Net := Net (gathered pr (metrics ct))\<rparr>"
  "metrics (run_producer 1 pr ct) = (metrics ct)\<lparr>Load := Load (gathered pr (metrics ct))\<rparr>"
  "metrics (run_producer 2 pr ct) = (metrics ct)\<lparr>LoadMisc := LoadMisc (gathered pr (metrics ct))\<rparr>"
  "metrics (run_producer 3 pr ct) = (metrics ct)\<lparr>Mem := Mem (gathered pr (metrics ct))\<rparr>"
  "metrics (run_producer 4 pr ct) = (metrics ct)\<lparr>Uptime := Uptime (gathered pr (metrics ct))\<rparr>"
proof -
  show "metrics (run_producer 0 pr ct) = (metrics ct)\<lparr>Net := Net (gathered pr (metrics ct))\<rparr>"
    by (cases "IOCounters pr"; cases "fst (IOCounters pr)"; cases "snd (IOCounters pr)") (simp_all add: producer_fns Let_def)
  show "metrics (run_producer 1 pr ct) = (metrics ct)\<lparr>Load := Load (gathered pr (metrics ct))\<rparr>"
    by (cases "Avg pr"; cases "fst (Avg pr)"; cases "snd (Avg pr)") (simp_all add: producer_fns Let_def)
  show "metrics (run_producer 2 pr ct) = (metrics ct)\<lparr>LoadMisc := LoadMisc (gathered pr (metrics ct))\<rparr>"
    by (cases "Misc pr"; cases "fst (Misc pr)"; cases "snd (Misc pr)") (simp_all add: producer_fns Let_def)
  show "metrics (run_producer 3 pr ct) = (metrics ct)\<lparr>Mem := Mem (gathered pr (metrics ct))\<rparr>"
    by (cases "VirtualMemory pr"; cases "fst (VirtualMemory pr)"; cases "snd (VirtualMemory pr)") (simp_all add: producer_fns Let_def)
  show "metrics (run_producer 4 pr ct) = (metrics ct)\<lparr>Uptime := Uptime (gathered pr (metrics ct))\<rparr>"
    by (cases "host_Uptime pr"; cases "snd (host_Uptime pr)") (simp_all add: producer_fns Let_def)
qed

lemma five: "t < 5 \<Longrightarrow> t = 0 \<or> t = 1 \<or> t = 2 \<or> t = 3 \<or> t = (4 :: nat)"
  by auto

lemma run_producer_fields:
  assumes "t < 5"
  shows "Uptime (metrics (run_producer t pr ct)) = (if t = 4 then Uptime (gathered pr (metrics ct)) else Uptime (metrics ct))"
    and "Load (metrics (run_producer t pr ct)) = (if t = 1 then Load (gathered pr (metrics ct)) else Load (metrics ct))"
    and "LoadMisc (metrics (run_producer t pr ct)) = (if t = 2 then LoadMisc (gathered pr (metrics ct)) else LoadMisc (metrics ct))"
    and "Mem (metrics (run_producer t pr ct)) = (if t = 3 then Mem (gathered pr (metrics ct)) else Mem (metrics ct))"
    and "Net (metrics (run_producer t pr ct)) = (if t = 0 then Net (gathered pr (metrics ct)) else Net (metrics ct))"
    and "taken (metrics (run_producer t pr ct)) = taken (metrics ct)"
  using five [OF assms] by (elim disjE; simp add: run_producer_metrics run_producer_metrics [unfolded One_nat_def])+

lemma run_producer_error:
  "t < 5 \<Longrightarrow> terr (run_producer t pr ct) = (if probe_error pr t \<noteq> None then probe_error pr t else terr ct)"
  by (auto simp: producer_fns less_Suc_eq numeral_eq_Suc Let_def split: prod.splits if_splits)

lemma gathered_fields:
  "Uptime (gathered pr m) = (if snd (host_Uptime pr) = None \<and> fst (host_Uptime pr) \<noteq> 0 then fst (host_Uptime pr) else Uptime m)"
  "Load (gathered pr m) = (if snd (Avg pr) = None \<and> fst (Avg pr) \<noteq> None then fst (Avg pr) else Load m)"
  "LoadMisc (gathered pr m) = (if snd (Misc pr) = None \<and> fst (Misc pr) \<noteq> None then fst (Misc pr) else LoadMisc m)"
  "Mem (gathered pr m) = (if snd (VirtualMemory pr) = None \<and> fst (VirtualMemory pr) \<noteq> None then fst (VirtualMemory pr) else Mem m)"
  "Net (gathered pr m) = (if snd (IOCounters pr) = None \<and> fst (IOCounters pr) \<noteq> []
     then Some \<lparr>Tx = 0, Rx = 0, TxAll = BytesSent (hd (fst (IOCounters pr))), RxAll = BytesRecv (hd (fst (IOCounters pr)))\<rparr> else Net m)"
  by (simp_all add: gathered_def)

lemma fold_run_producer_field:
  assumes "distinct order" and "set order = {..<5}" and "t < 5"
    and "\<And>u x. u < 5 \<Longrightarrow> f (metrics (run_producer u pr x)) = (if u = t then f (gathered pr (metrics x)) else f (metrics x))"
    and "\<And>x y. f x = f y \<Longrightarrow> f (gathered pr x) = f (gathered pr y)"
  shows "f (metrics (fold (\<lambda>t. run_producer t pr) order ct)) = f (gathered pr (metrics ct))"
proof -
  have "u < 5" if "u \<in> set order" for u using that assms(2) by auto
  then have "f (metrics (fold (\<lambda>t. run_producer t pr) order ct))
      = (if t \<in> set order then f (gathered pr (metrics ct)) else f (metrics ct))"
    using assms(4,5) by (intro fold_one_writer [OF assms(1), where f = "\<lambda>x. f (metrics x)"]) blast+
  then show ?thesis using assms(2,3) by simp
qed

lemma fold_run_producer:
  assumes "distinct order" and "set order = {..<5}"
  shows "metrics (fold (\<lambda>t. run_producer t pr) order ct) = gathered pr (metrics ct)"
proof -
  let ?r = "fold (\<lambda>t. run_producer t pr) order ct"
  note field = fold_run_producer_field [OF assms]
  have "Uptime (metrics ?r) = Uptime (gathered pr (metrics ct))"
    by (rule field [of 4]) (simp_all add: run_producer_fields gathered_fields)
  moreover have "Load (metrics ?r) = Load (gathered pr (metrics ct))"
    by (rule field [of 1]) (simp_all add: run_producer_fields gathered_fields)
  moreover have "LoadMisc (metrics ?r) = LoadMisc (gathered pr (metrics ct))"
    by (rule field [of 2]) (simp_all add: run_producer_fields gathered_fields)
  moreover have "Mem (metrics ?r) = Mem (gathered pr (metrics ct))"
    by (rule field [of 3]) (simp_all add: run_producer_fields gathered_fields)
  moreover have "Net (metrics ?r) = Net (gathered pr (metrics ct))"
    by (rule field [of 0]) (simp_all add: run_producer_fields gathered_fields)
  moreover have "taken (metrics ?r) = taken (gathered pr (metrics ct))"
    by (rule field [of 0]) (simp_all add: run_producer_fields gathered_def)
  ultimately show ?thesis by (intro Metrics.equality) simp_all
qed

lemma fold_run_producer_error:
  "set order \<subseteq> {..<5} \<Longrightarrow> terr (fold (\<lambda>t. run_producer t pr) order ct)
    = fold (\<lambda>t e. if probe_error pr t \<noteq> None then probe_error pr t else e) order (terr ct)"
  by (induction order arbitrary: ct) (simp_all add: run_producer_error)

lemma run_producer_rest: "t < 5 \<Longrightarrow> wg (run_producer t pr ct) = wg ct \<and> tctx (run_producer t pr ct) = tctx ct"
  by (auto simp: less_Suc_eq eval_nat_numeral run_producer_def producers_def collect_net_def collect_loadAvg_def collect_loadMisc_def
      collect_mem_def collect_uptime_def Let_def case_prod_beta split: if_splits)

lemma fold_run_producer_rest:
  "set order \<subseteq> {..<5} \<Longrightarrow> wg (fold (\<lambda>t. run_producer t pr) order ct) = wg ct
    \<and> tctx (fold (\<lambda>t. run_producer t pr) order ct) = tctx ct"
  by (induction order arbitrary: ct) (simp_all add: run_producer_rest)

subsection \<open>The collector's group\<close>

text \<open>
  The tasks of the group are the producers: one that has not started has not subscribed, one that
  is through has unsubscribed.
\<close>

definition group_inv :: "('avg, 'misc, 'vm) sys \<Rightarrow> bool" where
  "group_inv s \<longleftrightarrow> run_reach collector_group (grun s)
     \<and> (\<forall>t. tpcs (grun s) t = Starting \<longrightarrow> pcs s t = Entering)
     \<and> (\<forall>t. tpcs (grun s) t \<noteq> Starting \<longrightarrow> tpcs (grun s) t \<noteq> Running \<longrightarrow> (\<exists>i e. pcs s t = Leaving i e))"

lemma concurrency_collector [simp]: "concurrency collector_group = None"
  by (simp add: collector_group_def FastFail_def addProducer_def Append_def newGroup_def)

lemma group_inv_upd [simp]:
  "group_inv (s\<lparr>crash := p\<rparr>) = group_inv s" "group_inv (s\<lparr>runner := q\<rparr>) = group_inv s" "group_inv (s\<lparr>coll := c\<rparr>) = group_inv s"
  "group_inv (s\<lparr>ctxs := x\<rparr>) = group_inv s"
  by (simp_all add: group_inv_def)

lemma run_step_pcs:
  assumes "run_step collector_group r r'"
  shows "tpcs r' t = Starting \<Longrightarrow> tpcs r t = Starting"
    and "tpcs r t = Starting \<Longrightarrow> tpcs r' t = Starting \<or> tpcs r' t = Running"
    and "tpcs r t \<noteq> Starting \<Longrightarrow> tpcs r t \<noteq> Running \<Longrightarrow> tpcs r' t \<noteq> Starting \<and> tpcs r' t \<noteq> Running"
  using assms
  by (induction rule: run_step.induct)
    (auto simp: record_result_def finish_tasks_def taskFinish_def Let_def split: if_splits option.splits)

lemma producer_turn_pcs:
  "producer_turn pr ch t s = Some (Inr s') \<Longrightarrow> task_inv s \<Longrightarrow>
    grun s' = grun s \<and> (\<forall>u. u \<noteq> t \<longrightarrow> pcs s' u = pcs s u)"
  by (erule (1) producer_turn_cases) (simp_all add: goes_def set_chan_def set_task_def)

lemma col_step_group: "col_step s s' \<Longrightarrow> task_inv s \<Longrightarrow> group_inv s \<Longrightarrow> group_inv s'"
proof (induction rule: col_step.induct)
  case (cs_group s r')
  note r = run_step_pcs [OF cs_group(3)]
  have reach: "run_reach collector_group r'" using cs_group(3,6) run_goes by (auto simp: group_inv_def)
  have out: "tpcs (grun s) t \<noteq> Starting" "tpcs (grun s) t \<noteq> Running" if "tpcs r' t \<noteq> Starting" "tpcs r' t \<noteq> Running" for t
    using r(2) [of t] cs_group(4) [of t] that by auto
  show ?case using reach out r(1) cs_group(6) by (auto simp: group_inv_def)
next
  case (cs_turn s t pr ch s')
  have "grun s' = grun s \<and> (\<forall>u. u \<noteq> t \<longrightarrow> pcs s' u = pcs s u)"
    using producer_turn_pcs cs_turn(5,6) by blast
  then show ?case using cs_turn(4,7) unfolding group_inv_def by (metis tpc.distinct(1))
next
  case (cs_return s t i e)
  have "run_step collector_group (grun s) ((grun s)\<lparr>tpcs := (tpcs (grun s))(t := Recording e)\<rparr>)"
    by (rule task_end [OF cs_return(3)])
  then show ?case using cs_return by (auto simp: group_inv_def intro: run_goes)
next
  case (cs_collect s h visit ctx now r)
  then show ?case by (cases r) (simp_all add: settled_def)
next
  case (cs_collect_early s visit ctx now r)
  then show ?case by (cases r) (simp_all add: settled_def)
next
  case (cs_close s)
  then show ?case by (cases "Close_collector (coll s)") (simp_all add: settled_def)
qed simp_all

lemma col_reach_group: "col_reach s \<Longrightarrow> group_inv s"
proof (induction rule: col_reach.induct)
  case (col_goes s s')
  then show ?case using col_step_group col_reach_task by blast
next
  case col_starts
  have "run_reach collector_group (start_run collector_group)" by (rule run_starts)
  moreover have "tpcs (start_run collector_group) t = Starting" for t by (simp add: start_run_def)
  ultimately show ?case by (simp add: group_inv_def start_sys_def)
qed

text \<open>The goroutine of \<open>Start\<close> only goes forward.\<close>

lemma runner_advances: "col_step s s' \<Longrightarrow> goroutine_inv s \<Longrightarrow> runner s \<le> runner s'"
proof (induction rule: col_step.induct)
  case (cs_start s n launched c)
  then show ?case by (auto simp: goroutine_inv_def Start_collector_def less_eq_rpc_def split: if_splits)
next
  case (cs_turn s t pr ch s')
  then show ?case using producer_turn_frame [of pr ch t s s'] by simp
next
  case (cs_collect s h visit ctx now r)
  then show ?case by (cases r) (simp_all add: settled_def)
next
  case (cs_collect_early s visit ctx now r)
  then show ?case by (cases r) (simp_all add: settled_def)
next
  case (cs_close s)
  then show ?case by (cases "Close_collector (coll s)") (simp_all add: settled_def)
qed (simp_all add: less_eq_rpc_def)

text \<open>Nothing that leaves the channel \<open>done\<close> closed lets the goroutine of \<open>Start\<close> end.\<close>

lemma closed_done_stays:
  assumes "col_step s s'" and "cdone (coll s) = Some True" and "runner s \<noteq> Ended" and "goroutine_inv s"
  shows "cdone (coll s') = Some True \<and> runner s' \<noteq> Ended"
  using assms
proof (induction rule: col_step.induct)
  case (cs_start s n launched c)
  then show ?case by (auto simp: Start_collector_def split: if_splits)
next
  case (cs_make s)
  then show ?case by (simp add: goroutine_inv_def)
next
  case (cs_turn s t pr ch s')
  then show ?case using producer_turn_frame [of pr ch t s s'] by simp
next
  case (cs_over s e c)
  then show ?case using after_run_Inr [of e "coll s" c] by simp
next
  case (cs_collect s h visit ctx now r)
  then show ?case using Collect_publish_frame [of visit ctx now "coll s"] by (cases r) (auto simp: settled_def)
next
  case (cs_collect_early s visit ctx now r)
  then show ?case by (auto simp: settled_def Collect_publish_def Let_def)
next
  case (cs_close s)
  then show ?case using Close_collector_Inr [of "coll s"]
    by (cases "Close_collector (coll s)") (auto simp: settled_def)
qed simp_all

lemma after_run_closed: "cdone c = Some True \<Longrightarrow> \<exists>p. after_run e c = Inl p"
proof (cases "after_run e c")
  case (Inr c')
  assume "cdone c = Some True"
  with after_run_Inr [OF Inr] show ?thesis by simp
qed simp

subsection \<open>Properties\<close>

text \<open>
  C31: the five producers write different fields: in whatever order they have their turns with a
  task, it ends with the same metrics, each reading that succeeded in its field and the others
  untouched; the error is that of the last probe to fail, and the wait group and the context of the task
  are left alone (the turn counts the group down afterwards).
\<close>

theorem producers_any_order:
  assumes "distinct order" and "set order = {..<5}"
  shows "metrics (fold (\<lambda>t. run_producer t pr) order ct) = gathered pr (metrics ct)
    \<and> terr (fold (\<lambda>t. run_producer t pr) order ct)
        = fold (\<lambda>t e. if probe_error pr t \<noteq> None then probe_error pr t else e) order (terr ct)
    \<and> wg (fold (\<lambda>t. run_producer t pr) order ct) = wg ct
    \<and> tctx (fold (\<lambda>t. run_producer t pr) order ct) = tctx ct"
  using fold_run_producer [OF assms] fold_run_producer_error [of order pr ct] fold_run_producer_rest [of order pr ct] assms(2) by simp

definition example_probes :: "(nat, nat, nat) probes" where
  "example_probes = \<lparr>IOCounters = ([\<lparr>BytesSent = 3, BytesRecv = 4\<rparr>], None), Avg = (Some 1, None),
     Misc = (None, Some context_Canceled), VirtualMemory = (None, None), host_Uptime = (9, None)\<rparr>"

theorem producers_any_order_witness:
  "metrics (fold (\<lambda>t. run_producer t example_probes) [3, 0, 4, 2, 1] (newCollectTask 0 7))
      = \<lparr>taken = 7, Uptime = 9, Load = Some 1, LoadMisc = None, Mem = None,
         Net = Some \<lparr>Tx = 0, Rx = 0, TxAll = 3, RxAll = 4\<rparr>\<rparr>
    \<and> terr (fold (\<lambda>t. run_producer t example_probes) [3, 0, 4, 2, 1] (newCollectTask 0 7)) = Some context_Canceled"
proof -
  have "set [3, 0, 4, 2, 1] = {..<5 :: nat}" by auto
  from producers_any_order [OF _ this, of example_probes "newCollectTask 0 7"] show ?thesis
    by (simp add: gathered_def example_probes_def newCollectTask_def probe_error_def eval_nat_numeral)
qed

text \<open>
  C32: nobody ever adds to the wait group of a task. In every state the collector can reach, the
  wait of \<open>Collect\<close> returns at once, before any producer has answered; and a producer that has a task
  to count down, answered or cancelled, ends the program with a panic.
\<close>

theorem Collect_waits_for_nothing:
  assumes reach: "col_reach s"
  shows "(k < length (tasks (coll s)) \<longrightarrow> Collect_wait k (coll s) = Inr True)
    \<and> (t < 5 \<and> (pcs s t = Counting i j \<or> pcs s t = Took i j \<and> contextlib_Done (ctxs s) (tctx (tasks (coll s) ! j)))
        \<longrightarrow> producer_turn pr ch t s = Some (Inl NegativeWaitGroup))"
proof (intro conjI impI)
  note d = task_invD [OF col_reach_task [OF reach]]
  show "k < length (tasks (coll s)) \<Longrightarrow> Collect_wait k (coll s) = Inr True"
    using d(1) by (simp add: Collect_wait_def wg_Wait_def)
  assume a: "t < 5 \<and> (pcs s t = Counting i j \<or> pcs s t = Took i j \<and> contextlib_Done (ctxs s) (tctx (tasks (coll s) ! j)))"
  then have "j < length (tasks (coll s))" using d(2) [of t j] by auto
  then have w: "wg (tasks (coll s) ! j) = Some 0" by (rule d(1))
  have "t \<in> entered (pcs s)" using a by (auto simp: entered_def)
  then obtain h where "chub (coll s) = Some h"
    using col_reach_ids [OF reach] by (cases "chub (coll s)") (auto simp: ids_inv_def)
  then show "producer_turn pr ch t s = Some (Inl NegativeWaitGroup)"
    using a w count_task_zero [OF w] by (auto simp: producer_turn_def Let_def)
qed

text \<open>A collector whose first producer has subscribed, for use in examples.\<close>

definition example_hub :: "(int, nat) hub" where
  "example_hub = \<lparr>subscribers = [0 \<mapsto> [1]],
     subs = (\<lambda>_. \<lparr>queue = [], capacity = 0, receivers = 0, received = [], closed = False\<rparr>)
       (1 := \<lparr>queue = [], capacity = 16, receivers = 0, received = [], closed = False\<rparr>),
     internalSubscriberID = 1\<rparr>"

definition example_sys :: "(nat, nat, nat) sys" where
  "example_sys = \<lparr>coll = \<lparr>chub = Some example_hub, runOnce = True, cdone = Some False, clogger = 0, tasks = [], errors_logged = []\<rparr>,
     grun = (start_run collector_group)\<lparr>tpcs := (\<lambda>_. Starting)(0 := Running)\<rparr>,
     pcs = (\<lambda>_. Entering)(0 := Choosing 1), runner = InRun, ctxs = (\<lambda>_. None), crash = None\<rparr>"

lemma example_reach: "col_reach example_sys"
proof -
  define h0 :: "(int, nat) hub" where "h0 = \<lparr>subscribers = (\<lambda>_. None),
     subs = (\<lambda>_. \<lparr>queue = [], capacity = 0, receivers = 0, received = [], closed = False\<rparr>), internalSubscriberID = 0\<rparr>"
  define c1 :: "(nat, nat, nat) collector" where "c1 = (NewCollector None 0)\<lparr>runOnce := True, chub := Some h0\<rparr>"
  define s1 where "s1 = start_sys\<lparr>coll := c1, runner := Launched\<rparr>"
  define s2 where "s2 = s1\<lparr>coll := c1\<lparr>cdone := Some False\<rparr>, runner := InRun\<rparr>"
  define s3 where "s3 = s2\<lparr>grun := (grun s2)\<lparr>tpcs := (tpcs (grun s2))(0 := Running)\<rparr>\<rparr>"
  have "Start_collector 0 (coll start_sys) = (True, c1)"
    by (simp add: Start_collector_def start_sys_def NewCollector_def c1_def h0_def)
  from cs_start [OF _ this] have "col_step start_sys s1" by (simp add: s1_def start_sys_def)
  then have r1: "col_reach s1" by (rule col_goes [OF col_starts])
  have "col_step s1 s2" using cs_make [of s1] by (simp add: s1_def s2_def start_sys_def)
  then have r2: "col_reach s2" by (rule col_goes [OF r1])
  have "run_step collector_group (grun s2) ((grun s2)\<lparr>tpcs := (tpcs (grun s2))(0 := Running)\<rparr>)"
    by (rule task_start) (simp_all add: s2_def s1_def start_sys_def start_run_def)
  from cs_group [OF _ _ this] have "col_step s2 s3"
    by (simp add: s3_def s2_def s1_def start_sys_def start_run_def)
  then have r3: "col_reach s3" by (rule col_goes [OF r2])
  have "Subscribe defaultTopic defaultChannelQueue h0 = (1, example_hub)"
    by (simp add: Subscribe_def newChannelSubscriber_def h0_def example_hub_def defaultTopic_def defaultChannelQueue_def Let_def)
  then have "producer_turn example_probes OnTask 0 s3 = Some (Inr example_sys)"
    by (simp add: producer_turn_def s3_def s2_def s1_def c1_def start_sys_def goes_def example_sys_def NewCollector_def start_run_def)
  from cs_turn [OF _ _ _ _ this] have "col_step s3 example_sys"
    by (simp add: s3_def s2_def s1_def start_sys_def start_run_def)
  then show ?thesis by (rule col_goes [OF r3])
qed

lemma example_collect:
  obtains s :: "(nat, nat, nat) sys" where "col_reach s" and "pcs s 0 = Counting 1 0" and "length (tasks (coll s)) = 1"
proof -
  let ?ch = "\<lparr>queue = [], capacity = 16, receivers = 0, received = [], closed = False\<rparr> :: nat chan"
  let ?h = "example_hub\<lparr>subs := (subs example_hub)(1 := ?ch\<lparr>queue := [0]\<rparr>)\<rparr>"
  define c where "c = (coll example_sys)\<lparr>chub := Some ?h, tasks := [newCollectTask 0 7]\<rparr>"
  define s1 where "s1 = example_sys\<lparr>coll := c\<rparr>"
  define s2 where "s2 = goes 0 (Took 1 0) (set_chan 1 (?ch\<lparr>received := [0]\<rparr>) s1)"
  define s3 where "s3 = goes 0 (Counting 1 0) (set_task 0 (run_producer 0 example_probes (newCollectTask 0 7)) s2)"
  have ids: "topic_ids example_hub defaultTopic = [1]" by (simp add: topic_ids_def example_hub_def defaultTopic_def)
  have "Collect_publish [1] 0 7 (coll example_sys) = Inr (0, c)"
    by (simp add: Collect_publish_def Publish_def PublishN_def example_sys_def example_hub_def defaultTopic_def
        publish_def c_def Let_def fun_eq_iff)
  then have "col_step example_sys (settled (map_sum id snd (Inr (0 :: nat, c))) example_sys)"
    using ids by (intro cs_collect [where visit = "[1]" and ctx = 0 and now = 7 and h = example_hub]) (simp_all add: example_sys_def)
  then have "col_reach s1" using col_goes [OF example_reach] by (simp add: settled_def s1_def)
  moreover have "producer_turn example_probes OnTask 0 s1 = Some (Inr s2)"
    by (simp add: producer_turn_def s1_def s2_def c_def example_sys_def receive_def)
  then have "col_step s1 s2" by (rule cs_turn [rotated -1]) (simp_all add: s1_def example_sys_def)
  ultimately have r2: "col_reach s2" by (rule col_goes)
  have "producer_turn example_probes OnTask 0 s2 = Some (Inr s3)"
    by (simp add: producer_turn_def s1_def s2_def s3_def c_def example_sys_def set_chan_def goes_def contextlib_Done_def newCollectTask_def Let_def)
  then have "col_step s2 s3" by (rule cs_turn [rotated -1])
    (simp_all add: s2_def s1_def example_sys_def goes_def set_chan_def)
  then have "col_reach s3" by (rule col_goes [OF r2])
  moreover have "pcs s3 0 = Counting 1 0" "length (tasks (coll s3)) = 1"
    by (simp_all add: s3_def s2_def s1_def c_def goes_def set_task_def set_chan_def)
  ultimately show thesis by (rule that)
qed

theorem Collect_waits_for_nothing_witness:
  "\<exists>s :: (nat, nat, nat) sys. Collect_wait 0 (coll s) = Inr True
    \<and> producer_turn example_probes OnTask 0 s = Some (Inl NegativeWaitGroup)"
proof -
  obtain s :: "(nat, nat, nat) sys" where "col_reach s" "pcs s 0 = Counting 1 0" "length (tasks (coll s)) = 1"
    by (rule example_collect)
  then show ?thesis
    using Collect_waits_for_nothing [of s 0 0 1 0 example_probes OnTask] by (intro exI [of _ s]) simp
qed

text \<open>
  C33: once \<open>Close\<close> has closed the channel \<open>done\<close>, the goroutine of \<open>Start\<close> never ends: whatever its run
  returns, closing the channel again panics; and so does every further \<open>Close\<close>. All the while that goroutine
  only moves forward.
\<close>

theorem Close_ends_in_panic:
  assumes "col_reach s" and "Close_collector (coll s) = Inr c" and "cdone (coll s) \<noteq> None"
    and "col_step\<^sup>*\<^sup>* (s\<lparr>coll := c\<rparr>) s'"
  shows "runner s \<le> runner s' \<and> runner s' \<noteq> Ended \<and> (\<exists>p. after_run e (coll s') = Inl p) \<and> Close_collector (coll s') = Inl CloseOfClosed"
proof -
  have c: "c = (coll s)\<lparr>cdone := Some True\<rparr>" "cdone (coll s) \<noteq> Some True"
    using Close_collector_Inr [OF assms(2)] assms(3) by auto
  let ?P = "\<lambda>s'. goroutine_inv s' \<and> cdone (coll s') = Some True \<and> runner s' \<noteq> Ended \<and> runner s \<le> runner s'"
  have "?P (s\<lparr>coll := c\<rparr>)" using col_reach_goroutine [OF assms(1)] assms(3) c by (auto simp: goroutine_inv_def)
  with assms(4) have "?P s'"
  proof (induction rule: rtranclp_induct)
    case (step y z)
    then show ?case using closed_done_stays [of y z] col_step_goroutine [of y z] runner_advances [of y z] by fastforce
  qed
  then show ?thesis using after_run_closed [of "coll s'" e] by (simp add: Close_collector_def close_done_def)
qed

theorem Close_ends_in_panic_witness:
  "\<exists>c. Close_collector (coll example_sys) = Inr c \<and> Close_collector c = Inl CloseOfClosed"
proof -
  let ?c = "(coll example_sys)\<lparr>cdone := Some True\<rparr>"
  have c: "Close_collector (coll example_sys) = Inr ?c" "cdone (coll example_sys) \<noteq> None"
    by (simp_all add: Close_collector_def close_done_def example_sys_def)
  from Close_ends_in_panic [OF example_reach c rtranclp.rtrancl_refl, of None] c(1) show ?thesis by (intro exI [of _ ?c]) simp
qed

text \<open>
  C30: the tasks the collector's group runs are the producers, step for step: the state of the group
  is one its own step relation reaches, a task that has not started has not subscribed, and the
  task of a producer is over only when the producer has left, its channel closed; so when the group's
  \<open>Run\<close> has returned all five producers have left.
\<close>

theorem collector_refines_group:
  assumes "col_reach s" and "t < 5"
  shows "run_reach collector_group (grun s)
    \<and> (tpcs (grun s) t = Starting \<longrightarrow> pcs s t = Entering)
    \<and> (tpcs (grun s) t \<noteq> Starting \<and> tpcs (grun s) t \<noteq> Running \<or> (\<exists>err. main (grun s) = Returned err) \<longrightarrow>
        (\<exists>h i e. chub (coll s) = Some h \<and> pcs s t = Leaving i e \<and> closed (subs h i)))"
proof -
  note g = col_reach_group [OF assms(1), unfolded group_inv_def]
  have names: "length (names collector_group) = 5" by (simp add: collector_group_def addProducer_def Append_def FastFail_def newGroup_def)
  have "\<not> unfinished (tpcs (grun s) t)" if "main (grun s) = Returned err" for err
  proof -
    have "those unfinished collector_group (grun s) = {}"
      using run_reach_returned [OF conjunct1 [OF g] that] names by simp
    then show ?thesis using assms(2) names by (auto simp: those_def)
  qed
  then have over: "tpcs (grun s) t \<noteq> Starting \<and> tpcs (grun s) t \<noteq> Running" if "main (grun s) = Returned err" for err
    using that by (metis unfinished.simps(1,2))
  have "\<exists>h. chub (coll s) = Some h \<and> closed (subs h i)" if p: "pcs s t = Leaving i e" for i e
  proof -
    have "t \<in> entered (pcs s)" using p assms(2) by (auto simp: entered_def)
    then obtain h where h: "chub (coll s) = Some h"
      using col_reach_ids [OF assms(1)] by (cases "chub (coll s)") (auto simp: ids_inv_def)
    with ids_invD(3) [OF col_reach_ids [OF assms(1)] h assms(2) p] show ?thesis by blast
  qed
  then show ?thesis using g over by blast
qed

theorem collector_refines_group_witness:
  "run_reach collector_group (grun example_sys) \<and> pcs example_sys 1 = Entering"
proof -
  have "tpcs (grun example_sys) 1 = Starting" by (simp add: example_sys_def)
  with collector_refines_group [OF example_reach, of 1] show ?thesis by simp
qed

text \<open>
  C34: a producer that has left has closed its channel, but the hub still has it: every later
  \<open>Collect\<close> panics, in whatever order the subscribers are walked.
\<close>

theorem Collect_after_exit_panics:
  assumes reach: "col_reach s" and t: "t < 5" and p: "pcs s t = Leaving i e" and h: "chub (coll s) = Some h"
    and visit: "mset visit = mset (topic_ids h defaultTopic)"
  shows "Collect_publish visit ctx now (coll s) = Inl SendOnClosed"
proof -
  note ids = col_reach_ids [OF reach]
  note d = ids_invD [OF ids h]
  obtain n where n: "topic_ids h defaultTopic = map (\<lambda>j. n + of_nat (Suc j)) [0..<card (entered (pcs s))]"
    using d(1) by blast
  have c5: "card (entered (pcs s)) \<le> 5"
    using card_mono [of "{..<5 :: nat}" "entered (pcs s)"] by (auto simp: entered_def)
  have "j = k" if "j < card (entered (pcs s))" "k < card (entered (pcs s))"
      "n + of_nat (Suc j) = n + (of_nat (Suc k) :: 64 word)" for j k
    using small_ids [of j k] that c5 by simp
  then have "distinct (topic_ids h defaultTopic)" unfolding n by (auto simp: distinct_map inj_on_def)
  moreover have "length visit = card (entered (pcs s))" using mset_eq_length [OF visit] by (simp add: n)
  ultimately have "Publish visit defaultTopic (length (tasks (coll s))) h = Inl SendOnClosed"
    using c5 d(2) [OF t, of i] d(3) [OF t p] p visit by (intro Publish_closed [of h defaultTopic i]) simp_all
  then show ?thesis by (simp add: Collect_publish_def Let_def h)
qed

lemma example_exit:
  obtains s :: "(nat, nat, nat) sys" where "col_reach s" and "pcs s 0 = Leaving 1 (Some errCollectorCloseSuccess)"
    and "\<exists>h. chub (coll s) = Some h \<and> topic_ids h defaultTopic = [1]"
proof -
  let ?ch = "\<lparr>queue = [], capacity = 16, receivers = 0, received = [], closed = True\<rparr> :: nat chan"
  define s1 where "s1 = example_sys\<lparr>coll := (coll example_sys)\<lparr>cdone := Some True\<rparr>\<rparr>"
  define s2 where "s2 = goes 0 (Deferring 1 (Some errCollectorCloseSuccess)) s1"
  define s3 where "s3 = goes 0 (Leaving 1 (Some errCollectorCloseSuccess)) (set_chan 1 ?ch s2)"
  have "col_step example_sys s1"
    using cs_close [of example_sys] by (simp add: example_sys_def s1_def settled_def Close_collector_def close_done_def)
  then have r1: "col_reach s1" by (rule col_goes [OF example_reach])
  have "producer_turn example_probes OnDone 0 s1 = Some (Inr s2)"
    by (simp add: producer_turn_def s1_def s2_def example_sys_def)
  then have "col_step s1 s2" by (rule cs_turn [rotated -1]) (simp_all add: s1_def example_sys_def)
  then have r2: "col_reach s2" by (rule col_goes [OF r1])
  have "producer_turn example_probes OnDone 0 s2 = Some (Inr s3)"
    by (simp add: producer_turn_def s1_def s2_def s3_def example_sys_def goes_def Unsubscribe_channel_def example_hub_def)
  then have "col_step s2 s3" by (rule cs_turn [rotated -1]) (simp_all add: s2_def s1_def example_sys_def goes_def)
  then have "col_reach s3" by (rule col_goes [OF r2])
  moreover have "pcs s3 0 = Leaving 1 (Some errCollectorCloseSuccess)"
    "\<exists>h. chub (coll s3) = Some h \<and> topic_ids h defaultTopic = [1]"
    by (simp_all add: s3_def s2_def s1_def goes_def set_chan_def example_sys_def topic_ids_def example_hub_def defaultTopic_def)
  ultimately show thesis by (rule that)
qed

theorem Collect_after_exit_panics_witness:
  "\<exists>s :: (nat, nat, nat) sys. col_reach s \<and> Collect_publish [1] 0 7 (coll s) = Inl SendOnClosed"
proof -
  obtain s h where s: "col_reach (s :: (nat, nat, nat) sys)" "pcs s 0 = Leaving 1 (Some errCollectorCloseSuccess)"
    and h: "chub (coll s) = Some h" "topic_ids h defaultTopic = [1]" by (rule example_exit) blast
  have "mset [1] = mset (topic_ids h defaultTopic)" by (simp add: h)
  from Collect_after_exit_panics [OF s(1) _ s(2) h(1) this] s(1) show ?thesis by (intro exI [of _ s]) simp
qed

end
