(* ===== verification/ConsoleShared.thy ===== *)
theory ConsoleShared
  imports ConsoleWrite
begin

text \<open>
  Goroutines that log to one console handler at the same time. Each formats its record into a buffer of
  its own and then calls \<open>Write\<close> of the \<open>SafeWriter\<close> they share: a step relation over the mutex and the
  writer beneath it, which takes the bytes one by one and may fail at any of them, so that nothing but the mutex keeps two
  calls of \<open>Write\<close> apart.
\<close>

subsection \<open>The calls of one record\<close>

text \<open>A writer that keeps every call: what \<open>Handle\<close> hands to it, call by call (a failing writer gets
  the same one call of a short line: \<open>Handle_short\<close>).\<close>

definition recording_Write :: "byte list list write_fn" where
  "recording_Write calls p = Inr (int (length p), None, calls @ [p])"

interpretation recording: io_full_writer recording_Write "\<lambda>_. True" concat
  by unfold_locales (auto simp: recording_Write_def)

definition record_writes :: "'t log_env \<Rightarrow> 't ConsoleHandler \<Rightarrow> 't Record \<Rightarrow> byte list list" where
  "record_writes env h r =
     (case Handle env recording_Write 0 h r [] newDefaultAllocator of
        Some (Inr (err, logs, calls, al)) \<Rightarrow> calls
      | _ \<Rightarrow> [])"

lemma record_writes_short:
  assumes "length (format_line env h r) \<le> 16384"
  shows "record_writes env h r = [bytes (format_line env h r)]"
proof -
  have "recording_Write [] (bytes (format_line env h r)) = Inr (int (length (bytes (format_line env h r))), None, [bytes (format_line env h r)])"
    by (simp add: recording_Write_def)
  from recording.Handle_short [OF alloc_wf_heap [OF alloc_wf_new] TrueI assms this, of 0] show ?thesis
    by (auto simp: record_writes_def)
qed

subsection \<open>SafeWriter under concurrent calls\<close>

text \<open>
  A goroutine is outside \<open>Write\<close>, with the calls it has still to make, or inside a call, of which the writer
  beneath has taken so many bytes. \<open>guarded\<close> says whether there is a mutex, that is whether
  \<open>NewSafeWriter\<close> did not take the writer as it is; \<open>owner\<close> is the holder of the mutex, \<open>emitted\<close> what the
  writer beneath has got. \<open>entries\<close> is not in the code: the calls that are over, in their order, each
  with the number of bytes the writer took of it.
\<close>

datatype wpc = Outside "byte list list" | Inside "byte list" nat "byte list list"

record shared_writer =
  wpcs :: "nat \<Rightarrow> wpc"
  guarded :: bool
  owner :: "nat option"
  emitted :: "byte list"
  entries :: "(nat \<times> byte list \<times> nat) list"

definition start_writers :: "'w safe_writer \<Rightarrow> (nat \<Rightarrow> byte list list) \<Rightarrow> shared_writer" where
  "start_writers sw calls =
     \<lparr>wpcs = (\<lambda>t. Outside (calls t)), guarded = (case sw of AsItIs w \<Rightarrow> False | Guarded g \<Rightarrow> True), owner = None,
      emitted = [], entries = []\<rparr>"

text \<open>
  The next move of goroutine \<open>t\<close>: \<open>w.Lock()\<close>, which has to wait while somebody holds the mutex; a byte taken by the
  writer beneath; its return, be it with all bytes taken or, when \<open>stops\<close>, with fewer and an error, and with it
  the deferred \<open>w.Unlock()\<close>. \<open>None\<close>: it cannot move.
\<close>

definition writer_turn :: "bool \<Rightarrow> nat \<Rightarrow> shared_writer \<Rightarrow> shared_writer option" where
  "writer_turn stops t s = (case wpcs s t of
      Outside [] \<Rightarrow> None
    | Outside (p # ps) \<Rightarrow> if guarded s \<and> owner s \<noteq> None then None
        else Some (s\<lparr>wpcs := (wpcs s)(t := Inside p 0 ps), owner := if guarded s then Some t else None\<rparr>)
    | Inside p k ps \<Rightarrow> if k < length p \<and> \<not> stops
        then Some (s\<lparr>wpcs := (wpcs s)(t := Inside p (Suc k) ps), emitted := emitted s @ [p ! k]\<rparr>)
        else Some (s\<lparr>wpcs := (wpcs s)(t := Outside ps), owner := None, entries := entries s @ [(t, p, k)]\<rparr>))"

text \<open>\<open>fails\<close> says whether the writer beneath ever returns before it has taken everything.\<close>

inductive writer_reach :: "bool \<Rightarrow> 'w safe_writer \<Rightarrow> (nat \<Rightarrow> byte list list) \<Rightarrow> shared_writer \<Rightarrow> bool" for fails sw calls where
  writers_start: "writer_reach fails sw calls (start_writers sw calls)"
| writers_go: "writer_reach fails sw calls s \<Longrightarrow> (stops \<Longrightarrow> fails) \<Longrightarrow> writer_turn stops t s = Some s' \<Longrightarrow>
    writer_reach fails sw calls s'"

lemma writer_turn_cases [consumes 1, case_names lock byte unlock]:
  assumes "writer_turn stops t s = Some s'"
  obtains p ps where "wpcs s t = Outside (p # ps)" "guarded s \<longrightarrow> owner s = None"
      "s' = s\<lparr>wpcs := (wpcs s)(t := Inside p 0 ps), owner := if guarded s then Some t else None\<rparr>"
  | p k ps where "wpcs s t = Inside p k ps" "k < length p"
      "s' = s\<lparr>wpcs := (wpcs s)(t := Inside p (Suc k) ps), emitted := emitted s @ [p ! k]\<rparr>"
  | p k ps where "wpcs s t = Inside p k ps" "stops \<or> length p \<le> k"
      "s' = s\<lparr>wpcs := (wpcs s)(t := Outside ps), owner := None, entries := entries s @ [(t, p, k)]\<rparr>"
  using assms by (auto simp: writer_turn_def split: wpc.splits list.splits if_splits)

text \<open>The calls a goroutine has still to make or to end, and the bytes taken of the one it is in.\<close>

fun calls_left :: "wpc \<Rightarrow> byte list list" where
  "calls_left (Outside ps) = ps"
| "calls_left (Inside p k ps) = p # ps"

fun taken_now :: "wpc \<Rightarrow> byte list" where
  "taken_now (Outside ps) = []"
| "taken_now (Inside p k ps) = take k p"

definition calls_of :: "nat \<Rightarrow> (nat \<times> byte list \<times> nat) list \<Rightarrow> byte list list" where
  "calls_of t es = map (fst \<circ> snd) (filter (\<lambda>e. fst e = t) es)"

definition writer_inv :: "bool \<Rightarrow> (nat \<Rightarrow> byte list list) \<Rightarrow> shared_writer \<Rightarrow> bool" where
  "writer_inv fails calls s \<longleftrightarrow> guarded s \<and> (\<forall>t. calls t = calls_of t (entries s) @ calls_left (wpcs s t))
     \<and> (\<forall>t. (\<exists>p k ps. wpcs s t = Inside p k ps) \<longleftrightarrow> owner s = Some t)
     \<and> (\<forall>t p k ps. wpcs s t = Inside p k ps \<longrightarrow> k \<le> length p)
     \<and> (\<forall>(t, p, k)\<in>set (entries s). k \<le> length p \<and> (\<not> fails \<longrightarrow> k = length p))
     \<and> emitted s = concat (map (\<lambda>(t, p, k). take k p) (entries s))
         @ (case owner s of None \<Rightarrow> [] | Some t \<Rightarrow> taken_now (wpcs s t))"

lemma writer_turn_inv [step_inv]:
  assumes "writer_turn stops t s = Some s'" and inv: "writer_inv fails calls s" and stops: "stops \<Longrightarrow> fails"
  shows "writer_inv fails calls s'"
  using assms(1)
proof (cases rule: writer_turn_cases)
  case lock
  then show ?thesis using inv by (auto simp: writer_inv_def)
next
  case byte
  then have "owner s = Some t" using inv unfolding writer_inv_def by blast
  then show ?thesis using byte inv by (auto simp: writer_inv_def take_Suc_conv_app_nth)
next
  case (unlock p k ps)
  have o: "owner s = Some t" using inv unlock(1) unfolding writer_inv_def by blast
  have alone: "u = t" if "wpcs s u = Inside q j qs" for u q j qs
    using inv o that unfolding writer_inv_def by (metis option.inject)
  have "k \<le> length p" using inv unlock(1) unfolding writer_inv_def by blast
  then have "k \<le> length p \<and> (\<not> fails \<longrightarrow> k = length p)" using unlock(2) stops by auto
  with o unlock inv show ?thesis by (auto simp: writer_inv_def calls_of_def dest: alone)
qed

lemma writer_reach_inv: "writer_reach fails (Guarded g) calls s \<Longrightarrow> writer_inv fails calls s"
proof (induction rule: writer_reach.induct)
  case writers_start
  show ?case by (simp add: writer_inv_def start_writers_def calls_of_def)
next
  case (writers_go s stops t s')
  then show ?case by (blast intro: step_inv)
qed

text \<open>When everybody makes at most one call, the order of the calls is an order of the goroutines.\<close>

lemma distinct_of_filters:
  "(\<And>t. length (filter (\<lambda>e. fst e = t) es) \<le> 1) \<Longrightarrow> distinct (map fst es)"
proof (induction es)
  case (Cons e es)
  have "filter (\<lambda>x. fst x = fst e) es = []" using Cons.prems [of "fst e"] by simp
  then have "fst e \<notin> set (map fst es)" by (force simp: filter_empty_conv)
  moreover have "length (filter (\<lambda>x. fst x = t) es) \<le> 1" for t
    using Cons.prems [of t] by (cases "fst e = t") simp_all
  ultimately show ?case using Cons.IH by simp
qed simp

lemma single_calls:
  assumes inv: "writer_inv fails calls s" and one: "\<And>t. calls t = (if t < n then [line t] else [])"
  shows "distinct (map fst (entries s))" and "\<And>t p k. (t, p, k) \<in> set (entries s) \<Longrightarrow> t < n \<and> p = line t"
    and "\<And>t. t < n \<Longrightarrow> calls_left (wpcs s t) = [] \<Longrightarrow> t \<in> set (map fst (entries s))"
    and "\<And>t p k ps. wpcs s t = Inside p k ps \<Longrightarrow> t < n \<and> p = line t \<and> t \<notin> set (map fst (entries s))"
proof -
  have calls: "calls_of t (entries s) @ calls_left (wpcs s t) = (if t < n then [line t] else [])" for t
    using inv one [of t] by (simp add: writer_inv_def)
  have "length (calls_of t (entries s)) \<le> 1" for t
    using arg_cong [OF calls [of t], of length] by (auto split: if_splits)
  then show "distinct (map fst (entries s))" by (intro distinct_of_filters) (simp add: calls_of_def)
  have mem: "p \<in> set (calls_of t (entries s))" if "(t, p, k) \<in> set (entries s)" for t p k
    using that by (force simp: calls_of_def)
  show "t < n \<and> p = line t" if "(t, p, k) \<in> set (entries s)" for t p k
  proof -
    have "p \<in> set (calls_of t (entries s) @ calls_left (wpcs s t))" using mem [OF that] by simp
    then show ?thesis unfolding calls by (auto split: if_splits)
  qed
  show "t \<in> set (map fst (entries s))" if "t < n" "calls_left (wpcs s t) = []" for t
  proof -
    have "calls_of t (entries s) \<noteq> []" using calls [of t] that by simp
    then show ?thesis by (auto simp: calls_of_def filter_empty_conv)
  qed
  show "t < n \<and> p = line t \<and> t \<notin> set (map fst (entries s))" if "wpcs s t = Inside p k ps" for t p k ps
  proof -
    have "calls_of t (entries s) = [] \<and> t < n \<and> p = line t"
      using calls [of t] that by (cases "calls_of t (entries s)") (auto split: if_splits)
    then show ?thesis by (auto simp: calls_of_def filter_empty_conv)
  qed
qed

text \<open>Nobody is locked out for ever: while anybody is not through, somebody can move, and every move uses up some
  of the work there is.\<close>

lemma writer_progress:
  assumes "writer_inv fails calls s" and "wpcs s t \<noteq> Outside []"
  shows "\<exists>t s'. writer_turn False t s = Some s'"
proof (cases "owner s")
  case None
  then have "\<exists>ps. wpcs s t = Outside ps" using assms(1) by (cases "wpcs s t") (auto simp: writer_inv_def)
  then obtain p ps where "wpcs s t = Outside (p # ps)" using assms(2) by (metis neq_Nil_conv)
  with None show ?thesis by (intro exI [of _ t]) (simp add: writer_turn_def)
next
  case (Some u)
  then obtain p k ps where "wpcs s u = Inside p k ps" using assms(1) unfolding writer_inv_def by metis
  then show ?thesis by (intro exI [of _ u]) (simp add: writer_turn_def)
qed

fun work_left :: "wpc \<Rightarrow> nat" where
  "work_left (Outside ps) = (\<Sum>p\<leftarrow>ps. length p + 2)"
| "work_left (Inside p k ps) = Suc (length p - k) + (\<Sum>p\<leftarrow>ps. length p + 2)"

lemma writer_turn_work:
  assumes "writer_turn stops t s = Some s'"
  shows "work_left (wpcs s' t) < work_left (wpcs s t) \<and> (\<forall>u. u \<noteq> t \<longrightarrow> wpcs s' u = wpcs s u)"
  using assms by (cases rule: writer_turn_cases) auto

lemma writer_turn_total:
  assumes "writer_turn stops t s = Some s'" and "t < n"
  shows "(\<Sum>u<n. work_left (wpcs s' u)) < (\<Sum>u<n. work_left (wpcs s u))"
proof (rule sum_strict_mono_ex1)
  show "\<forall>u\<in>{..<n}. work_left (wpcs s' u) \<le> work_left (wpcs s u)"
    using writer_turn_work [OF assms(1)] by (metis less_imp_le order_refl)
  show "\<exists>u\<in>{..<n}. work_left (wpcs s' u) < work_left (wpcs s u)"
    using writer_turn_work [OF assms(1)] assms(2) by blast
qed simp

text \<open>Those who have nothing to do cannot move.\<close>

lemma idle_writer:
  assumes "writer_reach fails sw calls s" and "calls t = []"
  shows "wpcs s t = Outside []"
  using assms
proof (induction rule: writer_reach.induct)
  case writers_start
  then show ?case by (simp add: start_writers_def)
next
  case (writers_go s stops u s')
  then show ?case using writer_turn_work [OF writers_go.hyps(3)] by (cases "u = t") (auto simp: writer_turn_def)
qed

lemma writer_invD:
  assumes "writer_inv fails calls s"
  shows "emitted s = concat (map (\<lambda>(t, p, k). take k p) (entries s))
      @ (case owner s of None \<Rightarrow> [] | Some t \<Rightarrow> taken_now (wpcs s t))"
    and "owner s = Some u \<Longrightarrow> \<exists>p k ps. wpcs s u = Inside p k ps"
proof -
  note conj = assms [unfolded writer_inv_def]
  show "emitted s = concat (map (\<lambda>(t, p, k). take k p) (entries s))
      @ (case owner s of None \<Rightarrow> [] | Some t \<Rightarrow> taken_now (wpcs s t))" using conj by (elim conjE)
  have "\<forall>t. (\<exists>p k ps. wpcs s t = Inside p k ps) \<longleftrightarrow> owner s = Some t" using conj by (elim conjE)
  then show "owner s = Some u \<Longrightarrow> \<exists>p k ps. wpcs s u = Inside p k ps" by simp
qed

lemma lines_apart:
  assumes inv: "writer_inv fails calls s" and one: "\<And>t. calls t = (if t < n then [line t] else [])"
  shows "\<exists>results. distinct (map fst results) \<and> set (map fst results) \<subseteq> {..<n}
    \<and> (\<forall>(t, k)\<in>set results. k \<le> length (line t) \<and> (\<not> fails \<longrightarrow> k = length (line t)))
    \<and> (owner s = None \<longrightarrow> emitted s = concat (map (\<lambda>(t, k). take k (line t)) results))
    \<and> (\<forall>u. owner s = Some u \<longrightarrow> u < n \<and> u \<notin> set (map fst results)
        \<and> (\<exists>k. emitted s = concat (map (\<lambda>(t, k). take k (line t)) results) @ take k (line u)))
    \<and> ((\<forall>t<n. calls_left (wpcs s t) = []) \<longrightarrow> set (map fst results) = {..<n})"
proof -
  note e = single_calls [OF inv, of n line, OF one]
  let ?res = "map (\<lambda>(t, p, k). (t, k)) (entries s)"
  have names: "map fst ?res = map fst (entries s)" by (simp add: comp_def split_def)
  have sub: "set (map fst ?res) \<subseteq> {..<n}" unfolding names using e(2) by auto
  have got: "concat (map (\<lambda>(t, p, k). take k p) (entries s)) = concat (map (\<lambda>(t, k). take k (line t)) ?res)"
    using e(2) by (auto intro!: arg_cong [of _ _ concat])
  have counts: "\<forall>(t, k)\<in>set ?res. k \<le> length (line t) \<and> (\<not> fails \<longrightarrow> k = length (line t))"
  proof (rule ballI, unfold split_paired_all, simp only: prod.case)
    fix t k assume "(t, k) \<in> set ?res"
    then obtain p where p: "(t, p, k) \<in> set (entries s)" by auto
    then have "k \<le> length p \<and> (\<not> fails \<longrightarrow> k = length p)" using inv unfolding writer_inv_def by blast
    with e(2) [OF p] show "k \<le> length (line t) \<and> (\<not> fails \<longrightarrow> k = length (line t))" by simp
  qed
  have out: "emitted s = concat (map (\<lambda>(t, k). take k (line t)) ?res)
      @ (case owner s of None \<Rightarrow> [] | Some t \<Rightarrow> taken_now (wpcs s t))"
    unfolding got [symmetric] by (rule writer_invD(1) [OF inv])
  have inside: "u < n \<and> u \<notin> set (map fst ?res) \<and> (\<exists>k. taken_now (wpcs s u) = take k (line u))" if o: "owner s = Some u" for u
  proof -
    obtain p k ps where u: "wpcs s u = Inside p k ps" using writer_invD(2) [OF inv o] by blast
    then show ?thesis using e(4) [OF u] unfolding names by auto
  qed
  have "set (map fst ?res) = {..<n}" if "\<forall>t<n. calls_left (wpcs s t) = []"
    using sub e(3) that unfolding names by blast
  moreover have "emitted s = concat (map (\<lambda>(t, k). take k (line t)) ?res)" if "owner s = None"
    using out that by simp
  moreover have "u < n \<and> u \<notin> set (map fst ?res)
      \<and> (\<exists>k. emitted s = concat (map (\<lambda>(t, k). take k (line t)) ?res) @ take k (line u))" if o: "owner s = Some u" for u
    using inside [OF o] out [unfolded o option.case] by (elim conjE exE) (intro conjI exI, assumption+, simp only:)
  moreover have "distinct (map fst ?res)" unfolding names by (rule e(1))
  ultimately show ?thesis using sub counts by (intro exI [of _ ?res] conjI allI impI) blast+
qed

subsection \<open>Properties\<close>

text \<open>
  C9: \<open>n\<close> goroutines log one record each to the same handler, at the same time; every line fits the
  handler's buffer, and the writer beneath, which does not call itself thread safe and so is behind a
  mutex, takes bytes one by one and may return early with an error (\<open>fails\<close>). Whenever nobody is inside
  it, what it has got are the lines of different records one after the other, in the order in which they
  got the mutex, each as far as its own call was taken: whole, if the writer never fails. While
  somebody is inside, a part of that goroutine's own line comes last and nothing of any other. When all are
  through every record has had its call. Nobody is locked out: as long as one of them is not through,
  somebody can go on, and every step lowers the work that is left.
\<close>

theorem concurrent_lines_whole:
  assumes "\<And>t. t < n \<Longrightarrow> length (format_line env (h t) (r t)) \<le> 16384" and "\<not> ThreadSafe w"
    and "writer_reach fails (NewSafeWriter ThreadSafe w) (\<lambda>t. if t < n then record_writes env (h t) (r t) else []) s"
    and "line = (\<lambda>t. bytes (format_line env (h t) (r t)))"
  shows "(\<exists>results. distinct (map fst results) \<and> set (map fst results) \<subseteq> {..<n}
      \<and> (\<forall>(t, k)\<in>set results. k \<le> length (line t) \<and> (\<not> fails \<longrightarrow> k = length (line t)))
      \<and> (owner s = None \<longrightarrow> emitted s = concat (map (\<lambda>(t, k). take k (line t)) results))
      \<and> (\<forall>u. owner s = Some u \<longrightarrow> u < n \<and> u \<notin> set (map fst results)
          \<and> (\<exists>k. emitted s = concat (map (\<lambda>(t, k). take k (line t)) results) @ take k (line u)))
      \<and> ((\<forall>t<n. calls_left (wpcs s t) = []) \<longrightarrow> set (map fst results) = {..<n}))
    \<and> ((\<exists>t. wpcs s t \<noteq> Outside []) \<longrightarrow> (\<exists>t s'. writer_turn False t s = Some s'))
    \<and> (\<forall>stops t s'. writer_turn stops t s = Some s' \<longrightarrow> (\<Sum>u<n. work_left (wpcs s' u)) < (\<Sum>u<n. work_left (wpcs s u)))"
proof (intro conjI)
  have "writer_reach fails (Guarded \<lparr>sw_writer = w, sw_locked = False\<rparr>) (\<lambda>t. if t < n then record_writes env (h t) (r t) else []) s"
    using assms(2,3) by (simp add: NewSafeWriter_def)
  note inv = writer_reach_inv [OF this]
  show "\<exists>results. distinct (map fst results) \<and> set (map fst results) \<subseteq> {..<n}
      \<and> (\<forall>(t, k)\<in>set results. k \<le> length (line t) \<and> (\<not> fails \<longrightarrow> k = length (line t)))
      \<and> (owner s = None \<longrightarrow> emitted s = concat (map (\<lambda>(t, k). take k (line t)) results))
      \<and> (\<forall>u. owner s = Some u \<longrightarrow> u < n \<and> u \<notin> set (map fst results)
          \<and> (\<exists>k. emitted s = concat (map (\<lambda>(t, k). take k (line t)) results) @ take k (line u)))
      \<and> ((\<forall>t<n. calls_left (wpcs s t) = []) \<longrightarrow> set (map fst results) = {..<n})"
    using assms(1) by (intro lines_apart [OF inv]) (simp add: record_writes_short assms(4))
  show "(\<exists>t. wpcs s t \<noteq> Outside []) \<longrightarrow> (\<exists>t s'. writer_turn False t s = Some s')"
    using writer_progress [OF inv] by blast
  have "t < n" if "writer_turn stops t s = Some s'" for stops t s'
    using idle_writer [OF assms(3), of t] that by (cases "t < n") (auto simp: writer_turn_def)
  then show "\<forall>stops t s'. writer_turn stops t s = Some s' \<longrightarrow> (\<Sum>u<n. work_left (wpcs s' u)) < (\<Sum>u<n. work_left (wpcs s u))"
    using writer_turn_total by blast
qed

theorem concurrent_lines_whole_witness:
  "\<exists>s. writer_reach True (NewSafeWriter (\<lambda>_. False) ()) (\<lambda>t. if t < 2 then record_writes example_env example_handler example_record else []) s
    \<and> owner s = Some 1 \<and> length (emitted s) = 1
    \<and> (\<exists>results k. 1 \<notin> set (map fst results) \<and> emitted s = concat (map (\<lambda>(t :: nat, k).
        take k (bytes (format_line example_env example_handler example_record))) results)
        @ take k (bytes (format_line example_env example_handler example_record)))"
proof -
  let ?L = "bytes (format_line example_env example_handler example_record)"
  let ?calls = "\<lambda>t :: nat. if t < 2 then record_writes example_env example_handler example_record else []"
  let ?sw = "NewSafeWriter (\<lambda>_. False) ()"
  have short: "length (format_line example_env example_handler example_record) \<le> 16384" by (simp add: example_line)
  note w = record_writes_short [OF short]
  have ne: "0 < length ?L" by (simp add: example_line)
  define s1 where "s1 = (start_writers ?sw ?calls)\<lparr>wpcs := (\<lambda>t. Outside (?calls t))(1 := Inside ?L 0 []), owner := Some 1\<rparr>"
  define s2 where "s2 = s1\<lparr>wpcs := (wpcs s1)(1 := Inside ?L 1 []), emitted := [?L ! 0]\<rparr>"
  have "writer_turn False 1 (start_writers ?sw ?calls) = Some s1"
    by (simp add: writer_turn_def s1_def start_writers_def NewSafeWriter_def w)
  moreover have "writer_turn False 1 s1 = Some s2"
    using ne by (simp add: writer_turn_def s1_def s2_def start_writers_def NewSafeWriter_def del: length_greater_0_conv)
  ultimately have reach: "writer_reach True ?sw ?calls s2" by (blast intro: writers_start writers_go)
  have s2: "owner s2 = Some 1" "emitted s2 = [?L ! 0]" by (simp_all add: s2_def s1_def)
  from concurrent_lines_whole [where n = 2 and h = "\<lambda>_. example_handler" and r = "\<lambda>_. example_record", OF short _ reach refl] s2
  have "\<exists>results k. 1 \<notin> set (map fst results) \<and> emitted s2 = concat (map (\<lambda>(t :: nat, k). take k ?L) results) @ take k ?L" by blast
  with reach s2 show ?thesis by (intro exI [of _ s2]) simp
qed

end
