(* ===== verification/HubOrder.thy ===== *)
theory HubOrder
  imports SubHub "HOL-Library.Sublist"
begin

text \<open>
  The hub over time: runs of subscriptions, publications and receives in any order, and what a
  subscriber is delivered in them. A locale states what it is for a log to grow by a part of what each
  event offers; the channel of a subscriber is interpreted as one.
\<close>

subsection \<open>Runs and logs\<close>

inductive runs :: "('s \<Rightarrow> 'e \<Rightarrow> 's \<Rightarrow> bool) \<Rightarrow> 's \<Rightarrow> 'e list \<Rightarrow> 's \<Rightarrow> bool" for step where
  runs_none: "runs step s [] s"
| runs_more: "step s e s' \<Longrightarrow> runs step s' es s'' \<Longrightarrow> runs step s (e # es) s''"

inductive_simps runs_Nil [simp]: "runs step s [] s'"
inductive_simps runs_Cons [simp]: "runs step s (e # es) s'"

locale append_log =
  fixes step :: "'s \<Rightarrow> 'e \<Rightarrow> 's \<Rightarrow> bool" and inv :: "'s \<Rightarrow> bool"
    and log :: "'s \<Rightarrow> 'v list" and offer :: "'e \<Rightarrow> 'v list"
  assumes step_keeps: "inv s \<Longrightarrow> step s e s' \<Longrightarrow> inv s'"
    and step_appends: "inv s \<Longrightarrow> step s e s' \<Longrightarrow> \<exists>ys. log s' = log s @ ys \<and> subseq ys (offer e)"
begin

lemma run_appends:
  "runs step s es s' \<Longrightarrow> inv s \<Longrightarrow> inv s' \<and> (\<exists>ys. log s' = log s @ ys \<and> subseq ys (concat (map offer es)))"
proof (induction rule: runs.induct)
  case (runs_none s)
  then show ?case by simp
next
  case (runs_more s e s' es s'')
  obtain ys where "log s' = log s @ ys" "subseq ys (offer e)"
    using step_appends runs_more.hyps(1) runs_more.prems by blast
  moreover obtain zs where "inv s''" "log s'' = log s' @ zs" "subseq zs (concat (map offer es))"
    using runs_more step_keeps by blast
  ultimately show ?case by (auto intro: list_emb_append_mono)
qed

end

text \<open>A log that misses nothing while it is attached and has room, under the events that are \<open>good\<close> for it.\<close>

locale roomy_log = append_log +
  fixes attached :: "'a \<Rightarrow> bool" and good :: "'b \<Rightarrow> bool" and room :: nat
  assumes stays: "inv s \<Longrightarrow> attached s \<Longrightarrow> good e \<Longrightarrow> step s e s' \<Longrightarrow> attached s'"
    and takes: "inv s \<Longrightarrow> attached s \<Longrightarrow> good e \<Longrightarrow> step s e s' \<Longrightarrow> length (log s) + length (offer e) \<le> room \<Longrightarrow>
      log s' = log s @ offer e"
begin

lemma run_takes_all:
  "runs step s es s' \<Longrightarrow> inv s \<Longrightarrow> attached s \<Longrightarrow> \<forall>e\<in>set es. good e \<Longrightarrow>
    length (log s) + length (concat (map offer es)) \<le> room \<Longrightarrow> log s' = log s @ concat (map offer es)"
proof (induction rule: runs.induct)
  case (runs_none s)
  then show ?case by simp
next
  case (runs_more s e s' es s'')
  have "log s' = log s @ offer e" using takes [OF _ _ _ runs_more.hyps(1)] runs_more.prems by simp
  moreover have "inv s'" "attached s'" using step_keeps [OF _ runs_more.hyps(1)] stays [OF _ _ _ runs_more.hyps(1)] runs_more.prems by simp_all
  ultimately show ?case using runs_more.IH runs_more.prems by simp
qed

end

subsection \<open>Events of the hub\<close>

text \<open>
  The operations of the hub and of its channels. \<open>Waited i\<close> is a goroutine that blocks in a receive on the
  channel of subscriber \<open>i\<close>, \<open>GaveUp i\<close> one whose select fires another case, \<open>Took\<close> a receive that finds a
  value, and \<open>Quit i\<close> the subscriber's own \<open>Unsubscribe\<close>, which closes its channel and leaves it where it is. A
  publication that panics ends a run, as it ends the program: there is no event for it.
\<close>

datatype ('t, 'v) hub_event =
    Subscribed 't int
  | Unsubscribed 't "64 word list"
  | Published 't 'v int
  | Received "64 word"
  | Waited "64 word"
  | GaveUp "64 word"
  | Quit "64 word"

abbreviation put_chan :: "64 word \<Rightarrow> 'v chan \<Rightarrow> ('t, 'v) hub \<Rightarrow> ('t, 'v) hub" where
  "put_chan i c h \<equiv> h\<lparr>subs := (subs h)(i := c)\<rparr>"

inductive hub_step :: "('t, 'v) hub \<Rightarrow> ('t, 'v) hub_event \<Rightarrow> ('t, 'v) hub \<Rightarrow> bool" where
  hs_subscribe: "Subscribe topic q h = (i, h') \<Longrightarrow> internalSubscriberID h \<noteq> - 1 \<Longrightarrow>
    hub_step h (Subscribed topic q) h'"
| hs_unsubscribe: "hub_step h (Unsubscribed topic ss) (Unsubscribe topic ss h)"
| hs_publish: "mset visit = mset (topic_ids h topic) \<Longrightarrow> int (length visit) \<le> max_int \<Longrightarrow>
    PublishN visit topic v n h = Inr (k, h') \<Longrightarrow> hub_step h (Published topic v n) h'"
| hs_receive: "receive (subs h i) = Some (x, c) \<Longrightarrow> hub_step h (Received i) (put_chan i c h)"
| hs_wait: "receive (subs h i) = None \<Longrightarrow>
    hub_step h (Waited i) (put_chan i ((subs h i)\<lparr>receivers := receivers (subs h i) + 1\<rparr>) h)"
| hs_give_up: "receivers (subs h i) > 0 \<Longrightarrow>
    hub_step h (GaveUp i) (put_chan i ((subs h i)\<lparr>receivers := receivers (subs h i) - 1\<rparr>) h)"
| hs_end: "Unsubscribe_channel (subs h i) = Inr c \<Longrightarrow> hub_step h (Quit i) (put_chan i c h)"

definition offered :: "'t \<Rightarrow> ('t, 'v) hub_event \<Rightarrow> 'v list" where
  "offered topic e = (case e of Published t v n \<Rightarrow> if t = topic \<and> n \<noteq> 0 then [v] else [] | _ \<Rightarrow> [])"

text \<open>What was published on a topic, in order.\<close>

definition published :: "'t \<Rightarrow> ('t, 'v) hub_event list \<Rightarrow> 'v list" where
  "published topic es = concat (map (offered topic) es)"

text \<open>What holds of the hub though subscribers close their channels.\<close>

definition hub_wf :: "('t, 'v) hub \<Rightarrow> bool" where
  "hub_wf h \<longleftrightarrow> (\<forall>topic. distinct (topic_ids h topic) \<and> (\<forall>i\<in>set (topic_ids h topic). chan_ok (subs h i)))"

lemma hub_ok_wf: "hub_ok h \<Longrightarrow> hub_wf h"
  by (simp add: hub_ok_def hub_wf_def)

text \<open>Subscriber \<open>i\<close> of a topic, with a channel of capacity \<open>q\<close>.\<close>

definition sub_inv :: "64 word \<Rightarrow> 't \<Rightarrow> nat \<Rightarrow> ('t, 'v) hub \<Rightarrow> bool" where
  "sub_inv i topic q h \<longleftrightarrow> hub_wf h \<and> (\<forall>t. \<forall>j\<in>set (topic_ids h t). j \<le> internalSubscriberID h)
     \<and> i \<le> internalSubscriberID h \<and> (\<forall>t. t \<noteq> topic \<longrightarrow> i \<notin> set (topic_ids h t)) \<and> capacity (subs h i) = q"

lemma receive_mailbox: "receive c = Some (x, c') \<Longrightarrow> mailbox c' = mailbox c \<and> capacity c' = capacity c
    \<and> receivers c' = receivers c \<and> closed c' = closed c \<and> (chan_ok c \<longrightarrow> chan_ok c')"
  by (auto simp: receive_def mailbox_def chan_ok_def split: list.splits if_splits)

lemma waiting_ok: "receive c = None \<Longrightarrow> chan_ok c \<Longrightarrow> chan_ok (c\<lparr>receivers := receivers c + 1\<rparr>)"
  by (auto simp: receive_def chan_ok_def split: list.splits)

lemma topic_ids_put [simp]: "topic_ids (put_chan i c h) = topic_ids h"
  by (simp add: topic_ids_def fun_eq_iff)

lemma sub_inv_put:
  assumes "sub_inv i topic q h" and "chan_ok (subs h j) \<Longrightarrow> chan_ok c"
    and "capacity c = capacity (subs h j)"
  shows "sub_inv i topic q (put_chan j c h)"
  using assms unfolding sub_inv_def hub_wf_def by auto

text \<open>A publication, on the subscriber's topic or another.\<close>

lemma publish_step:
  assumes inv: "sub_inv i topic q h" and pub: "PublishN visit t v n h = Inr (k, h')"
    and visit: "mset visit = mset (topic_ids h t)" "int (length visit) \<le> max_int"
  shows "sub_inv i topic q h' \<and> topic_ids h' = topic_ids h
    \<and> (\<exists>ys. mailbox (subs h' i) = mailbox (subs h i) @ ys \<and> subseq ys (offered topic (Published t v n))
        \<and> (n < 0 \<longrightarrow> i \<in> set (topic_ids h topic) \<longrightarrow> length (mailbox (subs h i)) < q \<longrightarrow> ys = offered topic (Published t v n)))"
proof -
  define reached where "reached = reached_by visit n"
  have ids: "distinct (topic_ids h t)" "\<forall>j\<in>set (topic_ids h t). chan_ok (subs h j)"
    using inv by (simp_all add: sub_inv_def hub_wf_def)
  have "\<forall>j\<in>reached_by visit n. \<not> closed (subs h j)" using PublishN_effect(1) [OF ids visit, of n v] pub by auto
  from PublishN_effect(2) [OF ids visit this, of v] pub
  have h': "subscribers h' = subscribers h" "internalSubscriberID h' = internalSubscriberID h"
    "\<And>j. j \<notin> reached \<Longrightarrow> subs h' j = subs h j"
    "\<And>j. j \<in> reached \<Longrightarrow> mailbox (subs h' j) = mailbox (subs h j) @ (if accepts_now (subs h j) then [v] else [])
        \<and> chan_ok (subs h' j) \<and> \<not> closed (subs h' j) \<and> capacity (subs h' j) = capacity (subs h j)"
    unfolding reached_def [symmetric] by auto
  have tops: "topic_ids h' = topic_ids h" using h'(1) by (auto simp: topic_ids_def fun_eq_iff)
  have "chan_ok (subs h' j)" if "j \<in> set (topic_ids h u)" for j u
    using h'(3,4) [of j] inv that unfolding sub_inv_def hub_wf_def by (cases "j \<in> reached") auto
  then have "hub_wf h'" using inv by (auto simp: sub_inv_def hub_wf_def tops)
  moreover have "capacity (subs h' i) = capacity (subs h i)" using h'(3,4) [of i] by (cases "i \<in> reached") auto
  ultimately have inv': "sub_inv i topic q h'" using inv by (simp add: sub_inv_def tops h'(2))
  have vis: "set visit = set (topic_ids h t)" using visit(1) by (rule mset_eq_setD)
  then have sub: "reached \<subseteq> set (topic_ids h t)" by (auto simp: reached_def reached_by_def dest: in_set_takeD)
  have none: "reached = {}" if "n = 0" using that by (simp add: reached_def reached_by_def)
  have "mailbox (subs h' i) = mailbox (subs h i) @ (if i \<in> reached \<and> accepts_now (subs h i) then [v] else [])"
    using h'(3,4) [of i] by (cases "i \<in> reached") simp_all
  moreover have "t = topic \<and> n \<noteq> 0" if "i \<in> reached" using that sub inv none by (auto simp: sub_inv_def)
  moreover have "i \<in> reached \<and> accepts_now (subs h i)" if "n < 0" "i \<in> set (topic_ids h topic)" "length (mailbox (subs h i)) < q" "t = topic"
    using that vis inv by (auto simp: reached_def reached_by_def accepts_now_def sub_inv_def mailbox_def)
  ultimately show ?thesis using inv' tops by (intro conjI exI) (auto simp: offered_def)
qed

text \<open>A subscription, of another subscriber.\<close>

lemma subscribe_step:
  assumes inv: "sub_inv i topic q h" and sub: "Subscribe t m h = (j, h')" and n: "internalSubscriberID h \<noteq> - 1"
  shows "sub_inv i topic q h' \<and> subs h' i = subs h i \<and> set (topic_ids h topic) \<subseteq> set (topic_ids h' topic)"
proof -
  let ?n = "internalSubscriberID h"
  have issued: "ids_issued h" using inv n by (simp add: ids_issued_def sub_inv_def)
  obtain h'' where h'': "Subscribe t m h = (?n + 1, h'')" "\<And>t. ?n + 1 \<notin> set (topic_ids h t)"
    "topic_ids h'' = (\<lambda>x. if x = t then topic_ids h t @ [?n + 1] else topic_ids h x)"
    "subs h'' = (subs h)(?n + 1 := \<lparr>queue = [], capacity = (if m \<le> 0 then 0 else nat m), receivers = 0, received = [], closed = False\<rparr>)"
    "internalSubscriberID h'' = ?n + 1" by (rule Subscribe_new [OF issued, of t m]) blast
  have eq: "h'' = h'" using h''(1) sub by simp
  have i: "i \<noteq> ?n + 1" using inv n by (intro word_inc_fresh) (simp_all add: sub_inv_def)
  have le: "j \<le> ?n + 1" if "j \<le> ?n" for j using that n by (rule word_le_inc)
  have "hub_wf h'" using inv h''(2) unfolding sub_inv_def hub_wf_def h''(3,4) [unfolded eq] by (auto simp: chan_ok_def)
  then show ?thesis using inv i le by (auto simp: sub_inv_def h''(3-5) [unfolded eq])
qed

text \<open>An event that neither takes the subscriber out nor passes it over.\<close>

definition spares :: "64 word \<Rightarrow> 't \<Rightarrow> ('t, 'v) hub_event \<Rightarrow> bool" where
  "spares i topic e = (case e of
      Published t v n \<Rightarrow> t = topic \<longrightarrow> n \<le> 0
    | Unsubscribed t ss \<Rightarrow> t = topic \<longrightarrow> ss \<noteq> [] \<and> i \<notin> set ss
    | _ \<Rightarrow> True)"

lemma put_step:
  assumes "sub_inv i topic q h" and "mailbox c = mailbox (subs h j)" and "sub_inv i topic q (put_chan j c h)"
  shows "sub_inv i topic q (put_chan j c h) \<and> mailbox (subs (put_chan j c h) i) = mailbox (subs h i)
    \<and> topic_ids (put_chan j c h) = topic_ids h"
  using assms by auto

lemma hub_step_sub:
  assumes "hub_step h e h'" and inv: "sub_inv i topic q h"
  shows "sub_inv i topic q h'
    \<and> (\<exists>ys. mailbox (subs h' i) = mailbox (subs h i) @ ys \<and> subseq ys (offered topic e)
        \<and> (spares i topic e \<longrightarrow> i \<in> set (topic_ids h topic) \<longrightarrow> length (mailbox (subs h i)) + length (offered topic e) \<le> q \<longrightarrow>
            ys = offered topic e))
    \<and> (spares i topic e \<longrightarrow> i \<in> set (topic_ids h topic) \<longrightarrow> i \<in> set (topic_ids h' topic))"
  using assms(1)
proof cases
  case (hs_subscribe t m j)
  then show ?thesis using subscribe_step [OF inv hs_subscribe(2,3)] by (auto simp: offered_def)
next
  case (hs_unsubscribe t ss)
  have "sub_inv i topic q h'" using inv unfolding sub_inv_def hub_wf_def hs_unsubscribe Unsubscribe_topics by auto
  then show ?thesis unfolding hs_unsubscribe by (auto simp: offered_def spares_def Unsubscribe_topics)
next
  case (hs_publish visit t v n k)
  from publish_step [OF inv hs_publish(4,2,3)] obtain ys where "sub_inv i topic q h'" "topic_ids h' = topic_ids h"
    "mailbox (subs h' i) = mailbox (subs h i) @ ys" "subseq ys (offered topic e)"
    "n < 0 \<longrightarrow> i \<in> set (topic_ids h topic) \<longrightarrow> length (mailbox (subs h i)) < q \<longrightarrow> ys = offered topic e"
    unfolding hs_publish(1) by blast
  then show ?thesis unfolding hs_publish(1) by (auto simp: offered_def spares_def split: if_splits)
next
  case (hs_receive j x c)
  note r = receive_mailbox [OF hs_receive(3)]
  have "sub_inv i topic q (put_chan j c h)" using r by (intro sub_inv_put [OF inv, of j]) auto
  with r put_step [OF inv] show ?thesis unfolding hs_receive(1,2) by (auto simp: offered_def)
next
  case (hs_wait j)
  have "sub_inv i topic q h'" unfolding hs_wait(2) using waiting_ok [OF hs_wait(3)] by (intro sub_inv_put [OF inv, of j]) simp_all
  then show ?thesis unfolding hs_wait(1,2) by (auto simp: offered_def mailbox_def)
next
  case (hs_give_up j)
  have "sub_inv i topic q h'" unfolding hs_give_up(2) by (rule sub_inv_put [OF inv, of j]) (simp_all add: chan_ok_def)
  then show ?thesis unfolding hs_give_up(1,2) by (auto simp: offered_def mailbox_def)
next
  case (hs_end j c)
  have c: "c = (subs h j)\<lparr>closed := True\<rparr>" using hs_end(3) by (auto simp: Unsubscribe_channel_def split: if_splits)
  have "sub_inv i topic q h'" unfolding hs_end(2) c by (rule sub_inv_put [OF inv, of j]) (simp_all add: chan_ok_def)
  then show ?thesis unfolding hs_end(1,2) c by (auto simp: offered_def mailbox_def)
qed

interpretation sub_log: roomy_log hub_step "sub_inv i topic q" "\<lambda>h. mailbox (subs h i)" "offered topic"
    "\<lambda>h. i \<in> set (topic_ids h topic)" "spares i topic" q for i topic q
proof unfold_locales
  fix h h' :: "('a, 'b) hub" and e assume step: "sub_inv i topic q h" "hub_step h e h'"
  note sub = hub_step_sub [OF step(2,1)]
  show "sub_inv i topic q h'" using sub by (rule conjunct1)
  show "\<exists>ys. mailbox (subs h' i) = mailbox (subs h i) @ ys \<and> subseq ys (offered topic e)" using sub by blast
  assume good: "i \<in> set (topic_ids h topic)" "spares i topic e"
  show "i \<in> set (topic_ids h' topic)" using sub good by simp
  assume "length (mailbox (subs h i)) + length (offered topic e) \<le> q"
  then show "mailbox (subs h' i) = mailbox (subs h i) @ offered topic e" using sub good by auto
qed

text \<open>The state \<open>Subscribe\<close> leaves.\<close>

lemma subscribed_inv:
  assumes "hub_ok h" and "ids_issued h" and "Subscribe topic q h = (i, h1)"
  shows "i = internalSubscriberID h + 1 \<and> sub_inv i topic (nat q) h1 \<and> mailbox (subs h1 i) = [] \<and> i \<in> set (topic_ids h1 topic)"
proof -
  let ?n = "internalSubscriberID h"
  obtain h' where h': "Subscribe topic q h = (?n + 1, h')" "\<And>t. ?n + 1 \<notin> set (topic_ids h t)"
    "topic_ids h' = (\<lambda>x. if x = topic then topic_ids h topic @ [?n + 1] else topic_ids h x)"
    "subs h' = (subs h)(?n + 1 := \<lparr>queue = [], capacity = (if q \<le> 0 then 0 else nat q), receivers = 0, received = [], closed = False\<rparr>)"
    "internalSubscriberID h' = ?n + 1" by (rule Subscribe_new [OF assms(2), of topic q]) blast
  have i: "i = ?n + 1" "h1 = h'" using h'(1) assms(3) by simp_all
  have "hub_wf h'" using assms(1) h'(2) unfolding hub_ok_def hub_wf_def h'(3,4) by (auto simp: chan_ok_def)
  moreover have "j \<le> ?n + 1" if "j \<in> set (topic_ids h t)" for j t
    using assms(2) that word_le_inc [of j ?n] by (auto simp: ids_issued_def)
  ultimately show ?thesis using h'(2) by (auto simp: i sub_inv_def h'(3-5) mailbox_def)
qed

subsection \<open>Properties\<close>

text \<open>
  C29: whatever happens on the hub after \<open>Subscribe\<close> (on a hub without closed channels, and until the
  counter of subscribers wraps or a publication panics), with any number of topics, subscribers and
  receivers, subscribers that unsubscribe themselves, and in whatever order the runtime walks them: what a
  subscriber has received and can still receive are values published on its topic since, each at most
  once and in the order of publication; it is all of them when they are no more than the capacity it
  asked for, no publication was limited to some of the subscribers and nobody took it out of the topic;
  and the next publication panics exactly when it reaches a subscriber whose channel is closed.
\<close>

theorem subscriber_in_order:
  assumes "hub_ok h" and "ids_issued h" and "Subscribe topic q h = (i, h1)" and "runs hub_step h1 es h2"
  shows "subseq (received (subs h2 i) @ queue (subs h2 i)) (published topic es)
    \<and> (length (published topic es) \<le> nat q \<longrightarrow> (\<forall>e\<in>set es. spares i topic e) \<longrightarrow>
        received (subs h2 i) @ queue (subs h2 i) = published topic es)
    \<and> (\<forall>t visit v n. mset visit = mset (topic_ids h2 t) \<longrightarrow> int (length visit) \<le> max_int \<longrightarrow>
        ((\<exists>p. PublishN visit t v n h2 = Inl p) \<longleftrightarrow>
          (\<exists>j\<in>(if n < 0 then set visit else set (take (nat n) visit)). closed (subs h2 j))))"
proof -
  have h1: "sub_inv i topic (nat q) h1" "mailbox (subs h1 i) = []" "i \<in> set (topic_ids h1 topic)"
    using subscribed_inv [OF assms(1-3)] by blast+
  obtain ys where ys: "sub_inv i topic (nat q) h2" "mailbox (subs h2 i) = ys" "subseq ys (published topic es)"
    using sub_log.run_appends [OF assms(4) h1(1)] h1(2) unfolding published_def by auto
  have "mailbox (subs h2 i) = published topic es"
    if "length (published topic es) \<le> nat q" "\<forall>e\<in>set es. spares i topic e"
    using sub_log.run_takes_all [OF assms(4) h1(1,3) that(2)] that(1) h1(2) by (simp add: published_def)
  moreover have "(\<exists>p. PublishN visit t v n h2 = Inl p) \<longleftrightarrow> (\<exists>j\<in>reached_by visit n. closed (subs h2 j))"
    if "mset visit = mset (topic_ids h2 t)" "int (length visit) \<le> max_int" for t visit v n
  proof -
    have "distinct (topic_ids h2 t)" "\<forall>j\<in>set (topic_ids h2 t). chan_ok (subs h2 j)"
      using ys(1) by (simp_all add: sub_inv_def hub_wf_def)
    note eff = PublishN_effect [OF this that, of n v]
    show ?thesis
    proof (cases "\<exists>j\<in>reached_by visit n. closed (subs h2 j)")
      case True
      with eff(1) show ?thesis by blast
    next
      case False
      with eff(2) show ?thesis by auto
    qed
  qed
  ultimately show ?thesis using ys(2,3) unfolding reached_by_def by (simp add: mailbox_def)
qed

theorem subscriber_in_order_witness:
  "\<exists>h2. runs hub_step (snd (Subscribe ''t'' 3 empty_hub)) [Published ''t'' 7 (- 1), Received 1, Published ''t'' 8 (- 1)] h2
    \<and> received (subs h2 1) @ queue (subs h2 1) = [7, 8]"
proof -
  let ?ch = "\<lparr>queue = [], capacity = 3, receivers = 0, received = [], closed = False\<rparr> :: nat chan"
  define h1 where "h1 = snd (Subscribe ''t'' 3 empty_hub)"
  have ids: "topic_ids h1 = (\<lambda>t. if t = ''t'' then [1] else [])" and ch: "subs h1 1 = ?ch"
    and tops: "subscribers h1 ''t'' = Some [1]" "subscribers h1 \<noteq> (\<lambda>_. None)" and sub: "Subscribe ''t'' 3 empty_hub = (1, h1)"
    by (auto simp: h1_def Subscribe_def newChannelSubscriber_def empty_hub_def topic_ids_def Let_def fun_eq_iff)
  define h2 where "h2 = put_chan 1 (?ch\<lparr>queue := [7]\<rparr>) h1"
  define h3 where "h3 = put_chan 1 (?ch\<lparr>received := [7]\<rparr>) h2"
  define h4 where "h4 = put_chan 1 (?ch\<lparr>queue := [8], received := [7]\<rparr>) h3"
  have "PublishN [1] ''t'' 7 (- 1) h1 = Inr (1, h2)"
    by (simp add: PublishN_def publish_def tops ch h2_def Let_def)
  then have 1: "hub_step h1 (Published ''t'' 7 (- 1)) h2" by (rule hs_publish [rotated 2]) (simp_all add: ids)
  have 2: "hub_step h2 (Received 1) h3"
    using hs_receive [of h2 1 "Some 7" "?ch\<lparr>received := [7]\<rparr>"] by (simp add: receive_def h2_def h3_def)
  have "PublishN [1] ''t'' 8 (- 1) h3 = Inr (1, h4)"
    by (simp add: PublishN_def publish_def tops ch h2_def h3_def h4_def Let_def)
  then have 3: "hub_step h3 (Published ''t'' 8 (- 1)) h4" by (rule hs_publish [rotated 2]) (simp_all add: ids h3_def h2_def)
  have run: "runs hub_step h1 [Published ''t'' 7 (- 1), Received 1, Published ''t'' 8 (- 1)] h4"
    using 1 2 3 by (auto)
  have "hub_ok empty_hub" "ids_issued empty_hub"
    by (simp_all add: hub_ok_def ids_issued_def empty_hub_def topic_ids_def)
  from subscriber_in_order [OF this sub run] run show ?thesis
    unfolding h1_def [symmetric] by (intro exI [of _ h4]) (simp add: published_def offered_def spares_def)
qed

end
