(* ===== verification/Platforms.thy ===== *)
theory Platforms
  imports GenGoos
begin

text \<open>
  The generated files \<^verbatim>\<open>sys/sysvars/zgoos_*.go\<close> as they are in the repository, and \<^verbatim>\<open>sys/syslist.go\<close>, which
  they are generated from: what a build takes from each, and that they are what the generator writes.
\<close>

subsection \<open>The files\<close>

text \<open>
  \<open>tags\<close> is the constraint of a file, a conjunction, \<open>GOOS\<close> the constant of that name and \<open>flags\<close> the constants
  \<open>Is...\<close>, in their order.
\<close>

record platform =
  tags :: "string list"
  GOOS :: string
  flags :: "(string \<times> bool) list"

definition zgoos_aix :: platform where
  "zgoos_aix = \<lparr>tags = [''aix''], GOOS = ''aix'', flags =
      [(''IsAix'', True), (''IsAndroid'', False), (''IsDarwin'', False), (''IsDragonfly'', False),
       (''IsFreebsd'', False), (''IsHurd'', False), (''IsIllumos'', False), (''IsIos'', False),
       (''IsJs'', False), (''IsLinux'', False), (''IsNetbsd'', False), (''IsOpenbsd'', False),
       (''IsPlan9'', False), (''IsSolaris'', False), (''IsWindows'', False), (''IsZos'', False)]\<rparr>"

definition zgoos_android :: platform where
  "zgoos_android = \<lparr>tags = [''android''], GOOS = ''android'', flags =
      [(''IsAix'', False), (''IsAndroid'', True), (''IsDarwin'', False), (''IsDragonfly'', False),
       (''IsFreebsd'', False), (''IsHurd'', False), (''IsIllumos'', False), (''IsIos'', False),
       (''IsJs'', False), (''IsLinux'', False), (''IsNetbsd'', False), (''IsOpenbsd'', False),
       (''IsPlan9'', False), (''IsSolaris'', False), (''IsWindows'', False), (''IsZos'', False)]\<rparr>"

definition zgoos_darwin :: platform where
  "zgoos_darwin = \<lparr>tags = [''!ios'', ''darwin''], GOOS = ''darwin'', flags =
      [(''IsAix'', False), (''IsAndroid'', False), (''IsDarwin'', True), (''IsDragonfly'', False),
       (''IsFreebsd'', False), (''IsHurd'', False), (''IsIllumos'', False), (''IsIos'', False),
       (''IsJs'', False), (''IsLinux'', False), (''IsNetbsd'', False), (''IsOpenbsd'', False),
       (''IsPlan9'', False), (''IsSolaris'', False), (''IsWindows'', False), (''IsZos'', False)]\<rparr>"

definition zgoos_dragonfly :: platform where
  "zgoos_dragonfly = \<lparr>tags = [''dragonfly''], GOOS = ''dragonfly'', flags =
      [(''IsAix'', False), (''IsAndroid'', False), (''IsDarwin'', False), (''IsDragonfly'', True),
       (''IsFreebsd'', False), (''IsHurd'', False), (''IsIllumos'', False), (''IsIos'', False),
       (''IsJs'', False), (''IsLinux'', False), (''IsNetbsd'', False), (''IsOpenbsd'', False),
       (''IsPlan9'', False), (''IsSolaris'', False), (''IsWindows'', False), (''IsZos'', False)]\<rparr>"

definition zgoos_freebsd :: platform where
  "zgoos_freebsd = \<lparr>tags = [''freebsd''], GOOS = ''freebsd'', flags =
      [(''IsAix'', False), (''IsAndroid'', False), (''IsDarwin'', False), (''IsDragonfly'', False),
       (''IsFreebsd'', True), (''IsHurd'', False), (''IsIllumos'', False), (''IsIos'', False),
       (''IsJs'', False), (''IsLinux'', False), (''IsNetbsd'', False), (''IsOpenbsd'', False),
       (''IsPlan9'', False), (''IsSolaris'', False), (''IsWindows'', False), (''IsZos'', False)]\<rparr>"

definition zgoos_hurd :: platform where
  "zgoos_hurd = \<lparr>tags = [''hurd''], GOOS = ''hurd'', flags =
      [(''IsAix'', False), (''IsAndroid'', False), (''IsDarwin'', False), (''IsDragonfly'', False),
       (''IsFreebsd'', False), (''IsHurd'', True), (''IsIllumos'', False), (''IsIos'', False),
       (''IsJs'', False), (''IsLinux'', False), (''IsNetbsd'', False), (''IsOpenbsd'', False),
       (''IsPlan9'', False), (''IsSolaris'', False), (''IsWindows'', False), (''IsZos'', False)]\<rparr>"

definition zgoos_illumos :: platform where
  "zgoos_illumos = \<lparr>tags = [''illumos''], GOOS = ''illumos'', flags =
      [(''IsAix'', False), (''IsAndroid'', False), (''IsDarwin'', False), (''IsDragonfly'', False),
       (''IsFreebsd'', False), (''IsHurd'', False), (''IsIllumos'', True), (''IsIos'', False),
       (''IsJs'', False), (''IsLinux'', False), (''IsNetbsd'', False), (''IsOpenbsd'', False),
       (''IsPlan9'', False), (''IsSolaris'', False), (''IsWindows'', False), (''IsZos'', False)]\<rparr>"

definition zgoos_ios :: platform where
  "zgoos_ios = \<lparr>tags = [''ios''], GOOS = ''ios'', flags =
      [(''IsAix'', False), (''IsAndroid'', False), (''IsDarwin'', False), (''IsDragonfly'', False),
       (''IsFreebsd'', False), (''IsHurd'', False), (''IsIllumos'', False), (''IsIos'', True),
       (''IsJs'', False), (''IsLinux'', False), (''IsNetbsd'', False), (''IsOpenbsd'', False),
       (''IsPlan9'', False), (''IsSolaris'', False), (''IsWindows'', False), (''IsZos'', False)]\<rparr>"

definition zgoos_js :: platform where
  "zgoos_js = \<lparr>tags = [''js''], GOOS = ''js'', flags =
      [(''IsAix'', False), (''IsAndroid'', False), (''IsDarwin'', False), (''IsDragonfly'', False),
       (''IsFreebsd'', False), (''IsHurd'', False), (''IsIllumos'', False), (''IsIos'', False),
       (''IsJs'', True), (''IsLinux'', False), (''IsNetbsd'', False), (''IsOpenbsd'', False),
       (''IsPlan9'', False), (''IsSolaris'', False), (''IsWindows'', False), (''IsZos'', False)]\<rparr>"

definition zgoos_linux :: platform where
  "zgoos_linux = \<lparr>tags = [''!android'', ''linux''], GOOS = ''linux'', flags =
      [(''IsAix'', False), (''IsAndroid'', False), (''IsDarwin'', False), (''IsDragonfly'', False),
       (''IsFreebsd'', False), (''IsHurd'', False), (''IsIllumos'', False), (''IsIos'', False),
       (''IsJs'', False), (''IsLinux'', True), (''IsNetbsd'', False), (''IsOpenbsd'', False),
       (''IsPlan9'', False), (''IsSolaris'', False), (''IsWindows'', False), (''IsZos'', False)]\<rparr>"

definition zgoos_netbsd :: platform where
  "zgoos_netbsd = \<lparr>tags = [''netbsd''], GOOS = ''netbsd'', flags =
      [(''IsAix'', False), (''IsAndroid'', False), (''IsDarwin'', False), (''IsDragonfly'', False),
       (''IsFreebsd'', False), (''IsHurd'', False), (''IsIllumos'', False), (''IsIos'', False),
       (''IsJs'', False), (''IsLinux'', False), (''IsNetbsd'', True), (''IsOpenbsd'', False),
       (''IsPlan9'', False), (''IsSolaris'', False), (''IsWindows'', False), (''IsZos'', False)]\<rparr>"

definition zgoos_openbsd :: platform where
  "zgoos_openbsd = \<lparr>tags = [''openbsd''], GOOS = ''openbsd'', flags =
      [(''IsAix'', False), (''IsAndroid'', False), (''IsDarwin'', False), (''IsDragonfly'', False),
       (''IsFreebsd'', False), (''IsHurd'', False), (''IsIllumos'', False), (''IsIos'', False),
       (''IsJs'', False), (''IsLinux'', False), (''IsNetbsd'', False), (''IsOpenbsd'', True),
       (''IsPlan9'', False), (''IsSolaris'', False), (''IsWindows'', False), (''IsZos'', False)]\<rparr>"

definition zgoos_plan9 :: platform where
  "zgoos_plan9 = \<lparr>tags = [''plan9''], GOOS = ''plan9'', flags =
      [(''IsAix'', False), (''IsAndroid'', False), (''IsDarwin'', False), (''IsDragonfly'', False),
       (''IsFreebsd'', False), (''IsHurd'', False), (''IsIllumos'', False), (''IsIos'', False),
       (''IsJs'', False), (''IsLinux'', False), (''IsNetbsd'', False), (''IsOpenbsd'', False),
       (''IsPlan9'', True), (''IsSolaris'', False), (''IsWindows'', False), (''IsZos'', False)]\<rparr>"

definition zgoos_solaris :: platform where
  "zgoos_solaris = \<lparr>tags = [''!illumos'', ''solaris''], GOOS = ''solaris'', flags =
      [(''IsAix'', False), (''IsAndroid'', False), (''IsDarwin'', False), (''IsDragonfly'', False),
       (''IsFreebsd'', False), (''IsHurd'', False), (''IsIllumos'', False), (''IsIos'', False),
       (''IsJs'', False), (''IsLinux'', False), (''IsNetbsd'', False), (''IsOpenbsd'', False),
       (''IsPlan9'', False), (''IsSolaris'', True), (''IsWindows'', False), (''IsZos'', False)]\<rparr>"

definition zgoos_windows :: platform where
  "zgoos_windows = \<lparr>tags = [''windows''], GOOS = ''windows'', flags =
      [(''IsAix'', False), (''IsAndroid'', False), (''IsDarwin'', False), (''IsDragonfly'', False),
       (''IsFreebsd'', False), (''IsHurd'', False), (''IsIllumos'', False), (''IsIos'', False),
       (''IsJs'', False), (''IsLinux'', False), (''IsNetbsd'', False), (''IsOpenbsd'', False),
       (''IsPlan9'', False), (''IsSolaris'', False), (''IsWindows'', True), (''IsZos'', False)]\<rparr>"

definition zgoos_zos :: platform where
  "zgoos_zos = \<lparr>tags = [''zos''], GOOS = ''zos'', flags =
      [(''IsAix'', False), (''IsAndroid'', False), (''IsDarwin'', False), (''IsDragonfly'', False),
       (''IsFreebsd'', False), (''IsHurd'', False), (''IsIllumos'', False), (''IsIos'', False),
       (''IsJs'', False), (''IsLinux'', False), (''IsNetbsd'', False), (''IsOpenbsd'', False),
       (''IsPlan9'', False), (''IsSolaris'', False), (''IsWindows'', False), (''IsZos'', True)]\<rparr>"

definition platforms :: "platform list" where
  "platforms = [zgoos_aix, zgoos_android, zgoos_darwin, zgoos_dragonfly, zgoos_freebsd, zgoos_hurd, zgoos_illumos,
     zgoos_ios, zgoos_js, zgoos_linux, zgoos_netbsd, zgoos_openbsd, zgoos_plan9, zgoos_solaris, zgoos_windows, zgoos_zos]"

text \<open>The text of such a file, and of the file with the list, whose literal is written between double quotes.\<close>

definition platform_text :: "platform \<Rightarrow> string" where
  "platform_text p =
     ''// Code generated by gengoos.go using 'go generate'. DO NOT EDIT.'' @ [newline, newline]
     @ ''//go:build '' @ strings_Join (tags p) '' && '' @ [newline]
     @ ''package sysvars'' @ [newline, newline]
     @ ''const GOOS = `'' @ GOOS p @ ''`'' @ [newline, newline]
     @ concat (map (\<lambda>(name, v). ''const '' @ name @ '' = '' @ (if v then ''true'' else ''false'') @ [newline]) (flags p))"

definition quoted :: "string \<Rightarrow> string" where
  "quoted s = [CHR 0x22] @ s @ [CHR 0x22]"

definition syslist_go :: string where
  "syslist_go = ''package sys'' @ [newline, newline] @ goosPrefix @ quoted syslist @ [newline]"

definition built :: "string \<Rightarrow> platform \<Rightarrow> bool" where
  "built os p \<longleftrightarrow> list_all (tag_holds os) (tags p)"

lemmas zgoos_defs = zgoos_aix_def zgoos_android_def zgoos_darwin_def zgoos_dragonfly_def zgoos_freebsd_def zgoos_hurd_def
  zgoos_illumos_def zgoos_ios_def zgoos_js_def zgoos_linux_def zgoos_netbsd_def zgoos_openbsd_def zgoos_plan9_def
  zgoos_solaris_def zgoos_windows_def zgoos_zos_def

subsection \<open>They are what the generator writes\<close>

text \<open>The fields of the files, each over the whole list: the names are those of the list, and the rest is what
  the generator computes from the name.\<close>

lemma platform_names: "map GOOS platforms = strings_Fields syslist"
  by (simp add: platforms_def syslist_fields zgoos_defs)

lemma platform_tags: "list_all (\<lambda>p. tags p = target_tags (GOOS p)) platforms"
  by (simp add: platforms_def zgoos_defs target_tags_def)

lemma platform_flags:
  "list_all (\<lambda>p. flags p = map (\<lambda>goos. (''Is'' @ strings_Title goos, goos = GOOS p)) (strings_Fields syslist)) platforms"
  unfolding syslist_fields by code_simp

lemma platform_text_generated: "p \<in> set platforms \<Longrightarrow> platform_text p = goos_file (strings_Fields syslist) (GOOS p)"
  using platform_tags platform_flags
  by (simp add: list_all_iff platform_text_def goos_file_def goos_line_def [abs_def] comp_def)

lemma syslist_lines: "split_lines [] syslist_go = [''package sys'', []] @ (goosPrefix @ quoted syslist) # [[]]"
  by code_simp

lemma built_target: "p \<in> set platforms \<Longrightarrow> built os p = file_built os (GOOS p)"
  using platform_tags by (simp add: list_all_iff built_def file_built_def)

subsection \<open>Properties\<close>

text \<open>
  C40: run on the list of the repository, the generator writes exactly the files of the repository, byte for
  byte; and for every system of the list a build takes exactly one of them, whose \<open>GOOS\<close> is that system
  and whose constants \<open>Is...\<close> are false but for that system's.
\<close>

theorem checked_in_as_generated:
  assumes "unquote (quoted syslist) = Inr syslist" and "\<And>name. write_file name = None"
  shows "gengoos_main unquote write_file (Inr syslist_go)
      = (map (\<lambda>p. (''zgoos_'' @ GOOS p @ ''.go'', platform_text p)) platforms, None)
    \<and> (\<forall>os\<in>set (strings_Fields syslist). \<exists>p. filter (built os) platforms = [p] \<and> GOOS p = os
        \<and> flags p = map (\<lambda>goos. (''Is'' @ strings_Title goos, goos = os)) (strings_Fields syslist))"
proof
  have list: "distinct (strings_Fields syslist)" "list_all (\<lambda>t. hd t \<noteq> CHR ''!'') (strings_Fields syslist)"
    "filter (\<lambda>t. t \<noteq> ''nacl'') (strings_Fields syslist) = strings_Fields syslist"
    unfolding syslist_fields by simp_all
  have other: "list_all (\<lambda>l. take (length goosPrefix) l \<noteq> goosPrefix) ([''package sys'', []] @ [[]])" by code_simp
  note gen = gengoos_one_file_each [of syslist_go "[''package sys'', []]" "quoted syslist" "[[]]" unquote syslist write_file,
      OF syslist_lines other assms list(1,2)]
  have "gengoos_main unquote write_file (Inr syslist_go)
      = (map (\<lambda>t. (''zgoos_'' @ t @ ''.go'', goos_file (strings_Fields syslist) t)) (map GOOS platforms), None)"
    using gen list(3) by (simp only: platform_names)
  then show "gengoos_main unquote write_file (Inr syslist_go)
      = (map (\<lambda>p. (''zgoos_'' @ GOOS p @ ''.go'', platform_text p)) platforms, None)"
    by (simp add: platform_text_generated)
  show "\<forall>os\<in>set (strings_Fields syslist). \<exists>p. filter (built os) platforms = [p] \<and> GOOS p = os
        \<and> flags p = map (\<lambda>goos. (''Is'' @ strings_Title goos, goos = os)) (strings_Fields syslist)"
  proof
    fix os assume "os \<in> set (strings_Fields syslist)"
    then have "filter (file_built os) (map GOOS platforms) = [os]" using gen by (simp only: platform_names)
    then have "map GOOS (filter (built os) platforms) = [os]"
      by (simp add: filter_map comp_def built_target cong: filter_cong)
    then obtain p where p: "filter (built os) platforms = [p]" "GOOS p = os" by auto
    then have "p \<in> set (filter (built os) platforms)" by simp
    then have "p \<in> set platforms" by (simp only: set_filter mem_Collect_eq)
    then show "\<exists>p. filter (built os) platforms = [p] \<and> GOOS p = os
        \<and> flags p = map (\<lambda>goos. (''Is'' @ strings_Title goos, goos = os)) (strings_Fields syslist)"
      using p platform_flags by (auto simp: list_all_iff)
  qed
qed

theorem checked_in_as_generated_witness:
  "fst (gengoos_main (\<lambda>q. Inr (butlast (tl q))) (\<lambda>_. None) (Inr syslist_go)) ! 9 = (''zgoos_linux.go'', platform_text zgoos_linux)"
proof -
  have "(\<lambda>q. Inr (butlast (tl q))) (quoted syslist) = (Inr syslist :: go_error + string)" by (simp add: quoted_def)
  from checked_in_as_generated [of "\<lambda>q. Inr (butlast (tl q))", OF this, of "\<lambda>_. None"] show ?thesis by (simp add: platforms_def zgoos_linux_def)
qed

end
