(* ===== verification/Spec2Isabelle.thy ===== *)
theory Spec2Isabelle
  imports Alloc Buffer BufferIO Lifecycle BufWriter Objects Cache Copy Splice Counting Singleflight SubHub TaskGroup GroupProgress
    Slicelib Ex Values Registry Slog Console ConsoleLine ConsoleWrite ConsoleWith Logger LoggerLaws BufPool GenGoos Collector
    ConsoleShared HubOrder Platforms
begin

text \<open>
  A model of the Go library \<^verbatim>\<open>github.com/qtraffics/qtfra\<close>, with the theorems that make it correct and the
  theorems that show where it is not. This theory only gathers the others; every file is named
  below with the theory that models it, paths being relative to \<^verbatim>\<open>src/\<close>.

  \<^bold>\<open>The program.\<close> The library has four parts. (1) Bytes: a size-class allocator of byte slices, the
  \<open>Buffer\<close> on top of it, buffered and cached readers and writers, wrappers that count and close, and
  \<open>Copy\<close>, which moves a stream through all of them, on Linux inside the kernel by \<^verbatim>\<open>splice\<close>.
  (2) Goroutines: a singleflight, a publish/subscribe hub, a group of tasks, and the collector of
  system metrics, which runs its producers as a task group and hands them work over a hub.
  (3) Logging: levels and metadata, a front end of loggers, and a console handler that formats a
  record into a \<open>Buffer\<close> through a \<open>BufWriter\<close>. (4) Helpers: errors, slices, maps, values, a service
  registry, and the generator of the platform constants.

  \<^bold>\<open>Conventions.\<close> \<open>Prelude\<close> has what all theories share. A Go \<open>int\<close> is an \<open>int\<close> whose additions
  and subtractions go through \<open>wrap64\<close> wherever they can leave the 64-bit range; other machine integers
  are words of their width. A slice is a reference to an array with a length and a capacity where
  sharing matters (\<open>Alloc\<close>, \<open>Buffer\<close>, \<open>Lifecycle\<close>) and a list elsewhere. An \<open>error\<close> is an
  optional value of \<open>go_error\<close>, a panic is the left side of \<open>'a go\<close> (\<open>Ex\<close>). A call that may not
  return is an option: \<open>None\<close> means that it runs for ever. Such loops are \<^theory_text>\<open>partial_function (option)\<close>,
  so no fuel is chosen anywhere, and that a loop returns is a theorem of its own.

  \<^bold>\<open>Bytes.\<close>
  \<open>Alloc\<close> (\<^verbatim>\<open>buf/alloc.go\<close>): the eleven pools and the arithmetic on \<open>uint16\<close> that picks one; what \<open>Get\<close> returns
  has the length asked for and the capacity of its class. \<^verbatim>\<open>sync.Pool\<close> is a list from which any item,
  or none, may come back.
  \<open>Buffer\<close> (\<^verbatim>\<open>buf/buffer.go\<close>, \<^verbatim>\<open>sys/sysvars/buf.go\<close>): all methods on the two positions; a buffer is a bounded
  queue of bytes, by a refinement of whole programs of operations.
  \<open>BufferIO\<close>: the methods that call a reader or writer, over any reader and writer that keep the
  contract of \<^verbatim>\<open>io.Reader\<close> and \<^verbatim>\<open>io.Writer\<close> (the locales \<open>io_reader\<close>, \<open>io_writer\<close> and their extensions with
  a stream or a sink), which the buffer itself does; their loops end.
  \<open>Lifecycle\<close>: any number of buffers over one allocator, freed, closed, resized and reference
  counted in any order: no array has two owners.
  \<open>BufWriter\<close> (\<^verbatim>\<open>enhancements/iolib/rw.go\<close>): what the writer beneath has got and what is buffered is what was
  written.
  \<open>Objects\<close> (\<^verbatim>\<open>enhancements/iolib/close.go\<close>, \<^verbatim>\<open>underlay/\<close>, \<^verbatim>\<open>counter/\<close>): values behind the interfaces, as a tree of wrappers.
  \<open>Cache\<close> (\<^verbatim>\<open>enhancements/iolib/cache.go\<close>): reading through such a tree; readers over any outside world (the locale
  \<open>ext_readers\<close>).
  \<open>Copy\<close> (\<^verbatim>\<open>enhancements/iolib/copy.go\<close>, \<^verbatim>\<open>handshake.go\<close>): handshake, caches, and the general loop, with the
  standard library's \<^verbatim>\<open>io.CopyBuffer\<close>; a nil result means that everything was delivered, once and in order,
  unless a write returned \<^verbatim>\<open>io.EOF\<close>, which the code takes for the end of the source.
  \<open>Counting\<close>: wrapping and unwrapping of counters counts every byte as often as before.
  \<open>Splice\<close> (\<^verbatim>\<open>enhancements/iolib/splice_linux.go\<close>): the loop over a kernel given by its calls (the locale
  \<open>splice_kernel\<close>, interpreted by a kernel in memory).
  \<open>BufPool\<close> (\<^verbatim>\<open>buf/pool.go\<close>, \<^verbatim>\<open>enhancements/pool/pool.go\<close>): the pool of buffers of one size.

  \<^bold>\<open>Goroutines.\<close> These are step relations: a stretch of code under a lock, and each channel operation or
  call between two of them, is a step; any goroutine may go next.
  \<open>Singleflight\<close> (\<^verbatim>\<open>enhancements/singleflight\<close>): at most one execution per key; every caller gets what that execution
  gave (a history of the executions, which the code does not have, is kept beside the state); no lost waiter.
  \<open>SubHub\<close> (\<^verbatim>\<open>threads/sub.go\<close>): channels with capacity and closing; the order in which a map is
  walked is an argument. \<open>HubOrder\<close>: runs of all operations of a hub; a subscriber is delivered what is published, in
  order, and all of it while it has room, and a publication panics exactly when it reaches a channel that its
  subscriber has closed (the locales \<open>append_log\<close> and \<open>roomy_log\<close>, interpreted by a subscriber's channel).
  \<open>TaskGroup\<close> (\<^verbatim>\<open>threads/group.go\<close>): \<open>Run\<close> waits for its tasks, collects their errors, picks the error it returns and keeps to its limit; task functions return, and the
  queue is full when \<open>Run\<close> starts;
  \<open>GroupProgress\<close>: it comes to its end, by a measure that every effective step lowers (at most
  five steps for a task, three for the caller, one for each context).
  \<open>Collector\<close> (\<^verbatim>\<open>sys/sysmetrics\<close>, \<^verbatim>\<open>enhancements/contextlib\<close>): the composition of both with the producers, the goroutine of
  \<open>Start\<close> and callers of \<open>Collect\<close> and \<open>Close\<close>. The group inside it is the group of \<open>TaskGroup\<close>, step by step;
  the theorems on \<open>Collect\<close> and \<open>Close\<close> show defects of the code.

  \<^bold>\<open>Logging.\<close>
  \<open>Slog\<close> (\<^verbatim>\<open>log/attrs.go\<close>, \<^verbatim>\<open>log/format.go\<close>, \<^verbatim>\<open>log/metadata.go\<close> and the levels of \<^verbatim>\<open>log/move.go\<close>): values, attributes, metadata, parsing and printing of levels.
  \<open>Console\<close> (\<^verbatim>\<open>log/loghandler\<close>): the handler, its state for a record, the builder. \<open>ConsoleLine\<close>: the line of
  a record as one function, \<open>format_line\<close>, and that the state's operations write it;
  \<open>ConsoleWrite\<close>: \<open>Handle\<close> from start to the deferred release, in one write; \<open>ConsoleShared\<close>: goroutines that log at the
  same time over a writer that may stop early or fail: behind the mutex of \<open>SafeWriter\<close> a line is whole or a
  front of itself with an error, and never mixed with another;
  \<open>ConsoleWith\<close>: the handlers made by \<open>WithAttrs\<close> and \<open>WithGroup\<close>.
  \<open>Logger\<close> (\<^verbatim>\<open>log/feature.go\<close>, \<^verbatim>\<open>option.go\<close>, \<^verbatim>\<open>move.go\<close>, \<^verbatim>\<open>default.go\<close>, \<^verbatim>\<open>factory.go\<close>): loggers in a store of pointers, options, the package's
  variables. \<open>LoggerLaws\<close>: their behaviour over any handler with the laws of \<^verbatim>\<open>slog.Handler\<close> (the locale
  \<open>slog_handler\<close>, interpreted by the console handler), down to the line a call prints.

  \<^bold>\<open>Helpers.\<close> \<open>Ex\<close> (\<^verbatim>\<open>ex/\<close>), \<open>Slicelib\<close> (\<^verbatim>\<open>enhancements/slicelib\<close>), \<open>Values\<close> (\<^verbatim>\<open>values/\<close>, \<^verbatim>\<open>enhancements/maplib\<close>), \<open>Registry\<close>
  (\<^verbatim>\<open>registry/\<close>, \<^verbatim>\<open>services/\<close>), \<open>GenGoos\<close> (\<^verbatim>\<open>sys/sysvars/gengoos.go\<close>: the files it writes, and which of them the build
  takes), \<open>Platforms\<close> (\<^verbatim>\<open>sys/sysvars/zgoos_*.go\<close>, \<^verbatim>\<open>sys/syslist.go\<close>: the files of the repository are what it writes).

  \<^bold>\<open>What is a parameter.\<close> Readers, writers and closers from outside, the kernel's pipes and splice, the
  readings of \<^verbatim>\<open>gopsutil\<close>, the handlers and loggers of a user, the clock and the layout of time stamps,
  the colours, the file system, \<^verbatim>\<open>strconv.Unquote\<close>, and the values that \<^verbatim>\<open>reflect\<close> and \<^verbatim>\<open>fmt\<close> give of
  arbitrary values. Their laws are named hypotheses, and each has an instance.

  \<^bold>\<open>Not modelled.\<close> \<^verbatim>\<open>splice_stub.go\<close>, which does not compile as written; messages at debug level and those of debug builds; finalizers
  and the garbage collector; data races on variables that the code reads without a lock, since a
  step of a relation is atomic; what the cleanup function of a group does; a \<open>Run\<close> of a group
  while an earlier one still holds tokens, and tasks that panic; \<open>As\<close> of a slice that is already in use;
  deferred calls on the way of a panic (\<open>SafeWriter\<close>'s unlock, \<open>Handle\<close>'s release), after which a state is no
  longer followed;
  type declarations, interface checks and getters without behaviour.
\<close>

end
